(* ===== verification/Message.thy ===== *)
theory Message
  imports Prelude
begin

text \<open>
  \<open>internal/queue/message.go\<close>: queue configurations and their normalisation, messages,
  deliveries, counters, and the errors the queue package returns. The clock hands out
  \<open>time.Time\<close> values, modelled by their \<open>UnixNano\<close>; random identifiers are the hexadecimal
  text of the bytes drawn.
\<close>

section \<open>Errors\<close>

text \<open>
  \<open>wal_error\<close> lists what \<open>wal.Append\<close> can return (\<open>WalIO\<close> stands for an error of the operating
  system); \<open>queue_error\<close> lists the sentinel errors of the queue package, with the reason that
  \<open>normalize\<close> wraps into \<open>ErrInvalidQueueCfg\<close>.
\<close>

datatype wal_error = WalInvalidType | ErrRecordTooLarge | WalErrClosed | WalIO nat

datatype cfg_reason = BadName | BadMode | BadVisibilityTimeout | BadMaxAttempts

datatype queue_error =
    ErrQueueExists
  | ErrQueueNotFound
  | ErrNotLeased
  | ErrBadLeaseToken
  | ErrClosed
  | ErrInvalidQueueCfg cfg_reason
  | ErrWal wal_error
  | ErrCtx

section \<open>Configuration\<close>

type_synonym mode = string

definition FIFO :: mode where "FIFO = ''fifo''"
definition LIFO :: mode where "LIFO = ''lifo''"

text \<open>Milliseconds; \<open>time.Duration\<close> values are nanoseconds.\<close>

definition DefaultVisibilityTimeout :: int where
  "DefaultVisibilityTimeout = 30 * 1000000000"

definition DefaultMaxAttempts :: int where
  "DefaultMaxAttempts = 5"

definition DedupTTL :: int where
  "DedupTTL = 5 * 60 * 1000000000"

text \<open>\<open>Duration.Milliseconds\<close> truncates the nanosecond count.\<close>

definition Milliseconds :: "int \<Rightarrow> int" where
  "Milliseconds d = go_div d 1000000"

definition unixMilli :: "int \<Rightarrow> int" where
  "unixMilli t = go_div t 1000000"

record config =
  c_Name :: string
  c_Mode :: mode
  c_Priority :: bool
  c_Delay :: bool
  c_VisibilityTimeoutMS :: int
  c_MaxAttempts :: int
  c_DLQ :: bool

definition alnum :: "char \<Rightarrow> bool" where
  "alnum c = (let n = (of_char c :: nat) in
     (48 \<le> n \<and> n \<le> 57) \<or> (65 \<le> n \<and> n \<le> 90) \<or> (97 \<le> n \<and> n \<le> 122))"

text \<open>The pattern \<open>^[A-Za-z0-9][A-Za-z0-9_-]{0,63}$\<close>.\<close>

definition queueNamePattern :: "string \<Rightarrow> bool" where
  "queueNamePattern s =
     (case s of [] \<Rightarrow> False
      | c # cs \<Rightarrow> alnum c \<and> length cs \<le> 63 \<and>
          list_all (\<lambda>d. alnum d \<or> d = CHR ''_'' \<or> d = CHR ''-'') cs)"

definition normalize :: "config \<Rightarrow> queue_error + config" where
  "normalize c =
     (if \<not> queueNamePattern (c_Name c) then Inl (ErrInvalidQueueCfg BadName)
      else if c_Mode c \<noteq> [] \<and> c_Mode c \<noteq> FIFO \<and> c_Mode c \<noteq> LIFO
        then Inl (ErrInvalidQueueCfg BadMode)
      else let c1 = (if c_Mode c = [] then c\<lparr>c_Mode := FIFO\<rparr> else c);
               c2 = (if c_VisibilityTimeoutMS c1 = 0
                     then c1\<lparr>c_VisibilityTimeoutMS := Milliseconds DefaultVisibilityTimeout\<rparr>
                     else c1) in
        if c_VisibilityTimeoutMS c2 < 0 then Inl (ErrInvalidQueueCfg BadVisibilityTimeout)
        else let c3 = (if c_MaxAttempts c2 = 0
                       then c2\<lparr>c_MaxAttempts := DefaultMaxAttempts\<rparr> else c2) in
          if c_MaxAttempts c3 < 1 then Inl (ErrInvalidQueueCfg BadMaxAttempts)
          else Inr c3)"

text \<open>What a running queue's configuration satisfies.\<close>

definition cfg_wf :: "config \<Rightarrow> bool" where
  "cfg_wf c \<longleftrightarrow> queueNamePattern (c_Name c) \<and> c_Mode c \<in> {FIFO, LIFO} \<and>
     0 < c_VisibilityTimeoutMS c \<and> 1 \<le> c_MaxAttempts c"

section \<open>Messages\<close>

record message =
  m_ID :: string
  m_Body :: "byte list"
  m_Priority :: int
  m_Seq :: u64
  m_EnqueuedAt :: int
  m_VisibleAt :: int
  m_Attempts :: int
  m_DedupKey :: string
  m_leaseToken :: string
  m_leaseExpires :: int

type_synonym store = "ref \<Rightarrow> message"

record delivery =
  d_Message :: message
  d_LeaseToken :: string
  d_ExpiresAt :: int

record counters =
  n_enqueued :: u64
  n_dequeued :: u64
  n_acked :: u64
  n_nacked :: u64
  n_expired :: u64
  n_dlqMoved :: u64
  n_deduped :: u64

definition zero_counters :: counters where
  "zero_counters = \<lparr>n_enqueued = 0, n_dequeued = 0, n_acked = 0, n_nacked = 0, n_expired = 0,
     n_dlqMoved = 0, n_deduped = 0\<rparr>"

text \<open>The zero value of the struct, which a cell holds before it is assigned.\<close>

definition zero_message :: message where
  "zero_message = \<lparr>m_ID = [], m_Body = [], m_Priority = 0, m_Seq = 0, m_EnqueuedAt = 0,
     m_VisibleAt = 0, m_Attempts = 0, m_DedupKey = [], m_leaseToken = [], m_leaseExpires = 0\<rparr>"

section \<open>Random identifiers\<close>

definition hexdigit :: "nat \<Rightarrow> char" where
  "hexdigit n = (if n < 10 then char_of (48 + n) else char_of (87 + n))"

definition EncodeToString :: "byte list \<Rightarrow> string" where
  "EncodeToString bs = concat (map (\<lambda>b. [hexdigit (unat b div 16), hexdigit (unat b mod 16)]) bs)"

text \<open>
  \<open>rand.Read\<close> fills \<open>n\<close> bytes or fails, and then the process panics: \<^const>\<open>None\<close> on both sides.
\<close>

definition randomID :: "byte list option \<Rightarrow> string option" where
  "randomID drawn = map_option EncodeToString drawn"

section \<open>Facts about configurations\<close>

lemma Milliseconds_default [simp]: "Milliseconds DefaultVisibilityTimeout = 30000"
  by (simp add: Milliseconds_def DefaultVisibilityTimeout_def go_div_nonneg)

lemma FIFO_neq_LIFO [simp]: "FIFO \<noteq> LIFO" "LIFO \<noteq> FIFO" "FIFO \<noteq> []" "LIFO \<noteq> []"
  by (simp_all add: FIFO_def LIFO_def)

lemma normalize_wf: "normalize c = Inr c' \<Longrightarrow> cfg_wf c'"
  by (auto simp: normalize_def cfg_wf_def DefaultMaxAttempts_def Let_def split: if_splits)

lemma normalize_id: "cfg_wf c \<Longrightarrow> normalize c = Inr c"
  by (auto simp: normalize_def cfg_wf_def Let_def)

lemma normalize_fields:
  "normalize c = Inr c' \<Longrightarrow> c_Name c' = c_Name c \<and> c_Priority c' = c_Priority c \<and>
     c_Delay c' = c_Delay c \<and> c_DLQ c' = c_DLQ c"
  by (auto simp: normalize_def Let_def split: if_splits)

section \<open>Facts about identifiers\<close>

lemma length_EncodeToString: "length (EncodeToString bs) = 2 * length bs"
  by (induction bs) (auto simp: EncodeToString_def)

lemma of_char_hexdigit: "n < 16 \<Longrightarrow> (of_char (hexdigit n) :: nat) = (if n < 10 then 48 + n else 87 + n)"
  by (simp add: hexdigit_def)

lemma hexdigit_inj:
  assumes "m < 16" "n < 16" "hexdigit m = hexdigit n"
  shows "m = n"
proof -
  have "(of_char (hexdigit m) :: nat) = of_char (hexdigit n)" using assms(3) by simp
  then show ?thesis unfolding of_char_hexdigit [OF assms(1)] of_char_hexdigit [OF assms(2)]
    using assms(1,2) by (simp split: if_splits)
qed

lemma unat_byte_less: "unat (b :: byte) < 256"
  using unsigned_less [of b] by simp

lemma EncodeToString_inj: "EncodeToString as = EncodeToString bs \<Longrightarrow> as = bs"
proof (induction as arbitrary: bs)
  case Nil
  then show ?case by (cases bs) (auto simp: EncodeToString_def)
next
  case (Cons a as)
  then obtain b bs' where bs: "bs = b # bs'" by (cases bs) (auto simp: EncodeToString_def)
  have eq: "hexdigit (unat a div 16) = hexdigit (unat b div 16)"
    "hexdigit (unat a mod 16) = hexdigit (unat b mod 16)"
    "EncodeToString as = EncodeToString bs'"
    using Cons.prems by (auto simp: EncodeToString_def bs)
  have "unat a div 16 < 16" "unat b div 16 < 16" using unat_byte_less [of a] unat_byte_less [of b] by auto
  then have "unat a div 16 = unat b div 16" "unat a mod 16 = unat b mod 16"
    using hexdigit_inj eq(1,2) by auto
  then have "unat a = unat b" by (metis mult_div_mod_eq)
  then show ?case using Cons.IH [OF eq(3)] bs by (simp add: word_unat_eq_iff)
qed

section \<open>Properties\<close>

text \<open>C33: a configuration that passes \<open>normalize\<close> has a name of the documented pattern, one of the
  two modes, a positive visibility timeout and at least one attempt; the fields that choose
  the kind of queue are untouched; and normalising it again changes nothing, which is what
  lets replay normalise the configuration that \<open>CreateQueue\<close> already normalised.\<close>

theorem normalize_sound:
  assumes "normalize c = Inr c'"
  shows "cfg_wf c' \<and> normalize c' = Inr c' \<and> c_Name c' = c_Name c \<and>
    c_Priority c' = c_Priority c \<and> c_Delay c' = c_Delay c \<and> c_DLQ c' = c_DLQ c"
  using normalize_wf [OF assms] normalize_fields [OF assms] normalize_id by blast

theorem normalize_sound_witness:
  "cfg_wf \<lparr>c_Name = ''jobs'', c_Mode = FIFO, c_Priority = True, c_Delay = False,
     c_VisibilityTimeoutMS = 30000, c_MaxAttempts = 5, c_DLQ = True\<rparr>"
proof -
  let ?c = "\<lparr>c_Name = ''jobs'', c_Mode = [], c_Priority = True, c_Delay = False,
     c_VisibilityTimeoutMS = 0, c_MaxAttempts = 0, c_DLQ = True\<rparr>"
  have "normalize ?c = Inr (?c\<lparr>c_Mode := FIFO, c_VisibilityTimeoutMS := 30000, c_MaxAttempts := 5\<rparr>)"
    by (simp add: normalize_def queueNamePattern_def alnum_def DefaultMaxAttempts_def)
  from normalize_sound [OF this] show ?thesis by simp
qed

text \<open>C34: the accepted configurations are exactly those with a valid name, a known or empty
  mode, a visibility timeout that is not negative and an attempt limit that is not negative.\<close>

theorem normalize_accepts_iff:
  "(\<exists>c'. normalize c = Inr c') \<longleftrightarrow>
     queueNamePattern (c_Name c) \<and> c_Mode c \<in> {[], FIFO, LIFO} \<and>
     0 \<le> c_VisibilityTimeoutMS c \<and> 0 \<le> c_MaxAttempts c"
  by (auto simp: normalize_def Let_def DefaultMaxAttempts_def)

text \<open>A message identifier is twelve drawn bytes in hexadecimal, so it has 24 characters and
  two identifiers are equal only when the drawn bytes are.\<close>

lemma randomID_faithful:
  "randomID (Some as) = Some x \<Longrightarrow> randomID (Some bs) = Some y \<Longrightarrow>
     length x = 2 * length as \<and> (x = y \<longleftrightarrow> as = bs)"
  by (auto simp: randomID_def length_EncodeToString dest: EncodeToString_inj)

end
