(* ===== verification/GoHeap.thy ===== *)
theory GoHeap
  imports Prelude
begin

text \<open>
  The binary heap of Go's standard library (\<open>container/heap\<close>), which the three heaps of
  \<open>internal/queue/order.go\<close> instantiate with their \<open>Len\<close>, \<open>Less\<close>, \<open>Swap\<close>, \<open>Push\<close> and
  \<open>Pop\<close> methods. The heap is the slice as a list; the comparison is a parameter.
  \<open>heap_up\<close>, \<open>heap_down\<close>, \<open>heap_Push\<close> and \<open>heap_Pop\<close> follow the library's loops.

  The locale \<open>heap_order\<close> is what the library asks of \<open>Less\<close> (a strict weak order); the
  locale \<open>pqueue\<close> is the contract a client of a heap relies on, stated on the multiset of
  the stored elements; the sublocale shows that the array heap meets the contract. The loop
  that pops up to \<open>n\<close> elements is verified against the contract only.
\<close>

section \<open>The library's operations\<close>

function heap_up :: "('a \<Rightarrow> 'a \<Rightarrow> bool) \<Rightarrow> 'a list \<Rightarrow> nat \<Rightarrow> 'a list" where
  "heap_up lt xs j =
     (let i = (j - 1) div 2 in
      if i = j \<or> \<not> lt (xs ! j) (xs ! i) then xs
      else heap_up lt (swap xs i j) i)"
  by pat_completeness auto
termination
  by (relation "measure (\<lambda>(lt, xs, j). j)") auto

function heap_down :: "('a \<Rightarrow> 'a \<Rightarrow> bool) \<Rightarrow> 'a list \<Rightarrow> nat \<Rightarrow> nat \<Rightarrow> 'a list" where
  "heap_down lt xs i n =
     (let j1 = 2 * i + 1 in
      if j1 \<ge> n then xs
      else let j2 = j1 + 1;
               j = (if j2 < n \<and> lt (xs ! j2) (xs ! j1) then j2 else j1) in
        if \<not> lt (xs ! j) (xs ! i) then xs
        else heap_down lt (swap xs i j) j n)"
  by pat_completeness auto
termination
  by (relation "measure (\<lambda>(lt, xs, i, n). n - i)") (auto simp: Let_def split: if_splits)

declare heap_up.simps [simp del] heap_down.simps [simp del]

definition heap_Push :: "('a \<Rightarrow> 'a \<Rightarrow> bool) \<Rightarrow> 'a \<Rightarrow> 'a list \<Rightarrow> 'a list" where
  "heap_Push lt x xs = heap_up lt (xs @ [x]) (length xs)"

text \<open>\<open>heap.Pop\<close> on an empty heap indexes out of range; \<^const>\<open>None\<close> is that panic.\<close>

definition heap_Pop :: "('a \<Rightarrow> 'a \<Rightarrow> bool) \<Rightarrow> 'a list \<Rightarrow> ('a \<times> 'a list) option" where
  "heap_Pop lt xs =
     (if xs = [] then None
      else let n = length xs - 1;
               ys = heap_down lt (swap xs 0 n) 0 n
           in Some (ys ! n, take n ys))"

text \<open>The loop of a client that pops until it has \<open>n\<close> elements or the heap is empty.\<close>

fun pop_upto :: "('q \<Rightarrow> ('a \<times> 'q) option) \<Rightarrow> nat \<Rightarrow> 'q \<Rightarrow> 'a list \<times> 'q" where
  "pop_upto pop 0 q = ([], q)"
| "pop_upto pop (Suc n) q =
     (case pop q of None \<Rightarrow> ([], q)
      | Some (x, q') \<Rightarrow> (let (xs, q'') = pop_upto pop n q' in (x # xs, q'')))"

section \<open>Order-independent facts\<close>

lemma mset_heap_up: "j < length xs \<Longrightarrow> mset (heap_up lt xs j) = mset xs"
proof (induction lt xs j rule: heap_up.induct)
  case (1 lt xs j)
  show ?case
  proof (cases "(j - 1) div 2 = j \<or> \<not> lt (xs ! j) (xs ! ((j - 1) div 2))")
    case True
    then show ?thesis by (auto simp: heap_up.simps [of lt xs j])
  next
    case False
    moreover have "(j - 1) div 2 < length xs" using "1.prems" by linarith
    ultimately show ?thesis
      using "1.IH" [OF refl] "1.prems" by (auto simp: heap_up.simps [of lt xs j] Let_def)
  qed
qed

lemma length_heap_up: "j < length xs \<Longrightarrow> length (heap_up lt xs j) = length xs"
  by (metis mset_heap_up size_mset)

text \<open>One unfolding of \<^const>\<open>heap_down\<close>, as a case rule for the inductions below.\<close>

lemma heap_down_cases:
  assumes "heap_down lt xs i n = ys"
  obtains (leaf) "2 * i + 1 \<ge> n" "ys = xs"
  | (stay) j where "j = 2 * i + 1 \<or> j = 2 * i + 2" "j < n"
      "j = (if 2 * i + 2 < n \<and> lt (xs ! (2 * i + 2)) (xs ! (2 * i + 1))
            then 2 * i + 2 else 2 * i + 1)"
      "\<not> lt (xs ! j) (xs ! i)" "ys = xs"
  | (move) j where "j = 2 * i + 1 \<or> j = 2 * i + 2" "j < n"
      "j = (if 2 * i + 2 < n \<and> lt (xs ! (2 * i + 2)) (xs ! (2 * i + 1))
            then 2 * i + 2 else 2 * i + 1)"
      "lt (xs ! j) (xs ! i)" "ys = heap_down lt (swap xs i j) j n"
proof -
  define j where "j = (if 2 * i + 2 < n \<and> lt (xs ! (2 * i + 2)) (xs ! (2 * i + 1))
            then 2 * i + 2 else 2 * i + 1)"
  have unf: "ys = (if 2 * i + 1 \<ge> n then xs else if \<not> lt (xs ! j) (xs ! i) then xs
                    else heap_down lt (swap xs i j) j n)"
    using assms by (subst (asm) heap_down.simps) (auto simp: Let_def j_def split: if_splits)
  show thesis
  proof (cases "2 * i + 1 \<ge> n")
    case True
    then show ?thesis using unf leaf by simp
  next
    case False
    then have "j < n" "j = 2 * i + 1 \<or> j = 2 * i + 2" by (auto simp: j_def)
    then show ?thesis using False unf stay [OF _ _ j_def] move [OF _ _ j_def]
      by (auto split: if_splits)
  qed
qed

lemma heap_down_frame:
  assumes "n \<le> length xs" "i < n"
  shows "mset (heap_down lt xs i n) = mset xs \<and> length (heap_down lt xs i n) = length xs \<and>
    (\<forall>k. k < i \<or> n \<le> k \<longrightarrow> k < length xs \<longrightarrow> heap_down lt xs i n ! k = xs ! k)"
  using assms
proof (induction "n - i" arbitrary: xs i rule: less_induct)
  case less
  show ?case
    using refl
  proof (cases rule: heap_down_cases [of lt xs i n])
    case (move j)
    have "i < length xs" "j < length xs" using move(2) less.prems by auto
    with move less.prems less.hyps [of j "swap xs i j"]
    show ?thesis by (auto simp: nth_swap)
  qed auto
qed

lemmas mset_heap_down = heap_down_frame [THEN conjunct1]
lemmas length_heap_down = heap_down_frame [THEN conjunct2, THEN conjunct1]

lemma heap_down_outside:
  "n \<le> length xs \<Longrightarrow> i < n \<Longrightarrow> n \<le> k \<Longrightarrow> k < length xs \<Longrightarrow> heap_down lt xs i n ! k = xs ! k"
  using heap_down_frame by blast

lemma mset_heap_Push [simp]: "mset (heap_Push lt x xs) = add_mset x (mset xs)"
  by (simp add: heap_Push_def mset_heap_up)

lemma set_heap_Push [simp]: "set (heap_Push lt x xs) = insert x (set xs)"
  by (metis mset_heap_Push set_mset_add_mset_insert set_mset_mset)

lemma length_heap_Push [simp]: "length (heap_Push lt x xs) = Suc (length xs)"
  by (simp add: heap_Push_def length_heap_up)

lemma heap_Pop_None [simp]: "heap_Pop lt xs = None \<longleftrightarrow> xs = []"
  by (simp add: heap_Pop_def Let_def)

lemma heap_Pop_Nil [simp]: "heap_Pop lt [] = None"
  by simp

text \<open>The popped element is the root; the rest of the slice is a permutation of the others.\<close>

lemma heap_Pop_SomeD:
  assumes "heap_Pop lt xs = Some (x, ys)"
  shows "x = xs ! 0" "mset xs = add_mset x (mset ys)"
proof -
  let ?n = "length xs - 1"
  let ?d = "heap_down lt (swap xs 0 ?n) 0 ?n"
  have ne: "xs \<noteq> []" using assms by auto
  have d: "mset ?d = mset xs \<and> length ?d = length xs \<and> ?d ! ?n = xs ! 0"
  proof (cases "?n = 0")
    case True
    then show ?thesis using ne by (simp add: heap_down.simps [of lt _ 0 0] swap_def)
  next
    case False
    then show ?thesis
      using ne heap_down_frame [of ?n "swap xs 0 ?n" 0 lt]
      by (simp add: nth_swap)
  qed
  have x: "x = ?d ! ?n" "ys = take ?n ?d" using assms ne by (auto simp: heap_Pop_def Let_def)
  then show "x = xs ! 0" using d by simp
  have "?d = ys @ [x]"
    using x d ne by (metis One_nat_def Suc_pred length_greater_0_conv lessI take_Suc_conv_app_nth take_all_iff order_refl)
  then show "mset xs = add_mset x (mset ys)" using d by (metis mset_append add_mset_add_single mset_single_iff_right)
qed

lemma heap_Pop_set: "heap_Pop lt xs = Some (x, ys) \<Longrightarrow> set xs = insert x (set ys)"
  using heap_Pop_SomeD(2) by (metis set_mset_add_mset_insert set_mset_mset)

section \<open>The array heap under a strict weak order\<close>

text \<open>
  \<open>heap_inv\<close> is the heap property of the slice. \<open>heap_upto\<close> and \<open>heap_from\<close> are the
  property with one defect, at the node that is moving up and below the node that is moving
  down; both keep the order between the defect's parent and its children.
\<close>

definition heap_inv :: "('a \<Rightarrow> 'a \<Rightarrow> bool) \<Rightarrow> 'a list \<Rightarrow> bool" where
  "heap_inv lt xs \<longleftrightarrow> (\<forall>k. 0 < k \<longrightarrow> k < length xs \<longrightarrow> \<not> lt (xs ! k) (xs ! ((k - 1) div 2)))"

definition heap_upto :: "('a \<Rightarrow> 'a \<Rightarrow> bool) \<Rightarrow> 'a list \<Rightarrow> nat \<Rightarrow> bool" where
  "heap_upto lt xs j \<longleftrightarrow>
     (\<forall>k. 0 < k \<longrightarrow> k < length xs \<longrightarrow> k \<noteq> j \<longrightarrow> \<not> lt (xs ! k) (xs ! ((k - 1) div 2))) \<and>
     (\<forall>k. 0 < k \<longrightarrow> k < length xs \<longrightarrow> (k - 1) div 2 = j \<longrightarrow> 0 < j \<longrightarrow>
        \<not> lt (xs ! k) (xs ! ((j - 1) div 2)))"

definition heap_from :: "('a \<Rightarrow> 'a \<Rightarrow> bool) \<Rightarrow> 'a list \<Rightarrow> nat \<Rightarrow> nat \<Rightarrow> bool" where
  "heap_from lt xs i n \<longleftrightarrow>
     (\<forall>k. 0 < k \<longrightarrow> k < n \<longrightarrow> (k - 1) div 2 \<noteq> i \<longrightarrow> \<not> lt (xs ! k) (xs ! ((k - 1) div 2))) \<and>
     (\<forall>k. 0 < k \<longrightarrow> k < n \<longrightarrow> (k - 1) div 2 = i \<longrightarrow> 0 < i \<longrightarrow>
        \<not> lt (xs ! k) (xs ! ((i - 1) div 2)))"

lemma heap_inv_Nil [simp, intro]: "heap_inv lt []"
  by (simp add: heap_inv_def)

lemma parent_cases:
  "(k - 1) div 2 = i \<Longrightarrow> 0 < k \<Longrightarrow> k = 2 * i + 1 \<or> k = 2 * i + (2 :: nat)"
  by linarith

lemma heap_inv_cong:
  "\<lbrakk>\<And>a b. a \<in> set xs \<Longrightarrow> b \<in> set xs \<Longrightarrow> lt a b = lt' a b\<rbrakk> \<Longrightarrow> heap_inv lt xs = heap_inv lt' xs"
  unfolding heap_inv_def by (intro all_cong1 imp_cong) auto

locale heap_order =
  fixes lt :: "'a \<Rightarrow> 'a \<Rightarrow> bool"
  assumes asym: "lt a b \<Longrightarrow> \<not> lt b a"
    and negtrans: "\<not> lt a b \<Longrightarrow> \<not> lt b c \<Longrightarrow> \<not> lt a c"
begin

lemma irrefl: "\<not> lt a a"
  using asym by blast

lemma root_least:
  assumes "heap_inv lt xs" "k < length xs"
  shows "\<not> lt (xs ! k) (xs ! 0)"
  using assms(2)
proof (induction k rule: less_induct)
  case (less k)
  show ?case
  proof (cases "k = 0")
    case False
    then have "\<not> lt (xs ! ((k - 1) div 2)) (xs ! 0)" using less by auto
    moreover have "\<not> lt (xs ! k) (xs ! ((k - 1) div 2))"
      using False assms(1) less.prems by (auto simp: heap_inv_def)
    ultimately show ?thesis using negtrans by blast
  qed (simp add: irrefl)
qed

lemma heap_upto_swap:
  assumes "heap_upto lt xs j" "j < length xs" "0 < j" "lt (xs ! j) (xs ! ((j - 1) div 2))"
  shows "heap_upto lt (swap xs ((j - 1) div 2) j) ((j - 1) div 2)"
proof -
  let ?i = "(j - 1) div 2"
  let ?ys = "swap xs ?i j"
  have i: "?i < length xs" "?i \<noteq> j" "?i < j" using assms(2,3) by linarith+
  have n1: "\<And>k. 0 < k \<Longrightarrow> k < length xs \<Longrightarrow> k \<noteq> j \<Longrightarrow> \<not> lt (xs ! k) (xs ! ((k - 1) div 2))"
    and n2: "\<And>k. 0 < k \<Longrightarrow> k < length xs \<Longrightarrow> (k - 1) div 2 = j \<Longrightarrow> \<not> lt (xs ! k) (xs ! ?i)"
    using assms by (auto simp: heap_upto_def)
  have ji: "\<not> lt (xs ! ?i) (xs ! j)" using asym assms(4) by blast
  have nth: "\<And>k. k < length xs \<Longrightarrow> ?ys ! k = (if k = ?i then xs ! j else if k = j then xs ! ?i else xs ! k)"
    using i assms(2) by (simp add: nth_swap)
  have A: "\<not> lt (?ys ! k) (?ys ! ((k - 1) div 2))" if k: "0 < k" "k < length xs" "k \<noteq> ?i" for k
  proof -
    have p: "(k - 1) div 2 < length xs" using k by linarith
    consider "k = j" | "k \<noteq> j" "(k - 1) div 2 = ?i" | "(k - 1) div 2 = j"
      | "k \<noteq> j" "(k - 1) div 2 \<noteq> ?i" "(k - 1) div 2 \<noteq> j" by blast
    then show ?thesis
    proof cases
      case 1
      then show ?thesis using nth [OF k(2)] nth [OF p] i ji k by simp
    next
      case 2
      have "\<not> lt (xs ! k) (xs ! ?i)" using n1 [OF k(1,2) 2(1)] 2 by simp
      then have "\<not> lt (xs ! k) (xs ! j)" using ji negtrans by blast
      then show ?thesis using nth [OF k(2)] nth [OF p] 2 k by simp
    next
      case 3
      then have "k \<noteq> j" using k by linarith
      then show ?thesis using nth [OF k(2)] nth [OF p] n2 [OF k(1,2) 3] 3 k i by simp
    next
      case 4
      then show ?thesis using nth [OF k(2)] nth [OF p] n1 [OF k(1,2)] k by simp
    qed
  qed
  have B: "\<not> lt (?ys ! k) (?ys ! ((?i - 1) div 2))"
    if k: "0 < k" "k < length xs" "(k - 1) div 2 = ?i" "0 < ?i" for k
  proof -
    have p: "(?i - 1) div 2 < length xs" "(?i - 1) div 2 < ?i" using i k by linarith+
    have pi: "\<not> lt (xs ! ?i) (xs ! ((?i - 1) div 2))" using n1 [OF k(4) i(1,2)] .
    have ki: "k \<noteq> ?i" using k by linarith
    have "\<not> lt (xs ! k) (xs ! ((?i - 1) div 2))" if "k \<noteq> j"
      using n1 [OF k(1,2) that] k(3) pi negtrans by metis
    then show ?thesis using nth [OF k(2)] nth [OF p(1)] p i pi ki by auto
  qed
  show ?thesis using A B by (auto simp: heap_upto_def)
qed

lemma heap_up_inv: "heap_upto lt xs j \<Longrightarrow> j < length xs \<Longrightarrow> heap_inv lt (heap_up lt xs j)"
proof (induction j arbitrary: xs rule: less_induct)
  case (less j)
  let ?i = "(j - 1) div 2"
  show ?case
  proof (cases "?i = j \<or> \<not> lt (xs ! j) (xs ! ?i)")
    case True
    then have "heap_inv lt xs"
      using less.prems by (cases "j = 0") (auto simp: heap_upto_def heap_inv_def)
    then show ?thesis using True by (auto simp: heap_up.simps [of lt xs j])
  next
    case False
    then have "0 < j" "?i < j" by (auto intro: Nat.gr0I)
    then show ?thesis
      using less False heap_upto_swap [of xs j] by (auto simp: heap_up.simps [of lt xs j] Let_def)
  qed
qed

lemma heap_inv_Push: "heap_inv lt xs \<Longrightarrow> heap_inv lt (heap_Push lt x xs)"
  unfolding heap_Push_def
proof (rule heap_up_inv)
  assume h: "heap_inv lt xs"
  have "\<not> lt ((xs @ [x]) ! k) ((xs @ [x]) ! ((k - 1) div 2))" if "0 < k" "k < length xs" for k
  proof -
    have "(k - 1) div 2 < length xs" using that by linarith
    then show ?thesis using that h by (simp add: nth_append heap_inv_def)
  qed
  moreover have "(k - 1) div 2 \<noteq> length xs" if "k < Suc (length xs)" "0 < k" for k
    using that by linarith
  ultimately show "heap_upto lt (xs @ [x]) (length xs)"
    unfolding heap_upto_def by (metis length_append_singleton less_SucE)
qed simp

lemma heap_from_swap:
  assumes h: "heap_from lt xs i n" and n: "n \<le> length xs"
    and j: "j = (if 2 * i + 2 < n \<and> lt (xs ! (2 * i + 2)) (xs ! (2 * i + 1))
                 then 2 * i + 2 else 2 * i + 1)" "j < n"
    and l: "lt (xs ! j) (xs ! i)"
  shows "heap_from lt (swap xs i j) j n"
proof -
  let ?ys = "swap xs i j"
  have ij: "i < j" "i < n" "(j - 1) div 2 = i" using j by (auto split: if_splits)
  have n1: "\<And>k. 0 < k \<Longrightarrow> k < n \<Longrightarrow> (k - 1) div 2 \<noteq> i \<Longrightarrow> \<not> lt (xs ! k) (xs ! ((k - 1) div 2))"
    and n2: "\<And>k. 0 < k \<Longrightarrow> k < n \<Longrightarrow> (k - 1) div 2 = i \<Longrightarrow> 0 < i \<Longrightarrow> \<not> lt (xs ! k) (xs ! ((i - 1) div 2))"
    using h by (auto simp: heap_from_def)
  have nth: "\<And>k. k < n \<Longrightarrow> ?ys ! k = (if k = i then xs ! j else if k = j then xs ! i else xs ! k)"
    using ij j(2) n by (simp add: nth_swap)
  have sib: "\<not> lt (xs ! k) (xs ! j)" if "0 < k" "k < n" "(k - 1) div 2 = i" for k
    using parent_cases [OF that(3,1)] that j asym irrefl by (auto split: if_splits)
  have A: "\<not> lt (?ys ! k) (?ys ! ((k - 1) div 2))" if k: "0 < k" "k < n" "(k - 1) div 2 \<noteq> j" for k
  proof -
    have p: "(k - 1) div 2 < n" using k by linarith
    consider "k = j" | "k = i" | "k \<noteq> j" "k \<noteq> i" "(k - 1) div 2 = i"
      | "k \<noteq> j" "k \<noteq> i" "(k - 1) div 2 \<noteq> i" by blast
    then show ?thesis
    proof cases
      case 1
      then show ?thesis using nth [OF k(2)] nth [OF p] ij asym [OF l] by simp
    next
      case 2
      then have "(k - 1) div 2 \<noteq> i" using k by linarith
      moreover have "\<not> lt (xs ! j) (xs ! ((i - 1) div 2))" using n2 ij j(2) 2 k(1) by auto
      ultimately show ?thesis using nth [OF k(2)] nth [OF p] 2 k by simp
    next
      case 3
      then show ?thesis using nth [OF k(2)] nth [OF p] sib [OF k(1,2)] by simp
    next
      case 4
      then show ?thesis using nth [OF k(2)] nth [OF p] n1 [OF k(1,2)] k by simp
    qed
  qed
  have B: "\<not> lt (?ys ! k) (?ys ! ((j - 1) div 2))" if k: "0 < k" "k < n" "(k - 1) div 2 = j" for k
  proof -
    have "j < k" using k by linarith
    then show ?thesis using nth [OF k(2)] nth [OF ij(2)] n1 [OF k(1,2)] k ij by auto
  qed
  show ?thesis using A B by (auto simp: heap_from_def)
qed

lemma heap_down_inv:
  assumes "heap_from lt xs i n" "n \<le> length xs" "i < n" "0 < k" "k < n"
  shows "\<not> lt (heap_down lt xs i n ! k) (heap_down lt xs i n ! ((k - 1) div 2))"
  using assms(1-3)
proof (induction "n - i" arbitrary: xs i rule: less_induct)
  case less
  have other: "(k - 1) div 2 \<noteq> i \<Longrightarrow> \<not> lt (xs ! k) (xs ! ((k - 1) div 2))"
    using less.prems(1) assms(4,5) by (auto simp: heap_from_def)
  show ?case
    using refl
  proof (cases rule: heap_down_cases [of lt xs i n])
    case leaf
    then show ?thesis using other parent_cases [of k i] assms(4,5) by fastforce
  next
    case (stay j)
    have "\<not> lt (xs ! k) (xs ! i)" if "(k - 1) div 2 = i"
      using parent_cases [OF that assms(4)] stay assms(5) negtrans asym
      by (metis (full_types) less_irrefl_nat add_less_cancel_left)
    then show ?thesis using other stay by auto
  next
    case (move j)
    have "heap_from lt (swap xs i j) j n"
      using heap_from_swap [OF less.prems(1,2) move(3,2,4)] .
    moreover have "n - j < n - i" using move(1,2) by linarith
    ultimately show ?thesis using less.hyps [of j "swap xs i j"] less.prems(2) move(2,5) by simp
  qed
qed

lemma heap_inv_Pop:
  assumes h: "heap_inv lt xs" and p: "heap_Pop lt xs = Some (x, ys)"
  shows "heap_inv lt ys"
proof -
  let ?n = "length xs - 1"
  let ?s = "swap xs 0 ?n"
  have ys: "ys = take ?n (heap_down lt ?s 0 ?n)" and ne: "xs \<noteq> []"
    using p by (auto simp: heap_Pop_def Let_def split: if_splits)
  show ?thesis
  proof (cases "?n = 0")
    case False
    have "heap_from lt ?s 0 ?n"
      unfolding heap_from_def
    proof (intro conjI allI impI)
      fix k assume k: "0 < k" "k < ?n" "(k - 1) div 2 \<noteq> 0"
      then have "(k - 1) div 2 < ?n" by linarith
      then show "\<not> lt (?s ! k) (?s ! ((k - 1) div 2))"
        using k ne h by (simp add: nth_swap heap_inv_def)
    qed simp
    then have inv: "\<not> lt (heap_down lt ?s 0 ?n ! k) (heap_down lt ?s 0 ?n ! ((k - 1) div 2))"
      if "0 < k" "k < ?n" for k
      using heap_down_inv [of ?s 0 ?n k] that by auto
    show ?thesis
      unfolding heap_inv_def ys
    proof (intro allI impI)
      fix k assume k: "0 < k" "k < length (take ?n (heap_down lt ?s 0 ?n))"
      then have "k < ?n" "(k - 1) div 2 < ?n" by auto
      then show "\<not> lt (take ?n (heap_down lt ?s 0 ?n) ! k)
          (take ?n (heap_down lt ?s 0 ?n) ! ((k - 1) div 2))"
        using inv k(1) by simp
    qed
  qed (simp add: ys)
qed

lemma heap_Pop_least:
  assumes "heap_inv lt xs" "heap_Pop lt xs = Some (x, ys)" "y \<in> set xs"
  shows "\<not> lt y x"
proof -
  obtain k where "k < length xs" "y = xs ! k" using assms(3) by (metis in_set_conv_nth)
  then show ?thesis using root_least [OF assms(1)] heap_Pop_SomeD(1) [OF assms(2)] by auto
qed

end

section \<open>The contract of a priority queue\<close>

text \<open>
  What the callers of a heap rely on: \<open>push\<close> adds one element, \<open>pop\<close> is \<^const>\<open>None\<close> exactly
  on the empty queue and otherwise removes an element no other stored element precedes.
\<close>

locale pqueue =
  fixes lt :: "'a \<Rightarrow> 'a \<Rightarrow> bool"
    and push :: "'a \<Rightarrow> 'q \<Rightarrow> 'q"
    and pop :: "'q \<Rightarrow> ('a \<times> 'q) option"
    and elems :: "'q \<Rightarrow> 'a multiset"
    and inv :: "'q \<Rightarrow> bool"
  assumes elems_push: "inv q \<Longrightarrow> elems (push x q) = add_mset x (elems q)"
    and inv_push: "inv q \<Longrightarrow> inv (push x q)"
    and pop_None: "inv q \<Longrightarrow> pop q = None \<longleftrightarrow> elems q = {#}"
    and pop_elems: "inv q \<Longrightarrow> pop q = Some (x, q') \<Longrightarrow> elems q = add_mset x (elems q')"
    and pop_inv: "inv q \<Longrightarrow> pop q = Some (x, q') \<Longrightarrow> inv q'"
    and pop_least: "inv q \<Longrightarrow> pop q = Some (x, q') \<Longrightarrow> y \<in># elems q \<Longrightarrow> \<not> lt y x"
begin

lemma pop_upto_spec:
  assumes "inv q" "pop_upto pop n q = (xs, q')"
  shows "elems q = mset xs + elems q' \<and> inv q' \<and> length xs = min n (size (elems q)) \<and>
     sorted_wrt (\<lambda>a b. \<not> lt b a) xs \<and> (\<forall>x \<in> set xs. \<forall>y \<in># elems q'. \<not> lt y x)"
  using assms
proof (induction n arbitrary: q xs)
  case 0
  then show ?case by simp
next
  case (Suc n)
  show ?case
  proof (cases "pop q")
    case None
    moreover from this have "elems q = {#}" using Suc.prems(1) pop_None by blast
    ultimately show ?thesis using Suc.prems by simp
  next
    case (Some p)
    obtain x r where p: "pop q = Some (x, r)" using Some by (cases p) auto
    obtain ys where ys: "pop_upto pop n r = (ys, q')" "xs = x # ys"
      using Suc.prems(2) p by (auto split: prod.splits)
    have r: "inv r" and e: "elems q = add_mset x (elems r)"
      using Suc.prems(1) p pop_inv pop_elems by auto
    have least: "\<not> lt y x" if "y \<in># elems r" for y
      using pop_least [OF Suc.prems(1) p] e that by simp
    from Suc.IH [OF r ys(1)] have er: "elems r = mset ys + elems q'"
      and rest: "inv q'" "length ys = min n (size (elems r))" "sorted_wrt (\<lambda>a b. \<not> lt b a) ys"
        "\<forall>x \<in> set ys. \<forall>y \<in># elems q'. \<not> lt y x" by blast+
    have "\<forall>y \<in> set ys. \<not> lt y x" "\<forall>y \<in># elems q'. \<not> lt y x" using least er by simp_all
    then show ?thesis using rest unfolding ys(2) e by (simp add: er)
  qed
qed

end

sublocale heap_order \<subseteq> array: pqueue lt "heap_Push lt" "heap_Pop lt" mset "heap_inv lt"
proof
  fix q x q' y
  assume h: "heap_inv lt q"
  show "mset (heap_Push lt x q) = add_mset x (mset q)" by simp
  show "heap_inv lt (heap_Push lt x q)" using h by (rule heap_inv_Push)
  show "heap_Pop lt q = None \<longleftrightarrow> mset q = {#}" by simp
  assume p: "heap_Pop lt q = Some (x, q')"
  show "mset q = add_mset x (mset q')" using p by (rule heap_Pop_SomeD)
  show "heap_inv lt q'" using h p by (rule heap_inv_Pop)
  assume "y \<in># mset q"
  then show "\<not> lt y x" using heap_Pop_least [OF h p] by simp
qed

end
