(* ===== verification/Order.thy ===== *)
theory Order
  imports Message GoHeap
begin

text \<open>
  \<open>internal/queue/order.go\<close>: the comparator over message keys and the three heaps built on it.
  A ready or delayed heap holds message pointers, so its comparison reads the message store;
  a lease heap holds its entries by value.

  The comparator is shown to be a strict weak order for every store, which makes the three
  heaps instances of the priority-queue contract of \<open>GoHeap\<close>.
\<close>

section \<open>Keys\<close>

record key =
  k_Priority :: int
  k_Seq :: u64

definition msg_key :: "message \<Rightarrow> key" where
  "msg_key m = \<lparr>k_Priority = m_Priority m, k_Seq = m_Seq m\<rparr>"

definition less_key :: "key \<Rightarrow> key \<Rightarrow> bool \<Rightarrow> bool" where
  "less_key a b lifo =
     (if k_Priority a \<noteq> k_Priority b then k_Priority a > k_Priority b
      else if lifo then k_Seq a > k_Seq b
      else k_Seq a < k_Seq b)"

section \<open>Ready heap\<close>

record readyHeap =
  rh_msgs :: "ref list"
  rh_lifo :: bool

definition ready_Less :: "store \<Rightarrow> bool \<Rightarrow> ref \<Rightarrow> ref \<Rightarrow> bool" where
  "ready_Less st lifo a b = less_key (msg_key (st a)) (msg_key (st b)) lifo"

definition ready_push :: "store \<Rightarrow> ref \<Rightarrow> readyHeap \<Rightarrow> readyHeap" where
  "ready_push st m h = h\<lparr>rh_msgs := heap_Push (ready_Less st (rh_lifo h)) m (rh_msgs h)\<rparr>"

definition ready_pop :: "store \<Rightarrow> readyHeap \<Rightarrow> (ref \<times> readyHeap) option" where
  "ready_pop st h =
     (if length (rh_msgs h) = 0 then None
      else map_option (\<lambda>(m, ms). (m, h\<lparr>rh_msgs := ms\<rparr>))
             (heap_Pop (ready_Less st (rh_lifo h)) (rh_msgs h)))"

definition ready_peek :: "readyHeap \<Rightarrow> ref option" where
  "ready_peek h = (if length (rh_msgs h) = 0 then None else Some (rh_msgs h ! 0))"

section \<open>Delayed heap\<close>

record delayedHeap =
  dh_msgs :: "ref list"
  dh_lifo :: bool

definition delayed_Less :: "store \<Rightarrow> bool \<Rightarrow> ref \<Rightarrow> ref \<Rightarrow> bool" where
  "delayed_Less st lifo a b =
     (if m_VisibleAt (st a) \<noteq> m_VisibleAt (st b) then m_VisibleAt (st a) < m_VisibleAt (st b)
      else less_key (msg_key (st a)) (msg_key (st b)) lifo)"

definition delayed_push :: "store \<Rightarrow> ref \<Rightarrow> delayedHeap \<Rightarrow> delayedHeap" where
  "delayed_push st m h = h\<lparr>dh_msgs := heap_Push (delayed_Less st (dh_lifo h)) m (dh_msgs h)\<rparr>"

text \<open>Popping an empty delayed heap panics (\<^const>\<open>None\<close>); its caller looks before it pops.\<close>

definition delayed_pop :: "store \<Rightarrow> delayedHeap \<Rightarrow> (ref \<times> delayedHeap) option" where
  "delayed_pop st h =
     map_option (\<lambda>(m, ms). (m, h\<lparr>dh_msgs := ms\<rparr>))
       (heap_Pop (delayed_Less st (dh_lifo h)) (dh_msgs h))"

definition delayed_peek :: "delayedHeap \<Rightarrow> ref option" where
  "delayed_peek h = (if length (dh_msgs h) = 0 then None else Some (dh_msgs h ! 0))"

section \<open>Lease heap\<close>

record leaseEntry =
  le_id :: string
  le_token :: string
  le_expiresAt :: int

type_synonym leaseHeap = "leaseEntry list"

definition lease_Less :: "leaseEntry \<Rightarrow> leaseEntry \<Rightarrow> bool" where
  "lease_Less a b = (le_expiresAt a < le_expiresAt b)"

definition lease_push :: "leaseEntry \<Rightarrow> leaseHeap \<Rightarrow> leaseHeap" where
  "lease_push e h = heap_Push lease_Less e h"

definition lease_pop :: "leaseHeap \<Rightarrow> (leaseEntry \<times> leaseHeap) option" where
  "lease_pop h = heap_Pop lease_Less h"

definition lease_peek :: "leaseHeap \<Rightarrow> leaseEntry option" where
  "lease_peek h = (if length h = 0 then None else Some (h ! 0))"

section \<open>The comparator is a strict weak order\<close>

lemma less_key_asym: "less_key a b lifo \<Longrightarrow> \<not> less_key b a lifo"
  by (auto simp: less_key_def split: if_splits)

lemma less_key_negtrans: "\<not> less_key a b lifo \<Longrightarrow> \<not> less_key b c lifo \<Longrightarrow> \<not> less_key a c lifo"
  by (auto simp: less_key_def split: if_splits)

interpretation ready: heap_order "ready_Less st lifo" for st lifo
  by unfold_locales (auto simp: ready_Less_def dest: less_key_asym less_key_negtrans)

interpretation delayed: heap_order "delayed_Less st lifo" for st lifo
proof
  fix a b c
  show "delayed_Less st lifo a b \<Longrightarrow> \<not> delayed_Less st lifo b a"
    by (auto simp: delayed_Less_def dest: less_key_asym split: if_splits)
  show "\<not> delayed_Less st lifo a b \<Longrightarrow> \<not> delayed_Less st lifo b c \<Longrightarrow> \<not> delayed_Less st lifo a c"
    by (auto simp: delayed_Less_def dest: less_key_negtrans split: if_splits)
qed

interpretation lease: heap_order lease_Less
  by unfold_locales (auto simp: lease_Less_def)

section \<open>The ready and delayed heaps as priority queues\<close>

definition ready_inv :: "store \<Rightarrow> readyHeap \<Rightarrow> bool" where
  "ready_inv st h \<longleftrightarrow> heap_inv (ready_Less st (rh_lifo h)) (rh_msgs h)"

definition delayed_inv :: "store \<Rightarrow> delayedHeap \<Rightarrow> bool" where
  "delayed_inv st h \<longleftrightarrow> heap_inv (delayed_Less st (dh_lifo h)) (dh_msgs h)"

lemma rh_lifo_push [simp]: "rh_lifo (ready_push st m h) = rh_lifo h"
  by (simp add: ready_push_def)

lemma dh_lifo_push [simp]: "dh_lifo (delayed_push st m h) = dh_lifo h"
  by (simp add: delayed_push_def)

lemma mset_ready_push [simp]: "mset (rh_msgs (ready_push st m h)) = add_mset m (mset (rh_msgs h))"
  by (simp add: ready_push_def)

lemma mset_delayed_push [simp]:
  "mset (dh_msgs (delayed_push st m h)) = add_mset m (mset (dh_msgs h))"
  by (simp add: delayed_push_def)

lemma set_ready_push [simp]: "set (rh_msgs (ready_push st m h)) = insert m (set (rh_msgs h))"
  by (simp add: ready_push_def)

lemma set_delayed_push [simp]: "set (dh_msgs (delayed_push st m h)) = insert m (set (dh_msgs h))"
  by (simp add: delayed_push_def)

lemma ready_inv_push [inv_intros]: "ready_inv st h \<Longrightarrow> ready_inv st (ready_push st m h)"
  by (simp add: ready_inv_def ready_push_def ready.heap_inv_Push)

lemma delayed_inv_push [inv_intros]: "delayed_inv st h \<Longrightarrow> delayed_inv st (delayed_push st m h)"
  by (simp add: delayed_inv_def delayed_push_def delayed.heap_inv_Push)

lemma ready_pop_SomeD:
  assumes "ready_pop st h = Some (m, h')"
  shows "mset (rh_msgs h) = add_mset m (mset (rh_msgs h'))" "rh_lifo h' = rh_lifo h"
    "ready_inv st h \<Longrightarrow> ready_inv st h'"
    "ready_inv st h \<Longrightarrow> x \<in> set (rh_msgs h) \<Longrightarrow> \<not> ready_Less st (rh_lifo h) x m"
  using assms
  by (auto simp: ready_pop_def ready_inv_def split: if_splits
      intro: heap_Pop_SomeD(2) ready.heap_inv_Pop dest: ready.heap_Pop_least)

lemma ready_pop_None [simp]: "ready_pop st h = None \<longleftrightarrow> rh_msgs h = []"
  by (simp add: ready_pop_def)

lemma delayed_pop_SomeD:
  assumes "delayed_pop st h = Some (m, h')"
  shows "mset (dh_msgs h) = add_mset m (mset (dh_msgs h'))" "dh_lifo h' = dh_lifo h"
    "delayed_inv st h \<Longrightarrow> delayed_inv st h'"
    "delayed_inv st h \<Longrightarrow> x \<in> set (dh_msgs h) \<Longrightarrow> \<not> delayed_Less st (dh_lifo h) x m"
    "m = dh_msgs h ! 0"
  using assms
  by (auto simp: delayed_pop_def delayed_inv_def
      intro: heap_Pop_SomeD(1,2) delayed.heap_inv_Pop dest: delayed.heap_Pop_least)

lemma delayed_pop_None [simp]: "delayed_pop st h = None \<longleftrightarrow> dh_msgs h = []"
  by (simp add: delayed_pop_def)

lemma delayed_peek_None [simp]: "delayed_peek h = None \<longleftrightarrow> dh_msgs h = []"
  by (simp add: delayed_peek_def)

text \<open>The head of the delayed heap becomes visible no later than any other delayed message.\<close>

lemma delayed_peek_earliest:
  assumes "delayed_inv st h" "delayed_peek h = Some m" "x \<in> set (dh_msgs h)"
  shows "m_VisibleAt (st m) \<le> m_VisibleAt (st x)"
proof -
  obtain k where "k < length (dh_msgs h)" "x = dh_msgs h ! k" using assms(3) by (metis in_set_conv_nth)
  then have "\<not> delayed_Less st (dh_lifo h) x m"
    using delayed.root_least assms(1,2) by (auto simp: delayed_inv_def delayed_peek_def split: if_splits)
  then show ?thesis by (auto simp: delayed_Less_def split: if_splits)
qed

lemma lease_peek_earliest:
  assumes "heap_inv lease_Less h" "lease_peek h = Some e" "x \<in> set h"
  shows "le_expiresAt e \<le> le_expiresAt x"
proof -
  obtain k where "k < length h" "x = h ! k" using assms(3) by (metis in_set_conv_nth)
  then have "\<not> lease_Less x e"
    using lease.root_least assms(1,2) by (auto simp: lease_peek_def split: if_splits)
  then show ?thesis by (simp add: lease_Less_def)
qed

interpretation readyq: pqueue "ready_Less st lifo" "ready_push st" "ready_pop st"
    "\<lambda>h. mset (rh_msgs h)" "\<lambda>h. ready_inv st h \<and> rh_lifo h = lifo" for st lifo
  by unfold_locales (auto simp: inv_intros dest: ready_pop_SomeD)

text \<open>Writing a cell that a heap does not hold leaves its invariant as it was.\<close>

lemma ready_inv_upd:
  "r \<notin> set (rh_msgs h) \<Longrightarrow> ready_inv (st(r := m)) h = ready_inv st h"
  unfolding ready_inv_def by (rule heap_inv_cong) (auto simp: ready_Less_def)

lemma delayed_inv_upd:
  "r \<notin> set (dh_msgs h) \<Longrightarrow> delayed_inv (st(r := m)) h = delayed_inv st h"
  unfolding delayed_inv_def by (rule heap_inv_cong) (auto simp: delayed_Less_def)

lemma ready_inv_agree:
  "\<forall>r \<in> set (rh_msgs h). st r = st' r \<Longrightarrow> ready_inv st h = ready_inv st' h"
  unfolding ready_inv_def by (rule heap_inv_cong) (auto simp: ready_Less_def)

lemma delayed_inv_agree:
  "\<forall>r \<in> set (dh_msgs h). st r = st' r \<Longrightarrow> delayed_inv st h = delayed_inv st' h"
  unfolding delayed_inv_def by (rule heap_inv_cong) (auto simp: delayed_Less_def)

section \<open>Properties\<close>

text \<open>For every priority and mode the comparator is a strict total order on messages with
  different sequence numbers: never both ways, never neither way, and transitive.\<close>

lemma less_key_strict_total:
  "\<not> (less_key a b lifo \<and> less_key b a lifo) \<and>
   (k_Seq a \<noteq> k_Seq b \<longrightarrow> less_key a b lifo \<or> less_key b a lifo) \<and>
   (less_key a b lifo \<longrightarrow> less_key b c lifo \<longrightarrow> less_key a c lifo)"
  by (auto simp: less_key_def split: if_splits)

text \<open>The one comparator gives the eight kinds of queue. On equal priorities LIFO is FIFO with
  the arguments exchanged, and a higher priority wins in either mode whatever the sequence
  numbers are.\<close>

lemma less_key_modes:
  "(k_Priority a = k_Priority b \<longrightarrow> less_key a b True = less_key b a False) \<and>
   (k_Priority a > k_Priority b \<longrightarrow> less_key a b lifo \<and> \<not> less_key b a lifo) \<and>
   (k_Priority a = k_Priority b \<longrightarrow> less_key a b False = (k_Seq a < k_Seq b))"
  by (auto simp: less_key_def)

text \<open>Popping a ready heap up to \<open>n\<close> times takes \<open>min n\<close> of the length messages out of it, in an
  order in which no message precedes an earlier one, leaves a heap in order, loses and duplicates
  nothing, and no message left behind precedes one that was taken.\<close>

lemma ready_pop_upto_best:
  assumes "ready_inv st h" "pop_upto (ready_pop st) n h = (xs, h')"
  shows "mset (rh_msgs h) = mset xs + mset (rh_msgs h') \<and>
    length xs = min n (length (rh_msgs h)) \<and> ready_inv st h' \<and>
    sorted_wrt (\<lambda>a b. \<not> ready_Less st (rh_lifo h) b a) xs \<and>
    (\<forall>x \<in> set xs. \<forall>y \<in> set (rh_msgs h'). \<not> ready_Less st (rh_lifo h) y x)"
  using readyq.pop_upto_spec [OF _ assms(2), of "rh_lifo h"] assms(1) by auto

end
