(* ===== verification/WalRecord.thy ===== *)
theory WalRecord
  imports Prelude
begin

text \<open>
  \<open>internal/wal/record.go\<close>: record types, the CRC32C checksum and the frame codec
  \<open>[magic u32][payload_len u32][crc32c u32][type u8][payload]\<close>.

  \<open>hash/crc32\<close> with the Castagnoli table is modelled bit by bit (reflected polynomial, all-ones
  start and final complement) and \<open>encoding/binary\<close>'s big-endian accessors byte by byte.
  The lemmas show that the frame decodes to what was encoded, that a cut frame never decodes,
  and which corruptions the checks catch.
\<close>

unbundle bit_operations_syntax

section \<open>Record types\<close>

type_synonym recordType = byte

definition RecordEnqueue :: recordType where "RecordEnqueue = 1"
definition RecordLease :: recordType where "RecordLease = 2"
definition RecordAck :: recordType where "RecordAck = 3"
definition RecordNack :: recordType where "RecordNack = 4"
definition RecordLeaseExpire :: recordType where "RecordLeaseExpire = 5"
definition RecordDLQMove :: recordType where "RecordDLQMove = 6"
definition RecordQueueCreate :: recordType where "RecordQueueCreate = 7"

lemmas record_type_defs = RecordEnqueue_def RecordLease_def RecordAck_def RecordNack_def
  RecordLeaseExpire_def RecordDLQMove_def RecordQueueCreate_def

definition valid_type :: "recordType \<Rightarrow> bool" where
  "valid_type t \<longleftrightarrow> RecordEnqueue \<le> t \<and> t \<le> RecordQueueCreate"

definition RecordType_String :: "recordType \<Rightarrow> string" where
  "RecordType_String t =
     (if t = RecordEnqueue then ''ENQUEUE''
      else if t = RecordLease then ''LEASE''
      else if t = RecordAck then ''ACK''
      else if t = RecordNack then ''NACK''
      else if t = RecordLeaseExpire then ''LEASE_EXPIRE''
      else if t = RecordDLQMove then ''DLQ_MOVE''
      else if t = RecordQueueCreate then ''QUEUE_CREATE''
      else ''UNKNOWN('' @ show_nat (unat t) @ '')'')"

lemma RecordType_String_inj: "RecordType_String a = RecordType_String b \<Longrightarrow> a = b"
proof -
  assume eq: "RecordType_String a = RecordType_String b"
  have "show_nat (unat a) = show_nat (unat b) \<Longrightarrow> a = b"
    by (drule arg_cong [of _ _ "\<lambda>d. parse_digits d 0"]) (simp add: parse_show_nat word_unat_eq_iff)
  then show ?thesis using eq by (simp add: RecordType_String_def split: if_splits)
qed

record walRecord =
  r_Type :: recordType
  r_Payload :: "byte list"

section \<open>CRC32C\<close>

definition castagnoli :: u32 where
  "castagnoli = 0x82F63B78"

definition crc_bit :: "u32 \<Rightarrow> u32" where
  "crc_bit c = (if bit c 0 then drop_bit 1 c XOR castagnoli else drop_bit 1 c)"

definition crc_byte :: "byte \<Rightarrow> u32 \<Rightarrow> u32" where
  "crc_byte v c = (crc_bit ^^ 8) (c XOR ucast v)"

definition crc_Update :: "u32 \<Rightarrow> byte list \<Rightarrow> u32" where
  "crc_Update c p = NOT (fold crc_byte p (NOT c))"

definition checksum :: "recordType \<Rightarrow> byte list \<Rightarrow> u32" where
  "checksum typ payload = (let c = crc_Update 0 [typ] in crc_Update c payload)"

section \<open>Big-endian words\<close>

definition PutUint32 :: "u32 \<Rightarrow> byte list" where
  "PutUint32 v = [ucast (drop_bit 24 v), ucast (drop_bit 16 v), ucast (drop_bit 8 v), ucast v]"

definition Uint32 :: "byte list \<Rightarrow> u32" where
  "Uint32 b = ucast (b ! 3) OR push_bit 8 (ucast (b ! 2)) OR push_bit 16 (ucast (b ! 1))
     OR push_bit 24 (ucast (b ! 0))"

section \<open>Frames\<close>

definition recordMagic :: u32 where "recordMagic = 0x5157414C"
definition headerSize :: nat where "headerSize = 13"
definition maxRecordSize :: nat where "maxRecordSize = 16 * 2 ^ 20"

definition encodedSize :: "byte list \<Rightarrow> nat" where
  "encodedSize payload = headerSize + length payload"

definition appendRecord :: "byte list \<Rightarrow> recordType \<Rightarrow> byte list \<Rightarrow> byte list" where
  "appendRecord dst typ payload =
     (let h = PutUint32 recordMagic @ PutUint32 (of_nat (length payload)) @
              PutUint32 (checksum typ payload) @ [typ]
      in (dst @ h) @ payload)"

text \<open>The result and the number of bytes consumed; \<^const>\<open>None\<close> is \<open>errTornRecord\<close>.\<close>

definition decodeRecord :: "byte list \<Rightarrow> (walRecord \<times> nat) option" where
  "decodeRecord buf =
     (if length buf < headerSize then None
      else if Uint32 (take 4 buf) \<noteq> recordMagic then None
      else let len = unat (Uint32 (take 4 (drop 4 buf))) in
        if len > maxRecordSize \<or> headerSize + len > length buf then None
        else let typ = buf ! 12; payload = take len (drop headerSize buf) in
          if \<not> valid_type typ then None
          else if Uint32 (take 4 (drop 8 buf)) \<noteq> checksum typ payload then None
          else Some (\<lparr>r_Type = typ, r_Payload = payload\<rparr>, headerSize + len))"

section \<open>The checksum\<close>

lemma xor_cancel: "(a :: u32) XOR b = a XOR c \<Longrightarrow> b = c"
  by (metis xor.assoc xor.left_neutral xor_self_eq)

lemma crc_bit_inj: "crc_bit c = crc_bit d \<Longrightarrow> c = d"
proof -
  assume eq: "crc_bit c = crc_bit d"
  have top: "bit (crc_bit x) 31 = bit x 0" for x :: u32
    by (auto simp: crc_bit_def castagnoli_def bit_simps dest: bit_imp_le_length)
  have par: "bit c 0 = bit d 0" using arg_cong [OF eq, of "\<lambda>x. bit x 31"] top by simp
  have "drop_bit 1 c = drop_bit 1 d"
    using eq par xor_cancel [of castagnoli] by (auto simp: crc_bit_def xor.commute split: if_splits)
  then have sh: "bit c (Suc n) = bit d (Suc n)" for n
    by (metis bit_drop_bit_eq comp_apply plus_1_eq_Suc)
  show "c = d"
  proof (rule bit_eqI)
    fix n show "bit c n = bit d n" using par sh by (cases n) auto
  qed
qed

lemma crc_bits_inj: "(crc_bit ^^ n) c = (crc_bit ^^ n) d \<Longrightarrow> c = d"
  by (induction n arbitrary: c d) (auto dest: crc_bit_inj)

lemma crc_byte_inj_state: "crc_byte v c = crc_byte v d \<Longrightarrow> c = d"
  unfolding crc_byte_def by (drule crc_bits_inj) (metis xor_cancel xor.commute)

lemma crc_byte_inj_byte: "crc_byte v c = crc_byte w c \<Longrightarrow> v = w"
proof -
  assume "crc_byte v c = crc_byte w c"
  then have "c XOR ucast v = c XOR ucast w" unfolding crc_byte_def by (rule crc_bits_inj)
  then have "(ucast v :: u32) = ucast w" by (rule xor_cancel)
  moreover have "ucast (ucast x :: u32) = x" for x :: byte
    by (rule bit_word_eqI) (simp add: bit_simps)
  ultimately show "v = w" by metis
qed

lemma crc_fold_inj: "fold crc_byte p c = fold crc_byte p d \<Longrightarrow> c = d"
  by (induction p arbitrary: c d) (auto dest: crc_byte_inj_state)

lemma crc_bit_cond:
  "bit c 0 \<Longrightarrow> crc_bit c = drop_bit 1 c XOR castagnoli" "\<not> bit c 0 \<Longrightarrow> crc_bit c = drop_bit 1 c"
  by (simp_all add: crc_bit_def)

lemma all_ones: "NOT (0 :: u32) = 0xFFFFFFFF"
  by simp

lemma crc_byte_unfold: "crc_byte v c = crc_bit (crc_bit (crc_bit (crc_bit (crc_bit (crc_bit
    (crc_bit (crc_bit (c XOR ucast v))))))))"
  by (simp add: crc_byte_def eval_nat_numeral)

lemma crc_Update_append: "crc_Update (crc_Update c p) q = crc_Update c (p @ q)"
  by (simp add: crc_Update_def)

lemma checksum_eq: "checksum typ payload = crc_Update 0 (typ # payload)"
  by (simp add: checksum_def crc_Update_append)

lemma crc_Update_one_byte:
  assumes "crc_Update c (p @ v # q) = crc_Update c (p @ w # q)"
  shows "v = w"
proof -
  have "fold crc_byte q (crc_byte v (fold crc_byte p (NOT c))) =
        fold crc_byte q (crc_byte w (fold crc_byte p (NOT c)))"
    using assms by (simp add: crc_Update_def bit.compl_eq_compl_iff)
  then show ?thesis by (metis crc_fold_inj crc_byte_inj_byte)
qed

section \<open>Big-endian round trip\<close>

lemma length_PutUint32 [simp]: "length (PutUint32 v) = 4"
  by (simp add: PutUint32_def)

lemma Uint32_PutUint32 [simp]: "Uint32 (PutUint32 v) = v"
proof (rule bit_word_eqI)
  fix n assume "n < LENGTH(32)"
  then consider "n < 8" | "8 \<le> n" "n < 16" | "16 \<le> n" "n < 24" | "24 \<le> n" "n < 32" by fastforce
  then show "bit (Uint32 (PutUint32 v)) n = bit v n"
    by cases (auto simp: Uint32_def PutUint32_def bit_simps)
qed

lemma length_4_cases: "length b = 4 \<Longrightarrow> \<exists>x y z w. b = [x, y, z, w]"
  by (auto simp: eval_nat_numeral length_Suc_conv)

lemma PutUint32_Uint32: "length b = 4 \<Longrightarrow> PutUint32 (Uint32 b) = b"
proof -
  assume "length b = 4"
  then obtain x y z w where b: "b = [x, y, z, w]" using length_4_cases by blast
  have "ucast (drop_bit 24 (Uint32 b)) = x" "ucast (drop_bit 16 (Uint32 b)) = y"
    "ucast (drop_bit 8 (Uint32 b)) = z" "ucast (Uint32 b) = w"
    by (rule bit_word_eqI; auto simp: Uint32_def b bit_simps dest: bit_imp_le_length)+
  then show ?thesis by (simp add: PutUint32_def b)
qed

lemma Uint32_inj: "length a = 4 \<Longrightarrow> length b = 4 \<Longrightarrow> Uint32 a = Uint32 b \<Longrightarrow> a = b"
  by (metis PutUint32_Uint32)

section \<open>Framing as an interface\<close>

text \<open>
  What recovery relies on: an encoded record decodes from the front of any buffer, a cut one
  does not decode, and a successful decode consumes at least one byte of the buffer.
  \<open>scan\<close> is the loop over one segment; it returns the records and the offset where it stopped.
\<close>

function scan :: "(byte list \<Rightarrow> ('r \<times> nat) option) \<Rightarrow> byte list \<Rightarrow> nat \<Rightarrow> 'r list \<times> nat" where
  "scan dec data off =
     (if off < length data then
        (case dec (drop off data) of
           None \<Rightarrow> ([], off)
         | Some (r, n) \<Rightarrow>
             if n = 0 then ([], off)
             else let (rs, off') = scan dec data (off + n) in (r # rs, off'))
      else ([], off))"
  by pat_completeness auto
termination
  by (relation "measure (\<lambda>(dec, data, off). length data - off)") auto

declare scan.simps [simp del]

locale framing =
  fixes enc :: "'r \<Rightarrow> byte list"
    and dec :: "byte list \<Rightarrow> ('r \<times> nat) option"
    and ok :: "'r \<Rightarrow> bool"
  assumes dec_enc: "ok r \<Longrightarrow> dec (enc r @ rest) = Some (r, length (enc r))"
    and dec_cut: "ok r \<Longrightarrow> k < length (enc r) \<Longrightarrow> dec (take k (enc r)) = None"
    and dec_sound: "dec buf = Some (r, n) \<Longrightarrow> ok r \<and> n = length (enc r) \<and> take n buf = enc r"
    and enc_ne: "enc r \<noteq> []"
begin

lemma scan_frames:
  assumes "\<forall>r \<in> set rs. ok r"
  shows "scan dec (pre @ concat (map enc rs) @ rest) (length pre) =
    (let (xs, off) = scan dec (pre @ concat (map enc rs) @ rest)
                       (length pre + length (concat (map enc rs)))
     in (rs @ xs, off))"
  using assms
proof (induction rs arbitrary: pre)
  case Nil
  then show ?case by (simp split: prod.splits)
next
  case (Cons r rs)
  let ?d = "pre @ concat (map enc (r # rs)) @ rest"
  have d: "?d = (pre @ enc r) @ concat (map enc rs) @ rest" by simp
  have IH: "scan dec ?d (length pre + length (enc r)) =
    (let (xs, off) = scan dec ?d (length pre + length (concat (map enc (r # rs)))) in (rs @ xs, off))"
    using Cons.IH [of "pre @ enc r"] Cons.prems by (simp add: add.assoc)
  have "scan dec ?d (length pre) =
    (let (xs, off) = scan dec ?d (length pre + length (enc r)) in (r # xs, off))"
    using dec_enc [of r "concat (map enc rs) @ rest"] Cons.prems enc_ne [of r]
    by (subst scan.simps) simp
  then show ?case using IH by (simp split: prod.splits)
qed

lemma scan_at_end: "scan dec data (length data) = ([], length data)"
  by (simp add: scan.simps)

lemma scan_all: "\<forall>r \<in> set rs. ok r \<Longrightarrow>
  scan dec (concat (map enc rs)) 0 = (rs, length (concat (map enc rs)))"
  using scan_frames [of rs "[]" "[]"] scan_at_end [of "concat (map enc rs)"] by simp

lemma scan_cut:
  assumes "\<forall>r \<in> set rs. ok r" "ok r" "k < length (enc r)"
  shows "scan dec (concat (map enc rs) @ take k (enc r)) 0 = (rs, length (concat (map enc rs)))"
proof -
  have "scan dec (concat (map enc rs) @ take k (enc r)) (length (concat (map enc rs))) =
      ([], length (concat (map enc rs)))"
    using dec_cut [OF assms(2,3)] by (subst scan.simps) simp
  then show ?thesis using scan_frames [OF assms(1), of "[]" "take k (enc r)"] by simp
qed

text \<open>Any prefix of a concatenation of frames is some whole frames and a proper cut of the next.\<close>

lemma prefix_frames:
  assumes "k \<le> length (concat (map enc rs))"
  shows "\<exists>j \<le> length rs. take k (concat (map enc rs)) = concat (map enc (take j rs)) \<or>
     (\<exists>m. j < length rs \<and> m < length (enc (rs ! j)) \<and>
        take k (concat (map enc rs)) = concat (map enc (take j rs)) @ take m (enc (rs ! j)))"
  using assms
proof (induction rs arbitrary: k)
  case (Cons r rs)
  show ?case
  proof (cases "k < length (enc r)")
    case True
    then have "take k (concat (map enc (r # rs))) = concat (map enc (take 0 (r # rs))) @ take k (enc r)"
      by simp
    then show ?thesis using True by (intro exI [of _ 0]) auto
  next
    case False
    have "k - length (enc r) \<le> length (concat (map enc rs))" using Cons.prems by simp
    from Cons.IH [OF this] obtain j where j: "j \<le> length rs" "take (k - length (enc r)) (concat (map enc rs)) =
        concat (map enc (take j rs)) \<or>
       (\<exists>m. j < length rs \<and> m < length (enc (rs ! j)) \<and>
         take (k - length (enc r)) (concat (map enc rs)) =
           concat (map enc (take j rs)) @ take m (enc (rs ! j)))"
      by blast
    then show ?thesis using False by (intro exI [of _ "Suc j"]) auto
  qed
qed simp

lemma scan_prefix:
  assumes "\<forall>r \<in> set rs. ok r" "k \<le> length (concat (map enc rs))"
  shows "\<exists>j \<le> length rs. scan dec (take k (concat (map enc rs))) 0 =
      (take j rs, length (concat (map enc (take j rs)))) \<and>
      length (concat (map enc (take j rs))) \<le> k \<and>
      (\<forall>i \<le> length rs. length (concat (map enc (take i rs))) \<le> k \<longrightarrow> i \<le> j)"
proof -
  obtain j where j: "j \<le> length rs" and alt: "take k (concat (map enc rs)) = concat (map enc (take j rs)) \<or>
     (\<exists>m. j < length rs \<and> m < length (enc (rs ! j)) \<and>
        take k (concat (map enc rs)) = concat (map enc (take j rs)) @ take m (enc (rs ! j)))"
    using prefix_frames [OF assms(2)] by blast
  have okj: "\<forall>r \<in> set (take j rs). ok r" using assms(1) by (meson in_set_takeD)
  have "scan dec (take k (concat (map enc rs))) 0 = (take j rs, length (concat (map enc (take j rs))))"
    using alt
  proof
    assume "\<exists>m. j < length rs \<and> m < length (enc (rs ! j)) \<and>
        take k (concat (map enc rs)) = concat (map enc (take j rs)) @ take m (enc (rs ! j))"
    then show ?thesis using scan_cut [OF okj] assms(1) nth_mem by force
  qed (simp add: scan_all [OF okj])
  moreover have "length (concat (map enc (take j rs))) \<le> length (take k (concat (map enc rs)))"
    using alt by (elim disjE exE conjE) (simp_all only: length_append le_add1 order_refl)
  then have "length (concat (map enc (take j rs))) \<le> k" by simp
  moreover have "i \<le> j" if i: "i \<le> length rs" "length (concat (map enc (take i rs))) \<le> k" for i
  proof (rule ccontr)
    assume "\<not> i \<le> j"
    then have ji: "Suc j \<le> i" "j < length rs" using i by auto
    have "take i rs = take (Suc j) rs @ take (i - Suc j) (drop (Suc j) rs)"
      using ji by (metis le_add_diff_inverse take_add)
    then have "length (concat (map enc (take (Suc j) rs))) \<le> k" using i(2) by simp
    then have le: "length (concat (map enc (take j rs))) + length (enc (rs ! j)) \<le> k"
      using ji(2) by (simp add: take_Suc_conv_app_nth)
    have "length (take k (concat (map enc rs))) = length (concat (map enc (take j rs))) \<or>
      (\<exists>m < length (enc (rs ! j)). length (take k (concat (map enc rs))) =
         length (concat (map enc (take j rs))) + m)"
      using alt by (elim disjE exE conjE) (metis, metis length_append length_take min.absorb2 less_imp_le)
    moreover have "length (take k (concat (map enc rs))) = k" using assms(2) by simp
    ultimately show False using le enc_ne [of "rs ! j"] by auto
  qed
  ultimately show ?thesis using j by blast
qed

end

section \<open>The frame codec implements framing\<close>

definition frame :: "walRecord \<Rightarrow> byte list" where
  "frame r = appendRecord [] (r_Type r) (r_Payload r)"

definition rec_ok :: "walRecord \<Rightarrow> bool" where
  "rec_ok r \<longleftrightarrow> valid_type (r_Type r) \<and> length (r_Payload r) \<le> maxRecordSize"

lemma appendRecord_frame: "appendRecord dst typ p = dst @ frame \<lparr>r_Type = typ, r_Payload = p\<rparr>"
  by (simp add: frame_def appendRecord_def Let_def)

lemma length_frame: "length (frame r) = headerSize + length (r_Payload r)"
  by (simp add: frame_def appendRecord_def Let_def headerSize_def)

lemma frame_parts:
  "take 4 (frame r @ rest) = PutUint32 recordMagic"
  "take 4 (drop 4 (frame r @ rest)) = PutUint32 (of_nat (length (r_Payload r)))"
  "take 4 (drop 8 (frame r @ rest)) = PutUint32 (checksum (r_Type r) (r_Payload r))"
  "(frame r @ rest) ! 12 = r_Type r"
  "drop headerSize (frame r @ rest) = r_Payload r @ rest"
  by (simp_all add: frame_def appendRecord_def Let_def headerSize_def nth_append drop_Cons')

lemma length_appendRecord [simp]: "length (appendRecord dst typ p) = length dst + encodedSize p"
  by (simp add: appendRecord_def Let_def encodedSize_def headerSize_def)

lemma frame_tail: "drop 12 (frame r) = r_Type r # r_Payload r"
  by (simp add: frame_def appendRecord_def Let_def)

lemma unat_len_u32: "n \<le> maxRecordSize \<Longrightarrow> unat (of_nat n :: u32) = n"
  by (simp add: maxRecordSize_def unat_of_nat take_bit_nat_eq_self)

lemma decodeRecord_frame:
  "rec_ok r \<Longrightarrow> decodeRecord (frame r @ rest) = Some (r, length (frame r))"
  using frame_parts [of r rest] length_frame [of r]
  by (simp add: decodeRecord_def rec_ok_def Let_def unat_len_u32)

lemma decodeRecord_cut:
  assumes "rec_ok r" "k < length (frame r)"
  shows "decodeRecord (take k (frame r)) = None"
proof (cases "k < headerSize")
  case True
  then have "length (take k (frame r)) < headerSize" by simp
  then show ?thesis by (simp only: decodeRecord_def if_True)
next
  case False
  have p: "take 4 (drop 4 (take k (frame r))) = PutUint32 (of_nat (length (r_Payload r)))"
  proof -
    have "4 \<le> k - 4" using False by (simp add: headerSize_def)
    then show ?thesis using frame_parts(2) [of r "[]"] by (simp add: drop_take min_absorb1)
  qed
  then show ?thesis
    using assms False by (simp add: decodeRecord_def Let_def rec_ok_def unat_len_u32 length_frame)
qed

lemma header_split:
  assumes "headerSize \<le> length buf"
  shows "take headerSize buf =
    take 4 buf @ take 4 (drop 4 buf) @ take 4 (drop 8 buf) @ [buf ! 12]"
proof -
  have "take 13 buf = take 12 buf @ [buf ! 12]"
    using assms take_Suc_conv_app_nth [of 12 buf] by (simp add: headerSize_def)
  also have "take 12 buf = take 4 buf @ take 4 (drop 4 buf) @ take 4 (drop 8 buf)"
    using take_add [of 4 8 buf] take_add [of 4 4 "drop 4 buf"] by simp
  finally show ?thesis by (simp add: headerSize_def)
qed

lemma decodeRecord_sound:
  assumes "decodeRecord buf = Some (r, n)"
  shows "rec_ok r" "n = length (frame r)" "take n buf = frame r"
proof -
  let ?w = "Uint32 (take 4 (drop 4 buf))"
  have c: "headerSize \<le> length buf" "Uint32 (take 4 buf) = recordMagic"
    "unat ?w \<le> maxRecordSize" "headerSize + unat ?w \<le> length buf" "valid_type (buf ! 12)"
    "Uint32 (take 4 (drop 8 buf)) = checksum (buf ! 12) (take (unat ?w) (drop headerSize buf))"
    and r: "r = \<lparr>r_Type = buf ! 12, r_Payload = take (unat ?w) (drop headerSize buf)\<rparr>"
    and n: "n = headerSize + unat ?w"
    using assms by (auto simp: decodeRecord_def Let_def split: if_splits)
  have len: "length (r_Payload r) = unat ?w" using c(4) by (simp add: r)
  show "rec_ok r" using c len by (simp add: rec_ok_def r)
  show n': "n = length (frame r)" using len n by (simp add: length_frame)
  have w: "of_nat (unat ?w) = ?w" by simp
  have "frame r = take headerSize buf @ take (unat ?w) (drop headerSize buf)"
    unfolding header_split [OF c(1)]
    using c len w PutUint32_Uint32 [of "take 4 buf"] PutUint32_Uint32 [of "take 4 (drop 4 buf)"]
      PutUint32_Uint32 [of "take 4 (drop 8 buf)"]
    by (simp add: frame_def appendRecord_def Let_def r headerSize_def)
  then show "take n buf = frame r" by (simp add: n take_add)
qed

interpretation wal_frames: framing frame decodeRecord rec_ok
proof
  fix r rest k buf n
  show "rec_ok r \<Longrightarrow> decodeRecord (frame r @ rest) = Some (r, length (frame r))"
    by (rule decodeRecord_frame)
  show "rec_ok r \<Longrightarrow> k < length (frame r) \<Longrightarrow> decodeRecord (take k (frame r)) = None"
    by (rule decodeRecord_cut)
  show "decodeRecord buf = Some (r, n) \<Longrightarrow> rec_ok r \<and> n = length (frame r) \<and> take n buf = frame r"
    using decodeRecord_sound by blast
  show "frame r \<noteq> []"
    using length_frame [of r] by (auto simp: headerSize_def)
qed

section \<open>Corruption\<close>

text \<open>
  A frame with one byte replaced. Outside the length field the length that is read is the one
  that was written, so the corrupted byte is the magic, the checksum, the type or a byte of
  the payload, and each is caught.
\<close>

lemma crc_one_byte_update:
  assumes "i < length p" "v \<noteq> p ! i"
  shows "crc_Update c (p[i := v]) \<noteq> crc_Update c p"
proof
  assume "crc_Update c (p[i := v]) = crc_Update c p"
  then have "crc_Update c (take i p @ v # drop (Suc i) p) =
      crc_Update c (take i p @ p ! i # drop (Suc i) p)"
    using assms(1) by (simp add: upd_conv_take_nth_drop id_take_nth_drop [symmetric])
  then show False using crc_Update_one_byte assms(2) by blast
qed

lemma take_drop_update_other:
  assumes "i < a \<or> a + n \<le> i"
  shows "take n (drop a (xs[i := v])) = take n (drop a xs)"
  using assms by (auto simp: drop_update_swap)

lemma take_drop_update_eq:
  assumes "length (take n (drop a xs)) = n" "a \<le> i" "i < a + n" "v \<noteq> xs ! i"
  shows "take n (drop a (xs[i := v])) \<noteq> take n (drop a xs)"
proof
  assume e: "take n (drop a (xs[i := v])) = take n (drop a xs)"
  have l: "a + n \<le> length xs" using assms(1-3) by auto
  have "take n (drop a (xs[i := v])) ! (i - a) = v" "take n (drop a xs) ! (i - a) = xs ! i"
    using assms l by auto
  then show False using e assms(4) by simp
qed

lemma decodeRecord_flip:
  assumes ok: "rec_ok r" and i: "i < length (frame r)" "i < 4 \<or> 8 \<le> i" and v: "v \<noteq> frame r ! i"
  shows "decodeRecord ((frame r)[i := v]) = None"
proof (rule ccontr)
  let ?f = "frame r"
  let ?g = "?f[i := v]"
  assume "decodeRecord ?g \<noteq> None"
  then obtain s n where d: "decodeRecord ?g = Some (s, n)" by auto
  note s = decodeRecord_sound [OF d]
  have lf: "headerSize \<le> length ?f" by (simp add: length_frame)
  have len: "Uint32 (take 4 (drop 4 ?g)) = of_nat (length (r_Payload r))"
    using frame_parts(2) [of r "[]"] i(2) take_drop_update_other [of i 4 4 ?f v] by simp
  have n: "n = length ?f"
    using d len ok by (auto simp: decodeRecord_def Let_def unat_len_u32 rec_ok_def length_frame
        split: if_splits)
  have g: "?g = frame s" using s(3) n by simp
  have parts: "take 4 (drop a ?g) = take 4 (drop a ?f)" if "frame s = ?g" "a = 0" for a
    using frame_parts(1) [of s "[]"] frame_parts(1) [of r "[]"] that by simp
  show False
  proof (cases "i < 4")
    case True
    then show False
      using parts [of 0] g take_drop_update_eq [of 4 0 ?f i v] lf v by (simp add: headerSize_def)
  next
    case False
    have i8: "8 \<le> i" using False i(2) by simp
    show False
    proof (cases "i < 12")
      case True
      have "drop 12 (frame s) = drop 12 ?f" unfolding g [symmetric] using True by simp
      then have "r_Type s = r_Type r" "r_Payload s = r_Payload r" by (simp_all add: frame_tail)
      then show False using g v i by (metis frame_def nth_list_update_eq)
    next
      case False
      have cs: "checksum (r_Type s) (r_Payload s) = checksum (r_Type r) (r_Payload r)"
      proof -
        have "12 \<le> i" using False by simp
        then have "take 4 (drop 8 (frame s)) = take 4 (drop 8 ?f)"
          unfolding g [symmetric] by (intro take_drop_update_other) simp
        then have "PutUint32 (checksum (r_Type s) (r_Payload s)) =
            PutUint32 (checksum (r_Type r) (r_Payload r))"
          using frame_parts(3) [of s "[]"] frame_parts(3) [of r "[]"] by simp
        then show ?thesis by (metis Uint32_PutUint32)
      qed
      have i12: "12 \<le> i" using False by simp
      have "r_Type s # r_Payload s = (r_Type r # r_Payload r)[i - 12 := v]"
        unfolding frame_tail [symmetric] g [symmetric] using i12 by (simp add: drop_update_swap)
      moreover have "(r_Type r # r_Payload r) ! (i - 12) = ?f ! i"
        unfolding frame_tail [symmetric] using i12 i(1) by simp
      moreover have "i - 12 < length (r_Type r # r_Payload r)"
        using i(1) by (simp add: length_frame headerSize_def)
      ultimately show False
        using crc_one_byte_update cs v unfolding checksum_eq by metis
    qed
  qed
qed

section \<open>Properties\<close>

text \<open>C7: a record written by \<open>appendRecord\<close> behind any bytes is read back by \<open>decodeRecord\<close> at that
  offset whatever follows it, with the number of bytes that \<open>encodedSize\<close> announces, provided
  its type is one of the seven and its payload is within the frame limit, which \<open>Append\<close> checks.\<close>

theorem frame_roundtrip:
  assumes "valid_type typ" "length payload \<le> maxRecordSize"
  shows "decodeRecord (drop (length dst) (appendRecord dst typ payload @ rest)) =
    Some (\<lparr>r_Type = typ, r_Payload = payload\<rparr>, encodedSize payload)"
  using decodeRecord_frame [of "\<lparr>r_Type = typ, r_Payload = payload\<rparr>" rest] assms
  by (simp add: appendRecord_frame rec_ok_def length_frame encodedSize_def)

theorem frame_roundtrip_witness:
  "decodeRecord (drop 2 (appendRecord [7, 7] RecordAck [1, 2, 3] @ [9])) =
     Some (\<lparr>r_Type = RecordAck, r_Payload = [1, 2, 3]\<rparr>, 16)"
proof -
  have "valid_type RecordAck" "length [1, 2, 3 :: byte] \<le> maxRecordSize"
    by (simp_all add: valid_type_def record_type_defs maxRecordSize_def)
  from frame_roundtrip [OF this, of "[7, 7]" "[9]"] show ?thesis
    by (simp add: numeral_2_eq_2 encodedSize_def headerSize_def)
qed

text \<open>C27: the decoder accepts nothing but frames. Whatever it returns has a valid type and a payload
  within the limit, and the bytes it consumed are exactly the encoding of that record.\<close>

theorem decodeRecord_canonical:
  assumes "decodeRecord buf = Some (r, n)"
  shows "valid_type (r_Type r) \<and> length (r_Payload r) \<le> maxRecordSize \<and>
    n = encodedSize (r_Payload r) \<and> n \<le> length buf \<and>
    take n buf = appendRecord [] (r_Type r) (r_Payload r)"
proof -
  note d = decodeRecord_sound [OF assms]
  have "n \<le> length buf" using d(2,3) by (metis length_take min.cobounded1)
  then show ?thesis using d by (simp add: rec_ok_def frame_def [symmetric] length_frame encodedSize_def)
qed

theorem decodeRecord_canonical_witness:
  "\<exists>buf. decodeRecord buf = Some (\<lparr>r_Type = RecordNack, r_Payload = [3]\<rparr>, 14) \<and>
     take 14 buf = appendRecord [] RecordNack [3] \<and> length buf = 15"
proof -
  let ?r = "\<lparr>r_Type = RecordNack, r_Payload = [3 :: byte]\<rparr>"
  have "rec_ok ?r" by (simp add: rec_ok_def valid_type_def record_type_defs maxRecordSize_def)
  then have d: "decodeRecord (frame ?r @ [9]) = Some (?r, 14)"
    using decodeRecord_frame [of ?r "[9]"] by (simp add: length_frame headerSize_def)
  from decodeRecord_canonical [OF d] d show ?thesis
    by (intro exI [of _ "frame ?r @ [9]"]) (simp add: length_frame headerSize_def)
qed

text \<open>C28: a write that was cut short is never mistaken for a record: no proper prefix of a frame
  decodes.\<close>

theorem torn_frame_rejected:
  assumes "valid_type typ" "length payload \<le> maxRecordSize" "k < encodedSize payload"
  shows "decodeRecord (take k (appendRecord [] typ payload)) = None"
  using decodeRecord_cut [of "\<lparr>r_Type = typ, r_Payload = payload\<rparr>" k] assms
  by (simp add: rec_ok_def frame_def)

theorem torn_frame_rejected_witness:
  "decodeRecord (take 14 (appendRecord [] RecordAck [1, 2, 3])) = None"
proof -
  have "valid_type RecordAck" "length [1, 2, 3 :: byte] \<le> maxRecordSize" "14 < encodedSize [1, 2, 3 :: byte]"
    by (simp_all add: valid_type_def record_type_defs maxRecordSize_def encodedSize_def headerSize_def)
  from torn_frame_rejected [OF this] show ?thesis .
qed

text \<open>C29: changing any one byte of a frame outside the length field, in any of its bits, makes the
  frame undecodable: the magic, the checksum, the type and every payload byte are protected.\<close>

theorem corrupt_byte_detected:
  assumes "valid_type typ" "length payload \<le> maxRecordSize"
    and "i < encodedSize payload" "i < 4 \<or> 8 \<le> i" "v \<noteq> appendRecord [] typ payload ! i"
  shows "decodeRecord ((appendRecord [] typ payload)[i := v]) = None"
  using decodeRecord_flip [of "\<lparr>r_Type = typ, r_Payload = payload\<rparr>" i v] assms
  by (simp add: rec_ok_def frame_def)

theorem corrupt_byte_detected_witness:
  "decodeRecord ((appendRecord [] RecordAck [1, 2, 3])[14 := 9]) = None"
proof -
  let ?r = "\<lparr>r_Type = RecordAck, r_Payload = [1, 2, 3 :: byte]\<rparr>"
  have "frame ?r ! 14 = drop 12 (frame ?r) ! 2" by (subst nth_drop) (simp_all add: length_frame headerSize_def)
  then have "appendRecord [] RecordAck [1, 2, 3] ! 14 = 2"
    unfolding appendRecord_frame frame_tail by simp
  then have n: "9 \<noteq> appendRecord [] RecordAck [1, 2, 3] ! 14" by simp
  have "valid_type RecordAck" "length [1, 2, 3 :: byte] \<le> maxRecordSize" "14 < encodedSize [1, 2, 3 :: byte]"
    by (simp_all add: valid_type_def record_type_defs maxRecordSize_def encodedSize_def headerSize_def)
  from corrupt_byte_detected [OF this _ n] show ?thesis by simp
qed


end
