(* ===== verification/Payload.thy ===== *)
theory Payload
  imports Message WalRecord
begin

text \<open>
  \<open>internal/queue/record.go\<close>: the on-disk vocabulary. One record type per payload struct; the
  datatype \<open>payload\<close> is the \<open>any\<close> argument of \<open>appendJSON\<close> together with the record type each
  caller passes beside it.
\<close>

record enqueuePayload =
  ep_Queue :: string
  ep_ID :: string
  ep_Body :: "byte list"
  ep_Priority :: int
  ep_Seq :: u64
  ep_EnqueuedAt :: int
  ep_VisibleAt :: int
  ep_DedupKey :: string

record leaseItem =
  li_ID :: string
  li_Token :: string
  li_Attempts :: int

record leasePayload =
  lp_Queue :: string
  lp_ExpiresAt :: int
  lp_Items :: "leaseItem list"

record ackPayload =
  ap_Queue :: string
  ap_ID :: string

record nackPayload =
  np_Queue :: string
  np_ID :: string
  np_VisibleAt :: int

record expireItem =
  xi_ID :: string
  xi_VisibleAt :: int

record expirePayload =
  xp_Queue :: string
  xp_Items :: "expireItem list"

record dlqPayload =
  dp_Queue :: string
  dp_IDs :: "string list"
  dp_Reason :: string

record queueCreatePayload =
  qp_Config :: config

datatype payload =
    PQueueCreate queueCreatePayload
  | PEnqueue enqueuePayload
  | PLease leasePayload
  | PAck ackPayload
  | PNack nackPayload
  | PLeaseExpire expirePayload
  | PDLQMove dlqPayload

fun payload_type :: "payload \<Rightarrow> recordType" where
  "payload_type (PQueueCreate _) = RecordQueueCreate"
| "payload_type (PEnqueue _) = RecordEnqueue"
| "payload_type (PLease _) = RecordLease"
| "payload_type (PAck _) = RecordAck"
| "payload_type (PNack _) = RecordNack"
| "payload_type (PLeaseExpire _) = RecordLeaseExpire"
| "payload_type (PDLQMove _) = RecordDLQMove"

text \<open>The queue a record is about.\<close>

fun payload_queue :: "payload \<Rightarrow> string" where
  "payload_queue (PQueueCreate p) = c_Name (qp_Config p)"
| "payload_queue (PEnqueue p) = ep_Queue p"
| "payload_queue (PLease p) = lp_Queue p"
| "payload_queue (PAck p) = ap_Queue p"
| "payload_queue (PNack p) = np_Queue p"
| "payload_queue (PLeaseExpire p) = xp_Queue p"
| "payload_queue (PDLQMove p) = dp_Queue p"

lemma payload_type_valid: "valid_type (payload_type p)"
  by (cases p) (simp_all add: valid_type_def record_type_defs)

end
