(* ===== verification/Queue.thy ===== *)
theory Queue
  imports Order Payload
begin

text \<open>
  \<open>internal/queue/queue.go\<close>: one queue. Its messages live in a store of cells, so that the message
  map, the heaps, the in-flight map and the operations under way share them by reference, as the
  pointers of the source do.

  Every operation releases the queue's mutex while its record is being appended to the log. Each
  is therefore split at that point: a \<open>_reserve\<close> part that runs before the append and returns the
  payload, and a \<open>_finish\<close> part that runs after it and receives the log's answer. The parts run
  under the mutex, so each is one atomic step; the clock readings, the random strings drawn and
  the log's answers are arguments.
\<close>

section \<open>State\<close>

text \<open>A dedup entry; \<open>de_ready\<close> says that its channel is closed.\<close>

record dedupEntry =
  de_msg :: message
  de_expiresAt :: int
  de_ready :: bool
  de_err :: "queue_error option"

text \<open>
  \<open>q_store\<close> and \<open>q_entries\<close> are the cells that the queue's pointers refer to, allocated upwards
  from \<open>q_next\<close> and \<open>q_nextEntry\<close>. \<open>q_wake\<close> says that the buffered wake channel holds a token.
\<close>

record queue =
  q_cfg :: config
  q_seq :: u64
  q_store :: store
  q_next :: ref
  q_msgs :: "(string, ref) gomap"
  q_ready :: readyHeap
  q_delayed :: delayedHeap
  q_inflight :: "(string, ref) gomap"
  q_leases :: leaseHeap
  q_dlq :: "ref list"
  q_entries :: "ref \<Rightarrow> dedupEntry"
  q_nextEntry :: ref
  q_dedup :: "(string, ref) gomap"
  q_cnt :: counters
  q_armed :: int
  q_wake :: bool
  q_done :: bool

definition zero_entry :: dedupEntry where
  "zero_entry = \<lparr>de_msg = zero_message, de_expiresAt = 0, de_ready = False, de_err = None\<rparr>"

definition newQueue :: "config \<Rightarrow> queue" where
  "newQueue cfg = \<lparr>q_cfg = cfg, q_seq = 0, q_store = (\<lambda>_. zero_message), q_next = 0, q_msgs = [],
     q_ready = \<lparr>rh_msgs = [], rh_lifo = (c_Mode cfg = LIFO)\<rparr>,
     q_delayed = \<lparr>dh_msgs = [], dh_lifo = (c_Mode cfg = LIFO)\<rparr>,
     q_inflight = [], q_leases = [], q_dlq = [],
     q_entries = (\<lambda>_. zero_entry), q_nextEntry = 0, q_dedup = [],
     q_cnt = zero_counters, q_armed = 0, q_wake = False, q_done = False\<rparr>"

section \<open>Helpers\<close>

definition takeLeased :: "string \<Rightarrow> string \<Rightarrow> queue \<Rightarrow> queue_error + (ref \<times> queue)" where
  "takeLeased mid token q =
     (case gget (q_inflight q) mid of
        None \<Rightarrow> Inl ErrNotLeased
      | Some m \<Rightarrow>
          if m_leaseToken (q_store q m) \<noteq> token then Inl ErrBadLeaseToken
          else Inr (m, q\<lparr>q_inflight := gdel mid (q_inflight q)\<rparr>))"

definition restoreLeased :: "ref \<Rightarrow> queue \<Rightarrow> queue" where
  "restoreLeased m q = q\<lparr>q_inflight := gput (m_ID (q_store q m)) m (q_inflight q)\<rparr>"

definition restoreLeasedEntry :: "ref \<Rightarrow> leaseEntry \<Rightarrow> queue \<Rightarrow> queue" where
  "restoreLeasedEntry m e q =
     q\<lparr>q_inflight := gput (m_ID (q_store q m)) m (q_inflight q),
       q_leases := lease_push e (q_leases q)\<rparr>"

definition wakeIfSooner :: "int \<Rightarrow> queue \<Rightarrow> queue" where
  "wakeIfSooner deadline q =
     (if q_armed q \<noteq> 0 \<and> deadline \<ge> q_armed q then q else q\<lparr>q_wake := True\<rparr>)"

definition insert_msg :: "ref \<Rightarrow> int \<Rightarrow> queue \<Rightarrow> queue" where
  "insert_msg m now q =
     (let q1 = q\<lparr>q_msgs := gput (m_ID (q_store q m)) m (q_msgs q)\<rparr> in
      if m_VisibleAt (q_store q1 m) > now
      then wakeIfSooner (m_VisibleAt (q_store q1 m))
             (q1\<lparr>q_delayed := delayed_push (q_store q1) m (q_delayed q1)\<rparr>)
      else q1\<lparr>q_ready := ready_push (q_store q1) m (q_ready q1)\<rparr>)"

lemma delayed_pop_shrinks:
  "delayed_pop st h = Some (m, h') \<Longrightarrow> length (dh_msgs h') < length (dh_msgs h)"
  using delayed_pop_SomeD(1) [of st h m h'] by (metis lessI size_add_mset size_mset)

function promoteDue :: "int \<Rightarrow> queue \<Rightarrow> queue" where
  "promoteDue now q =
     (case delayed_peek (q_delayed q) of
        None \<Rightarrow> q
      | Some m \<Rightarrow>
          if m_VisibleAt (q_store q m) > now then q
          else (case delayed_pop (q_store q) (q_delayed q) of
                  None \<Rightarrow> q
                | Some (m', dh) \<Rightarrow>
                    promoteDue now
                      (q\<lparr>q_delayed := dh, q_ready := ready_push (q_store q) m' (q_ready q)\<rparr>)))"
  by pat_completeness auto
termination
  by (relation "measure (\<lambda>(now, q). length (dh_msgs (q_delayed q)))")
    (auto dest: delayed_pop_shrinks)

declare promoteDue.simps [simp del]

definition moveToDLQ :: "ref \<Rightarrow> queue \<Rightarrow> queue" where
  "moveToDLQ m q =
     (let q1 = q\<lparr>q_msgs := gdel (m_ID (q_store q m)) (q_msgs q),
                q_store := (q_store q)(m := (q_store q m)\<lparr>m_leaseToken := []\<rparr>)\<rparr> in
      if c_DLQ (q_cfg q1) then q1\<lparr>q_dlq := q_dlq q1 @ [m]\<rparr> else q1)"

definition add_cnt :: "(counters \<Rightarrow> counters) \<Rightarrow> queue \<Rightarrow> queue" where
  "add_cnt f q = q\<lparr>q_cnt := f (q_cnt q)\<rparr>"

section \<open>Enqueue\<close>

text \<open>
  Before the append: either the dedup key is held by an entry that has not expired, and the call
  will wait for that entry, or a message is allocated, and a dedup entry when a key was given.
\<close>

datatype enqueue_start =
    EnqDuplicate ref
  | EnqAppend ref "ref option" payload

definition Enqueue_reserve :: "int \<Rightarrow> string \<Rightarrow> byte list \<Rightarrow> int \<Rightarrow> int \<Rightarrow> string \<Rightarrow> queue \<Rightarrow>
    queue \<times> enqueue_start" where
  "Enqueue_reserve clock newID body priority delay dedupKey q =
     (let now = unixMilli clock;
          dup = (if dedupKey \<noteq> [] then
                   (case gget (q_dedup q) dedupKey of
                      Some e \<Rightarrow> if de_expiresAt (q_entries q e) > now then Some e else None
                    | None \<Rightarrow> None)
                 else None)
      in case dup of
           Some e \<Rightarrow> (add_cnt (\<lambda>c. c\<lparr>n_deduped := n_deduped c + 1\<rparr>) q, EnqDuplicate e)
         | None \<Rightarrow>
             let s = q_seq q + 1;
                 msg = \<lparr>m_ID = newID, m_Body = body,
                    m_Priority = (if c_Priority (q_cfg q) then priority else 0),
                    m_Seq = s, m_EnqueuedAt = now,
                    m_VisibleAt = (if c_Delay (q_cfg q) \<and> delay > 0
                                   then i64 (now + Milliseconds delay) else now),
                    m_Attempts = 0, m_DedupKey = dedupKey, m_leaseToken = [], m_leaseExpires = 0\<rparr>;
                 m = q_next q;
                 q1 = q\<lparr>q_seq := s, q_store := (q_store q)(m := msg), q_next := m + 1\<rparr>;
                 p = PEnqueue \<lparr>ep_Queue = c_Name (q_cfg q), ep_ID = m_ID msg, ep_Body = m_Body msg,
                    ep_Priority = m_Priority msg, ep_Seq = m_Seq msg,
                    ep_EnqueuedAt = m_EnqueuedAt msg, ep_VisibleAt = m_VisibleAt msg,
                    ep_DedupKey = m_DedupKey msg\<rparr>
             in if dedupKey \<noteq> [] then
                  let e = q_nextEntry q1;
                      q2 = q1\<lparr>q_entries := (q_entries q1)(e := \<lparr>de_msg = msg,
                              de_expiresAt = i64 (now + Milliseconds DedupTTL),
                              de_ready = False, de_err = None\<rparr>),
                            q_nextEntry := e + 1,
                            q_dedup := gput dedupKey e (q_dedup q1)\<rparr>
                  in (q2, EnqAppend m (Some e) p)
                else (q1, EnqAppend m None p))"

definition close_entry :: "ref option \<Rightarrow> queue \<Rightarrow> queue" where
  "close_entry entry q =
     (case entry of None \<Rightarrow> q
      | Some e \<Rightarrow> q\<lparr>q_entries := (q_entries q)(e := (q_entries q e)\<lparr>de_ready := True\<rparr>)\<rparr>)"

definition Enqueue_finish :: "int \<Rightarrow> ref \<Rightarrow> ref option \<Rightarrow> string \<Rightarrow> queue_error option \<Rightarrow> queue \<Rightarrow>
    queue \<times> (queue_error + (message \<times> bool))" where
  "Enqueue_finish clock m entry dedupKey err q =
     (case err of
        Some x \<Rightarrow>
          let q1 = (case entry of None \<Rightarrow> q
                    | Some e \<Rightarrow> q\<lparr>q_dedup := gdel dedupKey (q_dedup q),
                        q_entries := (q_entries q)(e := (q_entries q e)\<lparr>de_err := Some x\<rparr>)\<rparr>)
          in (close_entry entry q1, Inl x)
      | None \<Rightarrow>
          let q1 = add_cnt (\<lambda>c. c\<lparr>n_enqueued := n_enqueued c + 1\<rparr>) (insert_msg m (unixMilli clock) q);
              out = q_store q1 m
          in (close_entry entry q1, Inr (out, False)))"

text \<open>A duplicate call returns once its entry is published; until then it waits (\<^const>\<open>None\<close>).\<close>

definition Enqueue_dup :: "ref \<Rightarrow> queue \<Rightarrow> (queue_error + (message \<times> bool)) option" where
  "Enqueue_dup e q =
     (if de_ready (q_entries q e)
      then Some (case de_err (q_entries q e) of
                   Some x \<Rightarrow> Inl x
                 | None \<Rightarrow> Inr (de_msg (q_entries q e), True))
      else None)"

section \<open>Dequeue\<close>

text \<open>
  Before the append: due messages are promoted and up to \<open>n\<close> ready ones popped, each with the
  token \<open>tok i\<close> drawn for it. Nothing else is changed, so putting the messages back undoes it.
\<close>

definition tryDequeue_reserve :: "int \<Rightarrow> (nat \<Rightarrow> string) \<Rightarrow> int \<Rightarrow> queue \<Rightarrow>
    queue \<times> (ref list \<times> leasePayload) option" where
  "tryDequeue_reserve clock tok n q =
     (let now = unixMilli clock;
          q1 = promoteDue now q;
          (picked, rh) = pop_upto (ready_pop (q_store q1)) (nat n) (q_ready q1);
          q2 = q1\<lparr>q_ready := rh\<rparr>
      in if picked = [] then (q2, None)
         else (q2, Some (picked, \<lparr>lp_Queue = c_Name (q_cfg q2),
                lp_ExpiresAt = i64 (now + c_VisibilityTimeoutMS (q_cfg q2)),
                lp_Items = map (\<lambda>i. let m = q_store q2 (picked ! i) in
                    \<lparr>li_ID = m_ID m, li_Token = tok i, li_Attempts = i64 (m_Attempts m + 1)\<rparr>)
                  [0..<length picked]\<rparr>)))"

definition lease_one :: "int \<Rightarrow> ref \<times> leaseItem \<Rightarrow> queue \<Rightarrow> queue" where
  "lease_one expires = (\<lambda>(m, it) q.
     let msg = (q_store q m)\<lparr>m_Attempts := li_Attempts it, m_leaseToken := li_Token it,
                 m_leaseExpires := expires\<rparr> in
     q\<lparr>q_store := (q_store q)(m := msg),
       q_inflight := gput (m_ID msg) m (q_inflight q),
       q_leases := lease_push \<lparr>le_id = m_ID msg, le_token = m_leaseToken msg, le_expiresAt = expires\<rparr>
                     (q_leases q)\<rparr>)"

text \<open>The loop of the success path: the deliveries are snapshots taken inside the loop.\<close>

fun lease_all :: "int \<Rightarrow> (ref \<times> leaseItem) list \<Rightarrow> queue \<Rightarrow> queue \<times> delivery list" where
  "lease_all expires [] q = (q, [])"
| "lease_all expires (x # xs) q =
     (let q1 = lease_one expires x q;
          d = \<lparr>d_Message = q_store q1 (fst x), d_LeaseToken = m_leaseToken (q_store q1 (fst x)),
               d_ExpiresAt = expires\<rparr>;
          (q2, ds) = lease_all expires xs q1
      in (q2, d # ds))"

definition tryDequeue_finish :: "ref list \<Rightarrow> leasePayload \<Rightarrow> queue_error option \<Rightarrow> queue \<Rightarrow>
    queue \<times> (queue_error + delivery list)" where
  "tryDequeue_finish picked p err q =
     (case err of
        Some x \<Rightarrow> (fold (\<lambda>m q. q\<lparr>q_ready := ready_push (q_store q) m (q_ready q)\<rparr>) picked q, Inl x)
      | None \<Rightarrow>
          let (q1, out) = lease_all (lp_ExpiresAt p) (zip picked (lp_Items p)) q;
              q2 = add_cnt (\<lambda>c. c\<lparr>n_dequeued := n_dequeued c + of_nat (length picked)\<rparr>) q1
          in (wakeIfSooner (lp_ExpiresAt p) q2, Inr out))"

text \<open>
  The polling loop of \<open>Dequeue\<close>: what follows one attempt (return, or sleep for so many
  nanoseconds), and what follows the event that ends the sleep.
\<close>

definition pollInterval :: int where "pollInterval = 5 * 1000000"

definition Dequeue_n :: "int \<Rightarrow> int" where
  "Dequeue_n n = (if n \<le> 0 then 1 else n)"

datatype dequeue_next = DqReturn "queue_error + delivery list" | DqSleep int

definition Dequeue_attempted :: "int \<Rightarrow> int \<Rightarrow> queue_error + delivery list \<Rightarrow> dequeue_next" where
  "Dequeue_attempted deadline clock res =
     (case res of
        Inl e \<Rightarrow> DqReturn (Inl e)
      | Inr out \<Rightarrow>
          if length out > 0 then DqReturn (Inr out)
          else let remaining = deadline - clock in
               if remaining \<le> 0 then DqReturn (Inr [])
               else DqSleep (if remaining < pollInterval then remaining else pollInterval))"

datatype dequeue_event = CtxDone | QueueDone | TimerFired

definition Dequeue_woken :: "dequeue_event \<Rightarrow> (queue_error + delivery list) option" where
  "Dequeue_woken ev =
     (case ev of CtxDone \<Rightarrow> Some (Inl ErrCtx) | QueueDone \<Rightarrow> Some (Inl ErrClosed) | TimerFired \<Rightarrow> None)"

section \<open>Ack and Nack\<close>

definition Ack_reserve :: "string \<Rightarrow> string \<Rightarrow> queue \<Rightarrow> queue_error + (ref \<times> payload \<times> queue)" where
  "Ack_reserve mid token q =
     (case takeLeased mid token q of
        Inl e \<Rightarrow> Inl e
      | Inr (m, q1) \<Rightarrow> Inr (m, PAck \<lparr>ap_Queue = c_Name (q_cfg q1), ap_ID = mid\<rparr>, q1))"

definition Ack_finish :: "string \<Rightarrow> ref \<Rightarrow> queue_error option \<Rightarrow> queue \<Rightarrow> queue \<times> queue_error option" where
  "Ack_finish mid m err q =
     (case err of
        Some x \<Rightarrow> (restoreLeased m q, Some x)
      | None \<Rightarrow>
          (add_cnt (\<lambda>c. c\<lparr>n_acked := n_acked c + 1\<rparr>)
             (q\<lparr>q_msgs := gdel mid (q_msgs q),
                q_store := (q_store q)(m := (q_store q m)\<lparr>m_leaseToken := []\<rparr>)\<rparr>), None))"

definition Nack_reserve :: "int \<Rightarrow> string \<Rightarrow> string \<Rightarrow> int \<Rightarrow> queue \<Rightarrow>
    queue_error + (ref \<times> bool \<times> int \<times> payload \<times> queue)" where
  "Nack_reserve clock mid token requeueDelay q =
     (let now = unixMilli clock in
      case takeLeased mid token q of
        Inl e \<Rightarrow> Inl e
      | Inr (m, q1) \<Rightarrow>
          let toDLQ = (m_Attempts (q_store q1 m) \<ge> c_MaxAttempts (q_cfg q1));
              visibleAt = (if \<not> toDLQ \<and> requeueDelay > 0
                           then i64 (now + Milliseconds requeueDelay) else now);
              p = (if toDLQ
                   then PDLQMove \<lparr>dp_Queue = c_Name (q_cfg q1), dp_IDs = [mid], dp_Reason = ''max_attempts''\<rparr>
                   else PNack \<lparr>np_Queue = c_Name (q_cfg q1), np_ID = mid, np_VisibleAt = visibleAt\<rparr>)
          in Inr (m, toDLQ, visibleAt, p, q1))"

definition requeue_msg :: "int \<Rightarrow> int \<Rightarrow> ref \<Rightarrow> queue \<Rightarrow> queue" where
  "requeue_msg visibleAt now m q =
     insert_msg m now (q\<lparr>q_store := (q_store q)(m := (q_store q m)\<lparr>m_leaseToken := [],
        m_VisibleAt := visibleAt\<rparr>)\<rparr>)"

definition Nack_finish :: "int \<Rightarrow> ref \<Rightarrow> bool \<Rightarrow> int \<Rightarrow> queue_error option \<Rightarrow> queue \<Rightarrow>
    queue \<times> queue_error option" where
  "Nack_finish clock m toDLQ visibleAt err q =
     (case err of
        Some x \<Rightarrow> (restoreLeased m q, Some x)
      | None \<Rightarrow>
          if toDLQ then (add_cnt (\<lambda>c. c\<lparr>n_dlqMoved := n_dlqMoved c + 1\<rparr>) (moveToDLQ m q), None)
          else (add_cnt (\<lambda>c. c\<lparr>n_nacked := n_nacked c + 1\<rparr>) (requeue_msg visibleAt (unixMilli clock) m q), None))"

section \<open>Maintenance\<close>

lemma lease_pop_shrinks: "lease_pop h = Some (e, h') \<Longrightarrow> length h' < length h"
  unfolding lease_pop_def by (metis heap_Pop_SomeD(2) lessI size_add_mset size_mset)

text \<open>
  The loop over expired leases collects the messages to requeue and those to dead-letter, with
  their entries, and takes them out of the in-flight map; stale entries are dropped.
\<close>

function reclaim :: "int \<Rightarrow> queue \<Rightarrow> (ref \<times> leaseEntry) list \<Rightarrow> (ref \<times> leaseEntry) list \<Rightarrow>
    queue \<times> (ref \<times> leaseEntry) list \<times> (ref \<times> leaseEntry) list" where
  "reclaim now q requeue toDLQ =
     (case lease_peek (q_leases q) of
        None \<Rightarrow> (q, requeue, toDLQ)
      | Some e0 \<Rightarrow>
          if le_expiresAt e0 \<le> now then
            (case lease_pop (q_leases q) of
               None \<Rightarrow> (q, requeue, toDLQ)
             | Some (e, h) \<Rightarrow>
                 let q1 = q\<lparr>q_leases := h\<rparr> in
                 (case gget (q_inflight q1) (le_id e) of
                    None \<Rightarrow> reclaim now q1 requeue toDLQ
                  | Some m \<Rightarrow>
                      if m_leaseToken (q_store q1 m) \<noteq> le_token e then reclaim now q1 requeue toDLQ
                      else let q2 = q1\<lparr>q_inflight := gdel (le_id e) (q_inflight q1)\<rparr> in
                        if m_Attempts (q_store q2 m) \<ge> c_MaxAttempts (q_cfg q2)
                        then reclaim now q2 requeue (toDLQ @ [(m, e)])
                        else reclaim now q2 (requeue @ [(m, e)]) toDLQ))
          else (q, requeue, toDLQ))"
  by pat_completeness auto
termination
  by (relation "measure (\<lambda>(now, q, r, d). length (q_leases q))") (auto dest: lease_pop_shrinks)

declare reclaim.simps [simp del]

definition Maintain_reserve :: "int \<Rightarrow> queue \<Rightarrow>
    queue \<times> (ref \<times> leaseEntry) list \<times> (ref \<times> leaseEntry) list" where
  "Maintain_reserve clock q = (let now = unixMilli clock in reclaim now (promoteDue now q) [] [])"

text \<open>The records of the two appends, each made only when its list is not empty.\<close>

definition expire_payload :: "int \<Rightarrow> (ref \<times> leaseEntry) list \<Rightarrow> queue \<Rightarrow> payload" where
  "expire_payload clock requeue q =
     PLeaseExpire \<lparr>xp_Queue = c_Name (q_cfg q), xp_Items = map (\<lambda>(m, e).
       \<lparr>xi_ID = m_ID (q_store q m), xi_VisibleAt = unixMilli clock\<rparr>) requeue\<rparr>"

definition dlq_payload :: "(ref \<times> leaseEntry) list \<Rightarrow> queue \<Rightarrow> payload" where
  "dlq_payload toDLQ q =
     PDLQMove \<lparr>dp_Queue = c_Name (q_cfg q), dp_IDs = map (\<lambda>(m, e). m_ID (q_store q m)) toDLQ,
       dp_Reason = ''max_attempts''\<rparr>"

definition Maintain_requeued :: "int \<Rightarrow> (ref \<times> leaseEntry) list \<Rightarrow> queue_error option \<Rightarrow> queue \<Rightarrow> queue" where
  "Maintain_requeued clock requeue err q =
     (case err of
        Some x \<Rightarrow> fold (\<lambda>(m, e). restoreLeasedEntry m e) requeue q
      | None \<Rightarrow> fold (\<lambda>(m, e) q. add_cnt (\<lambda>c. c\<lparr>n_expired := n_expired c + 1\<rparr>)
                   (requeue_msg (unixMilli clock) (unixMilli clock) m q)) requeue q)"

definition Maintain_deadlettered :: "(ref \<times> leaseEntry) list \<Rightarrow> queue_error option \<Rightarrow> queue \<Rightarrow> queue" where
  "Maintain_deadlettered toDLQ err q =
     (case err of
        Some x \<Rightarrow> fold (\<lambda>(m, e). restoreLeasedEntry m e) toDLQ q
      | None \<Rightarrow> fold (\<lambda>(m, e) q.
                   add_cnt (\<lambda>c. c\<lparr>n_expired := n_expired c + 1, n_dlqMoved := n_dlqMoved c + 1\<rparr>)
                   (moveToDLQ m q)) toDLQ q)"

definition Maintain_result :: "queue_error option \<Rightarrow> queue_error option \<Rightarrow> queue_error option" where
  "Maintain_result err1 err2 = (case err1 of Some x \<Rightarrow> Some x | None \<Rightarrow> err2)"

section \<open>Snapshots\<close>

record queueStats =
  s_Name :: string
  s_Config :: config
  s_Depth :: nat
  s_Delayed :: nat
  s_InFlight :: nat
  s_DLQ :: nat
  s_Total :: nat
  s_cnt :: counters
  s_OldestAgeMS :: int

definition oldest_of :: "store \<Rightarrow> ref list \<Rightarrow> int" where
  "oldest_of st rs = fold (\<lambda>m oldest.
     if oldest = 0 \<or> m_EnqueuedAt (st m) < oldest then m_EnqueuedAt (st m) else oldest) rs 0"

definition Stats :: "int \<Rightarrow> queue \<Rightarrow> queue \<times> queueStats" where
  "Stats clock q =
     (let now = unixMilli clock; q1 = promoteDue now q;
          oldest = oldest_of (q_store q1) (map snd (q_msgs q1))
      in (q1, \<lparr>s_Name = c_Name (q_cfg q1), s_Config = q_cfg q1,
            s_Depth = length (rh_msgs (q_ready q1)), s_Delayed = length (dh_msgs (q_delayed q1)),
            s_InFlight = length (q_inflight q1), s_DLQ = length (q_dlq q1),
            s_Total = length (q_msgs q1) + length (q_dlq q1), s_cnt = q_cnt q1,
            s_OldestAgeMS = (if oldest \<noteq> 0 then i64 (now - oldest) else 0)\<rparr>))"

definition IDs :: "queue \<Rightarrow> string list" where
  "IDs q = map fst (q_msgs q) @ map (\<lambda>m. m_ID (q_store q m)) (q_dlq q)"

section \<open>The maintenance loop\<close>

definition nextDeadline :: "queue \<Rightarrow> queue \<times> int" where
  "nextDeadline q =
     (let d = (case delayed_peek (q_delayed q) of Some m \<Rightarrow> m_VisibleAt (q_store q m) | None \<Rightarrow> 0);
          next = (case lease_peek (q_leases q) of
                    Some e \<Rightarrow> if d = 0 \<or> le_expiresAt e < d then le_expiresAt e else d
                  | None \<Rightarrow> d)
      in (q\<lparr>q_armed := next\<rparr>, next))"

text \<open>Where the goroutine stands after one turn: blocked without a timer, or with one.\<close>

datatype maintain_wait = WaitWake | WaitTimer int

definition maintain_turn :: "int \<Rightarrow> queue \<Rightarrow> queue \<times> maintain_wait" where
  "maintain_turn clock q =
     (let (q1, next) = nextDeadline q in
      if next = 0 then (q1, WaitWake)
      else (q1, WaitTimer (let delay = next * 1000000 - clock in if delay < 0 then 0 else delay)))"

definition stop :: "queue \<Rightarrow> queue" where
  "stop q = q\<lparr>q_done := True\<rparr>"

section \<open>What each helper changes\<close>

text \<open>The messages that wait or are leased, by reference.\<close>

definition held :: "queue \<Rightarrow> ref multiset" where
  "held q = mset (rh_msgs (q_ready q)) + mset (dh_msgs (q_delayed q)) + mset (map snd (q_inflight q))"

definition due :: "int \<Rightarrow> queue \<Rightarrow> ref \<Rightarrow> bool" where
  "due now q m \<longleftrightarrow> m_VisibleAt (q_store q m) \<le> now"

lemma promoteDue_frame:
  "\<exists>rh dh. promoteDue now q = q\<lparr>q_ready := rh, q_delayed := dh\<rparr> \<and>
     rh_lifo rh = rh_lifo (q_ready q) \<and> dh_lifo dh = dh_lifo (q_delayed q) \<and>
     mset (rh_msgs rh) + mset (dh_msgs dh) = mset (rh_msgs (q_ready q)) + mset (dh_msgs (q_delayed q)) \<and>
     (ready_inv (q_store q) (q_ready q) \<longrightarrow> ready_inv (q_store q) rh) \<and>
     (delayed_inv (q_store q) (q_delayed q) \<longrightarrow> delayed_inv (q_store q) dh \<and>
        mset (rh_msgs rh) = mset (rh_msgs (q_ready q)) + filter_mset (due now q) (mset (dh_msgs (q_delayed q))) \<and>
        mset (dh_msgs dh) = filter_mset (\<lambda>m. \<not> due now q m) (mset (dh_msgs (q_delayed q))))"
proof (induction now q rule: promoteDue.induct)
  case (1 now q)
  let ?stop = "delayed_peek (q_delayed q) = None \<or>
     (\<exists>m. delayed_peek (q_delayed q) = Some m \<and> m_VisibleAt (q_store q m) > now)"
  show ?case
  proof (cases ?stop)
    case True
    then have e: "promoteDue now q = q\<lparr>q_ready := q_ready q, q_delayed := q_delayed q\<rparr>"
      by (auto simp: promoteDue.simps [of now q] delayed_peek_def)
    have "\<not> due now q x" if "delayed_inv (q_store q) (q_delayed q)" "x \<in> set (dh_msgs (q_delayed q))" for x
      using True delayed_peek_earliest [OF that(1) _ that(2)] that(2) by (fastforce simp: due_def)
    then have "delayed_inv (q_store q) (q_delayed q) \<Longrightarrow>
        filter_mset (due now q) (mset (dh_msgs (q_delayed q))) = {#} \<and>
        filter_mset (\<lambda>m. \<not> due now q m) (mset (dh_msgs (q_delayed q))) = mset (dh_msgs (q_delayed q))"
      by (simp add: filter_empty_conv filter_id_conv flip: mset_filter)
    then show ?thesis
      using e by (intro exI [of _ "q_ready q"] exI [of _ "q_delayed q"]) auto
  next
    case False
    then obtain m where pk: "delayed_peek (q_delayed q) = Some m" and d: "m_VisibleAt (q_store q m) \<le> now"
      by (cases "delayed_peek (q_delayed q)") (auto simp del: delayed_peek_None simp: not_less)
    have "dh_msgs (q_delayed q) \<noteq> []" using pk by (auto simp: delayed_peek_def split: if_splits)
    then obtain m' dh where pop: "delayed_pop (q_store q) (q_delayed q) = Some (m', dh)"
      by (metis delayed_pop_None not_Some_eq surj_pair)
    have m': "m' = m" using delayed_pop_SomeD(5) [OF pop] pk by (simp add: delayed_peek_def split: if_splits)
    let ?q1 = "q\<lparr>q_delayed := dh, q_ready := ready_push (q_store q) m (q_ready q)\<rparr>"
    have e: "promoteDue now q = promoteDue now ?q1"
      using pk d pop m' by (simp add: promoteDue.simps [of now q])
    have due1: "due now ?q1 = due now q" by (simp add: due_def fun_eq_iff)
    have "due now q m" using d by (simp add: due_def)
    with 1 [OF pk _ pop refl] d show ?thesis
      unfolding e m' due1
      using delayed_pop_SomeD(1-3) [OF pop] ready_inv_push [of "q_store q" "q_ready q" m] m'
      by auto
  qed
qed

lemma promoteDue_exE:
  obtains rh dh where "promoteDue now q = q\<lparr>q_ready := rh, q_delayed := dh\<rparr>"
    "rh_lifo rh = rh_lifo (q_ready q)" "dh_lifo dh = dh_lifo (q_delayed q)"
    "mset (rh_msgs rh) + mset (dh_msgs dh) = mset (rh_msgs (q_ready q)) + mset (dh_msgs (q_delayed q))"
    "ready_inv (q_store q) (q_ready q) \<Longrightarrow> ready_inv (q_store q) rh"
    "delayed_inv (q_store q) (q_delayed q) \<Longrightarrow> delayed_inv (q_store q) dh"
  using promoteDue_frame [of now q] by blast

end
