(* ===== verification/QueueInv.thy ===== *)
theory QueueInv
  imports Queue
begin

text \<open>
  The ownership invariant of a queue and its preservation by the parts of every operation.

  A message cell is, at any moment, in exactly one place: the ready heap, the delayed heap, the
  in-flight map, the dead-letter list, or the hands of one operation whose record is being
  appended. \<open>q_ok q T N\<close> says so for a queue whose operations under way hold the live messages \<open>T\<close>
  and the new, not yet visible messages \<open>N\<close>; the lemmas say how each part moves messages between
  the places.
\<close>

section \<open>Values of a map\<close>

lemma mset_gdel: "gwf m \<Longrightarrow> gget m k = Some v \<Longrightarrow> image_mset snd (mset m) = add_mset v (image_mset snd (mset (gdel k m)))"
proof (induction m)
  case (Cons p m)
  obtain k' v' where p: "p = (k', v')" by (cases p)
  show ?case
  proof (cases "k' = k")
    case True
    then have "k \<notin> fst ` set m" using Cons.prems(1) p by (simp add: gwf_def)
    then have "gdel k m = m" by (simp add: gdel_def delete_id)
    then show ?thesis using Cons.prems p True by (simp add: gdel_def gget_def)
  next
    case False
    then have "gwf m" "gget m k = Some v" using Cons.prems p by (simp_all add: gwf_def gget_def)
    then show ?thesis using Cons.IH p False by (simp add: gdel_def)
  qed
qed simp

lemma mset_gput: "gget m k = None \<Longrightarrow> image_mset snd (mset (gput k v m)) = add_mset v (image_mset snd (mset m))"
  by (induction m) (auto simp: gput_def gget_def split: if_splits)

lemma gput_same: "gget m k = Some v \<Longrightarrow> gput k v m = m"
  by (induction m) (auto simp: gput_def gget_def split: if_splits)

lemma gget_vals: "gget m k = Some v \<Longrightarrow> v \<in> snd ` set m"
  by (force simp: gget_def dest: map_of_SomeD)

lemma add_le_of_bool: "x + a + y \<le> of_bool P \<Longrightarrow> 0 < a \<Longrightarrow> x = 0 \<and> y = 0 \<and> P" for x a y :: nat
  by (cases P) auto

lemma count_of_bool:
  assumes "\<And>m. count (mset xs) m \<le> of_bool (P m)"
  shows "distinct xs \<and> (\<forall>x \<in> set xs. P x)"
proof -
  have c: "x \<in> set xs \<Longrightarrow> count (mset xs) x = 1 \<and> P x" for x
    using assms [of x] by (cases "P x") (auto simp: le_Suc_eq count_eq_zero_iff)
  then have "count (mset xs) x = (if x \<in> set xs then 1 else 0)" for x by simp
  then show ?thesis using c by (simp add: distinct_count_atmost_1)
qed

lemma queue_upd_order:
  "q\<lparr>q_msgs := ms, q_store := st\<rparr> = q\<lparr>q_store := st, q_msgs := ms\<rparr>"
  "q\<lparr>q_seq := sq, q_store := st\<rparr> = q\<lparr>q_store := st, q_seq := sq\<rparr>"
  "q\<lparr>q_seq := sq, q_next := n\<rparr> = q\<lparr>q_next := n, q_seq := sq\<rparr>"
  by simp_all

section \<open>The invariant\<close>

definition q_ok :: "queue \<Rightarrow> ref multiset \<Rightarrow> ref multiset \<Rightarrow> bool" where
  "q_ok q T N \<longleftrightarrow>
     gwf (q_msgs q) \<and> gwf (q_inflight q) \<and>
     (\<forall>i r. gget (q_msgs q) i = Some r \<longrightarrow> m_ID (q_store q r) = i) \<and>
     (\<forall>i r. gget (q_inflight q) i = Some r \<longrightarrow> m_ID (q_store q r) = i) \<and>
     mset (map snd (q_msgs q)) = held q + T \<and>
     (\<forall>r. count (held q + T + N + mset (q_dlq q)) r \<le> of_bool (r < q_next q)) \<and>
     inj_on (\<lambda>r. m_ID (q_store q r)) {..<q_next q} \<and>
     ready_inv (q_store q) (q_ready q) \<and> delayed_inv (q_store q) (q_delayed q) \<and>
     heap_inv lease_Less (q_leases q) \<and>
     rh_lifo (q_ready q) = (c_Mode (q_cfg q) = LIFO) \<and> dh_lifo (q_delayed q) = (c_Mode (q_cfg q) = LIFO)"

lemma q_ok_vals: "q_ok q T N \<Longrightarrow> snd ` set (q_msgs q) = set_mset (held q + T)"
  unfolding q_ok_def by (metis set_map set_mset_mset)

lemma q_ok_frame [simp]:
  "q_ok (q\<lparr>q_cnt := c\<rparr>) T N = q_ok q T N" "q_ok (q\<lparr>q_wake := b\<rparr>) T N = q_ok q T N"
  "q_ok (q\<lparr>q_armed := i\<rparr>) T N = q_ok q T N" "q_ok (q\<lparr>q_done := b\<rparr>) T N = q_ok q T N"
  "q_ok (q\<lparr>q_entries := en\<rparr>) T N = q_ok q T N" "q_ok (q\<lparr>q_nextEntry := n\<rparr>) T N = q_ok q T N"
  "q_ok (q\<lparr>q_dedup := dd\<rparr>) T N = q_ok q T N" "q_ok (q\<lparr>q_seq := sq\<rparr>) T N = q_ok q T N"
  by (simp_all add: q_ok_def held_def)

lemma q_ok_add_cnt [simp]: "q_ok (add_cnt f q) T N = q_ok q T N"
  by (simp add: add_cnt_def)

lemma q_ok_wakeIfSooner [simp]: "q_ok (wakeIfSooner d q) T N = q_ok q T N"
  by (simp add: wakeIfSooner_def)

lemma q_ok_close_entry [simp]: "q_ok (close_entry e q) T N = q_ok q T N"
  by (simp add: close_entry_def split: option.split)

lemma q_ok_newQueue [inv_intros]: "q_ok (newQueue cfg) {#} {#}"
  by (simp add: q_ok_def held_def newQueue_def ready_inv_def delayed_inv_def heap_inv_def)

lemma q_ok_promoteDue [inv_intros]:
  assumes "q_ok q T N" shows "q_ok (promoteDue now q) T N"
proof -
  obtain rh dh where e: "promoteDue now q = q\<lparr>q_ready := rh, q_delayed := dh\<rparr>"
    "rh_lifo rh = rh_lifo (q_ready q)" "dh_lifo dh = dh_lifo (q_delayed q)"
    "mset (rh_msgs rh) + mset (dh_msgs dh) = mset (rh_msgs (q_ready q)) + mset (dh_msgs (q_delayed q))"
    "ready_inv (q_store q) rh" "delayed_inv (q_store q) dh"
    using assms by (metis promoteDue_exE q_ok_def)
  then show ?thesis using assms by (simp add: q_ok_def held_def)
qed

text \<open>What a message in an operation's hands is not.\<close>

lemma q_ok_taken:
  assumes "q_ok q T N" "m \<in># T + N"
  shows "m \<notin> set (rh_msgs (q_ready q))" "m \<notin> set (dh_msgs (q_delayed q))" "m < q_next q"
    "gget (q_inflight q) (m_ID (q_store q m)) = None" "m \<notin> set (q_dlq q)"
proof -
  have c: "\<forall>r. count (held q + T + N + mset (q_dlq q)) r \<le> of_bool (r < q_next q)"
    using assms(1) by (simp add: q_ok_def)
  have t: "0 < count (T + N) m" using assms(2) by simp
  have sum: "count (held q) m + count (T + N) m + count (mset (q_dlq q)) m \<le> of_bool (m < q_next q)"
    using c [rule_format, of m] by simp
  from add_le_of_bool [OF this t]
  have zero: "count (held q) m = 0" "count (mset (q_dlq q)) m = 0" and lt: "m < q_next q" by simp_all
  show "m < q_next q" by (fact lt)
  show "m \<notin> set (rh_msgs (q_ready q))" "m \<notin> set (dh_msgs (q_delayed q))" "m \<notin> set (q_dlq q)"
    using zero by (auto simp: held_def count_eq_zero_iff)
  show "gget (q_inflight q) (m_ID (q_store q m)) = None"
  proof (rule ccontr)
    assume "gget (q_inflight q) (m_ID (q_store q m)) \<noteq> None"
    then obtain r where r: "gget (q_inflight q) (m_ID (q_store q m)) = Some r" by blast
    then have i: "m_ID (q_store q r) = m_ID (q_store q m)" using assms(1) by (simp add: q_ok_def)
    have "r \<in> snd ` set (q_inflight q)" using gget_vals [OF r] .
    then have h: "0 < count (held q) r" by (auto simp: held_def image_image)
    then have "r < q_next q" using c [rule_format, of r] by (cases "r < q_next q") (auto simp: count_eq_zero_iff)
    then have "r = m" using i lt assms(1) by (auto simp: q_ok_def dest: inj_onD)
    then show False using h zero by simp
  qed
qed

section \<open>Moves\<close>

lemma q_ok_upd:
  assumes "q_ok q T N" "m \<in># T + N" "m_ID x = m_ID (q_store q m)"
  shows "q_ok (q\<lparr>q_store := (q_store q)(m := x)\<rparr>) T N"
proof -
  have i: "(\<lambda>r. m_ID (((q_store q)(m := x)) r)) = (\<lambda>r. m_ID (q_store q r))"
    using assms(3) by (auto simp: fun_eq_iff)
  then have i': "m_ID (((q_store q)(m := x)) r) = m_ID (q_store q r)" for r by meson
  show ?thesis
    using assms(1) q_ok_taken [OF assms(1,2)]
    by (simp add: q_ok_def held_def ready_inv_upd delayed_inv_upd i i' del: fun_upd_apply)
qed

lemma q_ok_take:
  assumes "q_ok q T N" "gget (q_inflight q) i = Some m"
  shows "q_ok (q\<lparr>q_inflight := gdel i (q_inflight q)\<rparr>) (add_mset m T) N"
proof -
  have "gwf (q_inflight q)" using assms(1) by (simp add: q_ok_def)
  from mset_gdel [OF this assms(2)]
  have "image_mset snd (mset (q_inflight q)) = add_mset m (image_mset snd (mset (gdel i (q_inflight q))))" .
  then show ?thesis using assms(1) by (simp add: q_ok_def held_def)
qed

lemma q_ok_restore:
  assumes "q_ok q (add_mset m T) N"
  shows "q_ok (q\<lparr>q_inflight := gput (m_ID (q_store q m)) m (q_inflight q)\<rparr>) T N"
proof -
  have "gget (q_inflight q) (m_ID (q_store q m)) = None" using q_ok_taken(4) [OF assms] by simp
  note mset_gput [OF this, of m]
  then show ?thesis using assms by (simp add: q_ok_def held_def)
qed

lemma q_ok_ready:
  assumes "q_ok q (add_mset m T) N"
  shows "q_ok (q\<lparr>q_ready := ready_push (q_store q) m (q_ready q)\<rparr>) T N"
  using assms by (simp add: q_ok_def held_def ready_inv_push)

lemma q_ok_delayed:
  assumes "q_ok q (add_mset m T) N"
  shows "q_ok (q\<lparr>q_delayed := delayed_push (q_store q) m (q_delayed q)\<rparr>) T N"
  using assms by (simp add: q_ok_def held_def delayed_inv_push)

lemma q_ok_popped:
  assumes "q_ok q T N" "pop_upto (ready_pop (q_store q)) n (q_ready q) = (picked, rh)"
  shows "q_ok (q\<lparr>q_ready := rh\<rparr>) (T + mset picked) N"
proof -
  have i: "ready_inv (q_store q) (q_ready q)" using assms(1) by (simp add: q_ok_def)
  from readyq.pop_upto_spec [OF _ assms(2), of "rh_lifo (q_ready q)"] i
  have "mset (rh_msgs (q_ready q)) = mset picked + mset (rh_msgs rh)" "ready_inv (q_store q) rh"
    "rh_lifo rh = rh_lifo (q_ready q)" by auto
  then show ?thesis using assms(1) by (simp add: q_ok_def held_def ac_simps)
qed

text \<open>A live message is registered under its own identifier.\<close>

lemma q_ok_registered:
  assumes "q_ok q (add_mset m T) N"
  shows "gget (q_msgs q) (m_ID (q_store q m)) = Some m"
proof -
  have "m \<in># mset (map snd (q_msgs q))" using assms by (simp add: q_ok_def)
  then obtain i where "(i, m) \<in> set (q_msgs q)" by auto
  then have "gget (q_msgs q) i = Some m" using assms by (simp add: gget_iff q_ok_def)
  then show ?thesis using assms by (auto simp: q_ok_def)
qed

lemma q_ok_unregistered:
  assumes "q_ok q T (add_mset m N)"
  shows "gget (q_msgs q) (m_ID (q_store q m)) = None"
proof (rule ccontr)
  assume "\<not> ?thesis"
  then obtain r where r: "gget (q_msgs q) (m_ID (q_store q m)) = Some r" by blast
  then have i: "m_ID (q_store q r) = m_ID (q_store q m)" using assms by (simp add: q_ok_def)
  have c: "\<forall>r. count (held q + T + add_mset m N + mset (q_dlq q)) r \<le> of_bool (r < q_next q)"
    using assms by (simp add: q_ok_def)
  have "r \<in># held q + T" using gget_vals [OF r] q_ok_vals [OF assms] by simp
  then have h: "0 < count (held q + T) r" by simp
  have "0 + count (held q + T) r + count (add_mset m N + mset (q_dlq q)) r \<le> of_bool (r < q_next q)"
    using c [rule_format, of r] by (simp only: count_union add.assoc add_0)
  from add_le_of_bool [OF this h] have "r < q_next q" "r \<noteq> m" by (auto split: if_splits)
  moreover have "m < q_next q" using q_ok_taken(3) [OF assms] by simp
  ultimately show False using i assms by (auto simp: q_ok_def dest: inj_onD)
qed

lemma q_ok_publish:
  assumes "q_ok q T (add_mset m N)"
  shows "q_ok (q\<lparr>q_msgs := gput (m_ID (q_store q m)) m (q_msgs q)\<rparr>) (add_mset m T) N"
proof -
  note mset_gput [OF q_ok_unregistered [OF assms], of m]
  then show ?thesis using assms by (simp add: q_ok_def held_def)
qed

lemma q_ok_drop:
  assumes "q_ok q (add_mset m T) N"
  shows "q_ok (q\<lparr>q_msgs := gdel (m_ID (q_store q m)) (q_msgs q)\<rparr>) T N"
    and "q_ok (q\<lparr>q_msgs := gdel (m_ID (q_store q m)) (q_msgs q), q_dlq := q_dlq q @ [m]\<rparr>) T N"
proof -
  have "gwf (q_msgs q)" using assms by (simp add: q_ok_def)
  note e = mset_gdel [OF this q_ok_registered [OF assms]]
  have c: "count (held q + T + N + mset (q_dlq q)) r \<le> of_bool (r < q_next q)" for r
  proof -
    have "count (held q + add_mset m T + N + mset (q_dlq q)) r \<le> of_bool (r < q_next q)"
      using assms by (simp only: q_ok_def)
    then show ?thesis by (cases "r = m") (simp_all del: of_bool_eq_iff)
  qed
  show "q_ok (q\<lparr>q_msgs := gdel (m_ID (q_store q m)) (q_msgs q)\<rparr>) T N"
    using assms e c by (simp add: q_ok_def held_def)
  show "q_ok (q\<lparr>q_msgs := gdel (m_ID (q_store q m)) (q_msgs q), q_dlq := q_dlq q @ [m]\<rparr>) T N"
    using assms e by (simp add: q_ok_def held_def)
qed

lemma q_ok_lease_push: "q_ok q T N \<Longrightarrow> q_ok (q\<lparr>q_leases := lease_push e (q_leases q)\<rparr>) T N"
  by (simp add: q_ok_def held_def lease_push_def lease.heap_inv_Push)

lemma q_ok_lease_pop: "q_ok q T N \<Longrightarrow> lease_pop (q_leases q) = Some (e, h) \<Longrightarrow> q_ok (q\<lparr>q_leases := h\<rparr>) T N"
  by (auto simp: q_ok_def held_def lease_pop_def intro: lease.heap_inv_Pop)

lemma q_ok_alloc:
  assumes "q_ok q T N" "\<forall>r < q_next q. m_ID (q_store q r) \<noteq> m_ID x"
  shows "q_ok (q\<lparr>q_store := (q_store q)(q_next q := x), q_next := q_next q + 1\<rparr>) T (add_mset (q_next q) N)"
proof -
  let ?n = "q_next q"
  have c: "count (held q + T + N + mset (q_dlq q)) r \<le> of_bool (r < ?n)" for r
    using assms(1) by (simp add: q_ok_def)
  have z: "count (held q + T + N + mset (q_dlq q)) ?n = 0" using c [of ?n] by simp
  have old: "r \<noteq> ?n" if "r \<in># held q + T" for r
    using z that by (auto simp: count_eq_zero_iff)
  have "m_ID (q_store q r) = i \<and> r \<noteq> ?n" if "gget (q_msgs q) i = Some r" for i r
  proof -
    have "r \<in># held q + T" using gget_vals [OF that] q_ok_vals [OF assms(1)] by simp
    then show ?thesis using old that assms(1) by (auto simp: q_ok_def)
  qed
  moreover have "m_ID (q_store q r) = i \<and> r \<noteq> ?n" if "gget (q_inflight q) i = Some r" for i r
  proof -
    have "r \<in># held q" using gget_vals [OF that] by (auto simp: held_def image_image)
    then show ?thesis using old that assms(1) by (auto simp: q_ok_def)
  qed
  moreover have "?n \<notin> set (rh_msgs (q_ready q))" "?n \<notin> set (dh_msgs (q_delayed q))"
    using old [of ?n] by (auto simp: held_def)
  moreover have "inj_on (\<lambda>r. m_ID (((q_store q)(?n := x)) r)) {..<Suc ?n}"
  proof -
    have "inj_on (\<lambda>r. m_ID (q_store q r)) {..<?n}" using assms(1) by (simp add: q_ok_def)
    then show ?thesis using assms(2) by (auto simp: inj_on_def less_Suc_eq)
  qed
  moreover have "count (held q + T + add_mset ?n N + mset (q_dlq q)) r \<le> of_bool (r < Suc ?n)" for r
    using c [of r] z by (cases "r = ?n"; cases "r < ?n") auto
  ultimately show ?thesis
    using assms(1) by (simp add: q_ok_def held_def ready_inv_upd delayed_inv_upd)
qed

lemma q_ok_forget:
  assumes "q_ok q T (add_mset m N)" shows "q_ok q T N"
proof -
  have "count (held q + T + N + mset (q_dlq q)) r \<le> of_bool (r < q_next q)" for r
  proof -
    have "count (held q + T + add_mset m N + mset (q_dlq q)) r \<le> of_bool (r < q_next q)"
      using assms by (simp only: q_ok_def)
    then show ?thesis by (cases "r = m") (simp_all del: of_bool_eq_iff)
  qed
  then show ?thesis using assms by (simp add: q_ok_def)
qed

section \<open>Operations\<close>

lemma insert_msg_live:
  assumes "q_ok q (add_mset m T) N" shows "q_ok (insert_msg m now q) T N"
proof -
  have e: "q\<lparr>q_msgs := gput (m_ID (q_store q m)) m (q_msgs q)\<rparr> = q"
    using gput_same [OF q_ok_registered [OF assms]] by simp
  show ?thesis
    using q_ok_delayed [OF assms] q_ok_ready [OF assms]
    by (simp add: insert_msg_def Let_def e)
qed

lemma insert_msg_new:
  assumes "q_ok q T (add_mset m N)" shows "q_ok (insert_msg m now q) T N"
  using q_ok_delayed [OF q_ok_publish [OF assms]] q_ok_ready [OF q_ok_publish [OF assms]]
  by (simp add: insert_msg_def Let_def)

lemma q_ok_Enqueue_reserve:
  assumes "q_ok q T N" "\<forall>r < q_next q. m_ID (q_store q r) \<noteq> newID"
    "Enqueue_reserve clock newID body priority delay dedupKey q = (q', r)"
  shows "case r of EnqDuplicate e \<Rightarrow> q_ok q' T N | EnqAppend m e p \<Rightarrow> q_ok q' T (add_mset m N)"
proof -
  have al: "q_ok (q\<lparr>q_store := (q_store q)(q_next q := x), q_next := q_next q + 1\<rparr>) T (add_mset (q_next q) N)"
    if "m_ID x = newID" for x
    using q_ok_alloc [OF assms(1), of x] assms(2) that by simp
  have al': "q_ok (q\<lparr>q_seq := s, q_store := (q_store q)(q_next q := x), q_next := Suc (q_next q)\<rparr>) T (add_mset (q_next q) N)"
    if "m_ID x = newID" for x s
    using al [OF that] by (simp add: queue_upd_order)
  show ?thesis
    using assms(3) al' assms(1)
    by (auto simp: Enqueue_reserve_def Let_def split: option.splits if_splits enqueue_start.split)
qed

lemma q_ok_Enqueue_finish:
  assumes "q_ok q T (add_mset m N)" "Enqueue_finish clock m entry dedupKey err q = (q', res)"
  shows "q_ok q' T N"
  using assms insert_msg_new [OF assms(1)] q_ok_forget [OF assms(1)]
  by (auto simp: Enqueue_finish_def Let_def split: option.splits)

lemma q_ok_tryDequeue_reserve:
  assumes "q_ok q T N" "tryDequeue_reserve clock tok n q = (q', r)"
  shows "case r of None \<Rightarrow> q_ok q' T N | Some (picked, p) \<Rightarrow> q_ok q' (T + mset picked) N"
proof -
  let ?q1 = "promoteDue (unixMilli clock) q"
  obtain picked rh where p: "pop_upto (ready_pop (q_store ?q1)) (nat n) (q_ready ?q1) = (picked, rh)"
    by fastforce
  have "q_ok (?q1\<lparr>q_ready := rh\<rparr>) (T + mset picked) N"
    using q_ok_popped [OF q_ok_promoteDue [OF assms(1)] p] .
  then show ?thesis
    using assms(2) by (auto simp: tryDequeue_reserve_def Let_def p split: if_splits)
qed

lemma q_ok_lease_one:
  assumes "q_ok q (add_mset m T) N" shows "q_ok (lease_one expires (m, it) q) T N"
proof -
  let ?msg = "(q_store q m)\<lparr>m_Attempts := li_Attempts it, m_leaseToken := li_Token it, m_leaseExpires := expires\<rparr>"
  have "q_ok (q\<lparr>q_store := (q_store q)(m := ?msg)\<rparr>) (add_mset m T) N"
    using q_ok_upd [OF assms, of m ?msg] by simp
  from q_ok_lease_push [OF q_ok_restore [OF this]] show ?thesis
    by (simp add: lease_one_def Let_def)
qed

lemma q_ok_lease_all:
  "q_ok q (T + mset (map fst xs)) N \<Longrightarrow> lease_all expires xs q = (q', ds) \<Longrightarrow> q_ok q' T N"
proof (induction xs arbitrary: q ds)
  case (Cons x xs)
  obtain m it where x: "x = (m, it)" by (cases x)
  have "q_ok (lease_one expires x q) (T + mset (map fst xs)) N"
    using q_ok_lease_one [of q m "T + mset (map fst xs)" N] Cons.prems(1) x by simp
  then show ?case using Cons.IH Cons.prems(2) by (auto simp: Let_def split: prod.splits)
qed simp

lemma q_ok_unpick:
  "q_ok q (T + mset picked) N \<Longrightarrow>
     q_ok (fold (\<lambda>m q. q\<lparr>q_ready := ready_push (q_store q) m (q_ready q)\<rparr>) picked q) T N"
proof (induction picked arbitrary: q)
  case (Cons m ms)
  then show ?case using q_ok_ready [of q m "T + mset ms" N] by simp
qed simp

lemma q_ok_tryDequeue_finish:
  assumes "q_ok q (T + mset picked) N" "length (lp_Items p) = length picked"
    "tryDequeue_finish picked p err q = (q', res)"
  shows "q_ok q' T N"
proof (cases err)
  case (Some x)
  then show ?thesis using assms(3) q_ok_unpick [OF assms(1)] by (auto simp: tryDequeue_finish_def)
next
  case None
  obtain q1 out where l: "lease_all (lp_ExpiresAt p) (zip picked (lp_Items p)) q = (q1, out)" by fastforce
  have "q_ok q1 T N"
    using q_ok_lease_all [OF _ l, of T N] assms(1,2) by (simp add: map_fst_zip del: mset_map)
  then show ?thesis using assms(3) None l by (auto simp: tryDequeue_finish_def Let_def)
qed

lemma takeLeased_InrD:
  assumes "takeLeased mid token q = Inr (m, q')"
  shows "gget (q_inflight q) mid = Some m" "m_leaseToken (q_store q m) = token"
    "q' = q\<lparr>q_inflight := gdel mid (q_inflight q)\<rparr>"
  using assms by (auto simp: takeLeased_def split: option.splits if_splits)

lemma q_ok_inflight_id: "q_ok q T N \<Longrightarrow> gget (q_inflight q) i = Some r \<Longrightarrow> m_ID (q_store q r) = i"
  by (simp add: q_ok_def)

lemma q_ok_takeLeased:
  "q_ok q T N \<Longrightarrow> takeLeased mid token q = Inr (m, q') \<Longrightarrow>
     q_ok q' (add_mset m T) N \<and> m_ID (q_store q' m) = mid"
  using q_ok_take [of q T N mid m] takeLeased_InrD [of mid token q m q'] q_ok_inflight_id [of q T N mid m]
  by simp

lemma q_ok_restoreLeased: "q_ok q (add_mset m T) N \<Longrightarrow> q_ok (restoreLeased m q) T N"
  by (simp add: restoreLeased_def q_ok_restore)

lemma q_ok_restoreLeasedEntry: "q_ok q (add_mset m T) N \<Longrightarrow> q_ok (restoreLeasedEntry m e q) T N"
  using q_ok_lease_push [OF q_ok_restore [of q m T N]] by (simp add: restoreLeasedEntry_def)

lemma q_ok_untoken:
  assumes "q_ok q (add_mset m T) N"
  shows "q_ok (q\<lparr>q_store := (q_store q)(m := (q_store q m)\<lparr>m_leaseToken := []\<rparr>)\<rparr>) (add_mset m T) N"
  using q_ok_upd [OF assms, of m "(q_store q m)\<lparr>m_leaseToken := []\<rparr>"] by simp

lemma q_ok_moveToDLQ:
  assumes "q_ok q (add_mset m T) N" shows "q_ok (moveToDLQ m q) T N"
  using q_ok_drop [OF q_ok_untoken [OF assms]] by (simp add: moveToDLQ_def Let_def queue_upd_order)

lemma q_ok_Ack_finish:
  assumes "q_ok q (add_mset m T) N" "m_ID (q_store q m) = mid" "Ack_finish mid m err q = (q', res)"
  shows "q_ok q' T N"
  using assms(2,3) q_ok_restoreLeased [OF assms(1)] q_ok_drop(1) [OF q_ok_untoken [OF assms(1)]]
  by (auto simp: Ack_finish_def queue_upd_order split: option.splits)

lemma q_ok_requeue_msg:
  assumes "q_ok q (add_mset m T) N" shows "q_ok (requeue_msg v now m q) T N"
proof -
  have "q_ok (q\<lparr>q_store := (q_store q)(m := (q_store q m)\<lparr>m_leaseToken := [], m_VisibleAt := v\<rparr>)\<rparr>)
      (add_mset m T) N"
    using q_ok_upd [OF assms, of m "(q_store q m)\<lparr>m_leaseToken := [], m_VisibleAt := v\<rparr>"] by simp
  from insert_msg_live [OF this] show ?thesis by (simp add: requeue_msg_def)
qed

lemma q_ok_Nack_finish:
  assumes "q_ok q (add_mset m T) N" "Nack_finish clock m toDLQ v err q = (q', res)"
  shows "q_ok q' T N"
  using assms(2) q_ok_restoreLeased [OF assms(1)] q_ok_moveToDLQ [OF assms(1)] q_ok_requeue_msg [OF assms(1)]
  by (auto simp: Nack_finish_def split: option.splits if_splits)

text \<open>The turns of the loop over expired leases.\<close>

lemma reclaim_cases:
  obtains
    (stop) "reclaim now q rq dl = (q, rq, dl)"
      "lease_peek (q_leases q) = None \<or> (\<exists>e. lease_peek (q_leases q) = Some e \<and> now < le_expiresAt e)"
  | (stale) e h where "lease_pop (q_leases q) = Some (e, h)" "le_expiresAt e \<le> now"
      "\<forall>m. gget (q_inflight q) (le_id e) = Some m \<longrightarrow> m_leaseToken (q_store q m) \<noteq> le_token e"
      "reclaim now q rq dl = reclaim now (q\<lparr>q_leases := h\<rparr>) rq dl"
  | (dead) e h m where "lease_pop (q_leases q) = Some (e, h)" "le_expiresAt e \<le> now"
      "gget (q_inflight q) (le_id e) = Some m" "m_leaseToken (q_store q m) = le_token e"
      "m_Attempts (q_store q m) \<ge> c_MaxAttempts (q_cfg q)"
      "reclaim now q rq dl =
         reclaim now (q\<lparr>q_leases := h, q_inflight := gdel (le_id e) (q_inflight q)\<rparr>) rq (dl @ [(m, e)])"
  | (again) e h m where "lease_pop (q_leases q) = Some (e, h)" "le_expiresAt e \<le> now"
      "gget (q_inflight q) (le_id e) = Some m" "m_leaseToken (q_store q m) = le_token e"
      "\<not> m_Attempts (q_store q m) \<ge> c_MaxAttempts (q_cfg q)"
      "reclaim now q rq dl =
         reclaim now (q\<lparr>q_leases := h, q_inflight := gdel (le_id e) (q_inflight q)\<rparr>) (rq @ [(m, e)]) dl"
proof (cases "lease_peek (q_leases q)")
  case None
  then show ?thesis using stop by (simp add: reclaim.simps [of now q])
next
  case (Some e0)
  then have ne: "q_leases q \<noteq> []" by (auto simp: lease_peek_def split: if_splits)
  then obtain e h where pop: "lease_pop (q_leases q) = Some (e, h)"
    by (metis heap_Pop_None lease_pop_def not_Some_eq surj_pair)
  then have e0: "e0 = e" using Some heap_Pop_SomeD(1) by (fastforce simp: lease_pop_def lease_peek_def split: if_splits)
  show ?thesis
  proof (cases "le_expiresAt e \<le> now")
    case False
    then show ?thesis using stop Some e0 by (simp add: reclaim.simps [of now q])
  next
    case True
    note eq = reclaim.simps [of now q rq dl, unfolded Some e0 option.case if_P [OF True] pop prod.case Let_def]
    show ?thesis
    proof (cases "gget (q_inflight q) (le_id e)")
      case None
      then show ?thesis using stale [OF pop True] eq by simp
    next
      case (Some m)
      then show ?thesis
        using stale [OF pop True] dead [OF pop True Some] again [OF pop True Some] eq
        by (cases "m_leaseToken (q_store q m) = le_token e";
            cases "m_Attempts (q_store q m) \<ge> c_MaxAttempts (q_cfg q)") simp_all
    qed
  qed
qed

lemma reclaim_induct [case_names turn]:
  assumes "\<And>q rq dl. (\<And>q' rq' dl'. length (q_leases q') < length (q_leases q) \<Longrightarrow> P q' rq' dl') \<Longrightarrow> P q rq dl"
  shows "P q rq dl"
  by (induction "length (q_leases q)" arbitrary: q rq dl rule: less_induct) (blast intro: assms)

lemma q_ok_reclaim:
  "q_ok q (T + mset (map fst rq) + mset (map fst dl)) N \<Longrightarrow> reclaim now q rq dl = (q', rq', dl') \<Longrightarrow>
     q_ok q' (T + mset (map fst rq') + mset (map fst dl')) N"
proof (induction q rq dl rule: reclaim_induct)
  case (turn q rq dl)
  show ?case
  proof (cases rule: reclaim_cases [of now q rq dl, case_names stop stale dead again])
    case stop
    then show ?thesis using turn.prems by simp
  next
    case (stale e h)
    show ?thesis
      using turn.IH [OF _ q_ok_lease_pop [OF turn.prems(1) stale(1)]] turn.prems(2) stale(4)
        lease_pop_shrinks [OF stale(1)] by simp
  next
    case (dead e h m)
    have "q_ok (q\<lparr>q_leases := h, q_inflight := gdel (le_id e) (q_inflight q)\<rparr>)
        (T + mset (map fst rq) + mset (map fst (dl @ [(m, e)]))) N"
      using q_ok_take [OF q_ok_lease_pop [OF turn.prems(1) dead(1)], of "le_id e" m] dead(3) by simp
    from turn.IH [OF _ this] show ?thesis using turn.prems(2) dead(6) lease_pop_shrinks [OF dead(1)] by simp
  next
    case (again e h m)
    have "q_ok (q\<lparr>q_leases := h, q_inflight := gdel (le_id e) (q_inflight q)\<rparr>)
        (T + mset (map fst (rq @ [(m, e)])) + mset (map fst dl)) N"
      using q_ok_take [OF q_ok_lease_pop [OF turn.prems(1) again(1)], of "le_id e" m] again(3) by simp
    from turn.IH [OF _ this] show ?thesis using turn.prems(2) again(6) lease_pop_shrinks [OF again(1)] by simp
  qed
qed

lemma q_ok_Maintain_reserve:
  "q_ok q T N \<Longrightarrow> Maintain_reserve clock q = (q', rq, dl) \<Longrightarrow>
     q_ok q' (T + mset (map fst rq) + mset (map fst dl)) N"
  using q_ok_reclaim [of "promoteDue (unixMilli clock) q" T "[]" "[]" N] q_ok_promoteDue [of q T N]
  by (simp add: Maintain_reserve_def Let_def)

text \<open>An operation applied to every message in hand.\<close>

lemma q_ok_fold:
  assumes "\<And>q m e T. q_ok q (add_mset m T) N \<Longrightarrow> q_ok (f (m, e) q) T N"
  shows "q_ok q (T + mset (map fst xs)) N \<Longrightarrow> q_ok (fold f xs q) T N"
proof (induction xs arbitrary: q)
  case (Cons x xs)
  obtain m e where "x = (m, e)" by (cases x)
  then show ?case using Cons assms [of q m "T + mset (map fst xs)" e] by simp
qed simp

lemma q_ok_Maintain_requeued:
  assumes "q_ok q (T + mset (map fst rq)) N" shows "q_ok (Maintain_requeued clock rq err q) T N"
  unfolding Maintain_requeued_def using assms
  by (auto intro!: q_ok_fold simp: q_ok_restoreLeasedEntry q_ok_requeue_msg simp del: mset_map split: option.split)

lemma q_ok_Maintain_deadlettered:
  assumes "q_ok q (T + mset (map fst dl)) N" shows "q_ok (Maintain_deadlettered dl err q) T N"
  unfolding Maintain_deadlettered_def using assms
  by (auto intro!: q_ok_fold simp: q_ok_restoreLeasedEntry q_ok_moveToDLQ simp del: mset_map split: option.split)

end
