(* ===== verification/Replay.thy ===== *)
theory Replay
  imports QueueInv
begin

text \<open>
  \<open>internal/queue/manager.go\<close>, the replay half: the bookkeeping that exists while the log is being
  folded, the effect of each record on its queue, and \<open>finalize\<close>, which turns the folded maps into
  the heaps of the live path.
\<close>

section \<open>State of a replay\<close>

text \<open>A set of names is a Go map to the empty struct.\<close>

type_synonym replayState = "(string, (string, unit) gomap) gomap"

definition rs_lease :: "string \<Rightarrow> string \<Rightarrow> replayState \<Rightarrow> replayState" where
  "rs_lease qn mid rs =
     (let rs1 = (case gget rs qn of None \<Rightarrow> gput qn [] rs | Some _ \<Rightarrow> rs)
      in case gget rs1 qn of None \<Rightarrow> rs1 | Some s \<Rightarrow> gput qn (gput mid () s) rs1)"

definition rs_unlease :: "string \<Rightarrow> string \<Rightarrow> replayState \<Rightarrow> replayState" where
  "rs_unlease qn mid rs =
     (case gget rs qn of Some s \<Rightarrow> gput qn (gdel mid s) rs | None \<Rightarrow> rs)"

datatype replay_err =
    ReplayBadJSON
  | ReplayBadConfig queue_error
  | ReplayCreatedTwice string
  | ReplayUnknownQueue string
  | ReplayUnknownMessage recordType string string
  | ReplayUnexpectedType recordType

section \<open>The effect of a record on its queue\<close>

definition apply_enqueue :: "enqueuePayload \<Rightarrow> queue \<Rightarrow> queue" where
  "apply_enqueue p q =
     (let msg = \<lparr>m_ID = ep_ID p, m_Body = ep_Body p, m_Priority = ep_Priority p, m_Seq = ep_Seq p,
                m_EnqueuedAt = ep_EnqueuedAt p, m_VisibleAt = ep_VisibleAt p, m_Attempts = 0,
                m_DedupKey = ep_DedupKey p, m_leaseToken = [], m_leaseExpires = 0\<rparr>;
          m = q_next q;
          q1 = q\<lparr>q_store := (q_store q)(m := msg), q_next := m + 1,
                q_msgs := gput (m_ID msg) m (q_msgs q)\<rparr>;
          q2 = (if ep_Seq p > q_seq q1 then q1\<lparr>q_seq := ep_Seq p\<rparr> else q1);
          q3 = (if ep_DedupKey p \<noteq> [] then
                  let e = q_nextEntry q2 in
                  q2\<lparr>q_entries := (q_entries q2)(e := \<lparr>de_msg = msg,
                       de_expiresAt = i64 (ep_EnqueuedAt p + Milliseconds DedupTTL),
                       de_ready = True, de_err = None\<rparr>),
                     q_nextEntry := e + 1,
                     q_dedup := gput (ep_DedupKey p) e (q_dedup q2)\<rparr>
                else q2)
      in add_cnt (\<lambda>c. c\<lparr>n_enqueued := n_enqueued c + 1\<rparr>) q3)"

definition apply_lease_item :: "string \<Rightarrow> int \<Rightarrow> leaseItem \<Rightarrow> queue \<times> replayState \<Rightarrow>
    replay_err + (queue \<times> replayState)" where
  "apply_lease_item qn expires it = (\<lambda>(q, rs).
     case gget (q_msgs q) (li_ID it) of
       None \<Rightarrow> Inl (ReplayUnknownMessage RecordLease (li_ID it) qn)
     | Some m \<Rightarrow>
         Inr (q\<lparr>q_store := (q_store q)(m := (q_store q m)\<lparr>m_Attempts := li_Attempts it,
                 m_leaseToken := li_Token it, m_leaseExpires := expires\<rparr>)\<rparr>,
              rs_lease qn (li_ID it) rs))"

definition apply_expire_item :: "string \<Rightarrow> expireItem \<Rightarrow> queue \<times> replayState \<Rightarrow>
    replay_err + (queue \<times> replayState)" where
  "apply_expire_item qn it = (\<lambda>(q, rs).
     case gget (q_msgs q) (xi_ID it) of
       None \<Rightarrow> Inl (ReplayUnknownMessage RecordLeaseExpire (xi_ID it) qn)
     | Some m \<Rightarrow>
         Inr (q\<lparr>q_store := (q_store q)(m := (q_store q m)\<lparr>m_VisibleAt := xi_VisibleAt it,
                 m_leaseToken := []\<rparr>)\<rparr>,
              rs_unlease qn (xi_ID it) rs))"

definition apply_dlq_item :: "string \<Rightarrow> string \<Rightarrow> queue \<times> replayState \<Rightarrow>
    replay_err + (queue \<times> replayState)" where
  "apply_dlq_item qn mid = (\<lambda>(q, rs).
     case gget (q_msgs q) mid of
       None \<Rightarrow> Inl (ReplayUnknownMessage RecordDLQMove mid qn)
     | Some m \<Rightarrow>
         let q1 = q\<lparr>q_msgs := gdel mid (q_msgs q),
                   q_store := (q_store q)(m := (q_store q m)\<lparr>m_leaseToken := []\<rparr>)\<rparr>;
             q2 = (if c_DLQ (q_cfg q1) then q1\<lparr>q_dlq := q_dlq q1 @ [m]\<rparr> else q1)
         in Inr (add_cnt (\<lambda>c. c\<lparr>n_dlqMoved := n_dlqMoved c + 1\<rparr>) q2, rs_unlease qn mid rs))"

text \<open>
  The cases of the switch in \<open>apply\<close>, on the queue that the record names. A creation record is
  not about an existing queue and is handled by the caller.
\<close>

fun apply_queue :: "payload \<Rightarrow> queue \<times> replayState \<Rightarrow> replay_err + (queue \<times> replayState)" where
  "apply_queue (PQueueCreate p) s = Inl (ReplayCreatedTwice (c_Name (qp_Config p)))"
| "apply_queue (PEnqueue p) (q, rs) = Inr (apply_enqueue p q, rs)"
| "apply_queue (PLease p) (q, rs) =
     (case fold_err (apply_lease_item (lp_Queue p) (lp_ExpiresAt p)) (lp_Items p) (q, rs) of
        Inl e \<Rightarrow> Inl e
      | Inr (q1, rs1) \<Rightarrow>
          Inr (add_cnt (\<lambda>c. c\<lparr>n_dequeued := n_dequeued c + of_nat (length (lp_Items p))\<rparr>) q1, rs1))"
| "apply_queue (PAck p) (q, rs) =
     (case gget (q_msgs q) (ap_ID p) of
        None \<Rightarrow> Inl (ReplayUnknownMessage RecordAck (ap_ID p) (ap_Queue p))
      | Some m \<Rightarrow>
          Inr (add_cnt (\<lambda>c. c\<lparr>n_acked := n_acked c + 1\<rparr>) (q\<lparr>q_msgs := gdel (ap_ID p) (q_msgs q)\<rparr>),
               rs_unlease (ap_Queue p) (ap_ID p) rs))"
| "apply_queue (PNack p) (q, rs) =
     (case gget (q_msgs q) (np_ID p) of
        None \<Rightarrow> Inl (ReplayUnknownMessage RecordNack (np_ID p) (np_Queue p))
      | Some m \<Rightarrow>
          Inr (add_cnt (\<lambda>c. c\<lparr>n_nacked := n_nacked c + 1\<rparr>)
                 (q\<lparr>q_store := (q_store q)(m := (q_store q m)\<lparr>m_VisibleAt := np_VisibleAt p,
                      m_leaseToken := []\<rparr>)\<rparr>),
               rs_unlease (np_Queue p) (np_ID p) rs))"
| "apply_queue (PLeaseExpire p) (q, rs) =
     (case fold_err (apply_expire_item (xp_Queue p)) (xp_Items p) (q, rs) of
        Inl e \<Rightarrow> Inl e
      | Inr (q1, rs1) \<Rightarrow>
          Inr (add_cnt (\<lambda>c. c\<lparr>n_expired := n_expired c + of_nat (length (xp_Items p))\<rparr>) q1, rs1))"
| "apply_queue (PDLQMove p) (q, rs) = fold_err (apply_dlq_item (dp_Queue p)) (dp_IDs p) (q, rs)"

section \<open>Finalize\<close>

definition finalize_msg :: "int \<Rightarrow> (string, unit) gomap \<Rightarrow> ref \<Rightarrow> queue \<Rightarrow> queue" where
  "finalize_msg now leased m q =
     (let q1 = (if gget leased (m_ID (q_store q m)) \<noteq> None
                then q\<lparr>q_store := (q_store q)(m := (q_store q m)\<lparr>m_leaseToken := [], m_leaseExpires := 0\<rparr>)\<rparr>
                else q)
      in if m_VisibleAt (q_store q1 m) > now
         then q1\<lparr>q_delayed := delayed_push (q_store q1) m (q_delayed q1)\<rparr>
         else q1\<lparr>q_ready := ready_push (q_store q1) m (q_ready q1)\<rparr>)"

text \<open>\<open>leased\<close> is \<open>rs.leased[name]\<close>, the empty map when there is none.\<close>

definition finalize_queue :: "int \<Rightarrow> (string, unit) gomap \<Rightarrow> queue \<Rightarrow> queue" where
  "finalize_queue now leased q =
     (let msgs = sort_key (\<lambda>m. m_Seq (q_store q m)) (map snd (q_msgs q));
          q1 = fold (finalize_msg now leased) msgs q
      in q1\<lparr>q_dedup := filter (\<lambda>(key, e). \<not> de_expiresAt (q_entries q1 e) \<le> now) (q_dedup q1)\<rparr>)"

section \<open>Logs that replay\<close>

text \<open>
  The identifiers a record is about, those it introduces and those it removes. A log of one
  queue is well formed when every record other than an enqueue refers to messages that are live
  at that point, and no identifier is enqueued twice.
\<close>

fun payload_ids :: "payload \<Rightarrow> string list" where
  "payload_ids (PQueueCreate p) = []"
| "payload_ids (PEnqueue p) = [ep_ID p]"
| "payload_ids (PLease p) = map li_ID (lp_Items p)"
| "payload_ids (PAck p) = [ap_ID p]"
| "payload_ids (PNack p) = [np_ID p]"
| "payload_ids (PLeaseExpire p) = map xi_ID (xp_Items p)"
| "payload_ids (PDLQMove p) = dp_IDs p"

fun removes :: "payload \<Rightarrow> bool" where
  "removes (PAck p) = True"
| "removes (PDLQMove p) = True"
| "removes _ = False"

fun is_enqueue :: "payload \<Rightarrow> bool" where
  "is_enqueue (PEnqueue p) = True"
| "is_enqueue _ = False"

fun is_create :: "payload \<Rightarrow> bool" where
  "is_create (PQueueCreate p) = True"
| "is_create _ = False"

definition enq_ids :: "payload list \<Rightarrow> string set" where
  "enq_ids L = (\<Union>p \<in> set (filter is_enqueue L). set (payload_ids p))"

definition gone_ids :: "payload list \<Rightarrow> string set" where
  "gone_ids L = (\<Union>p \<in> set (filter removes L). set (payload_ids p))"

definition live_ids :: "payload list \<Rightarrow> string set" where
  "live_ids L = enq_ids L - gone_ids L"

definition rec_wf :: "payload list \<Rightarrow> payload \<Rightarrow> bool" where
  "rec_wf L p \<longleftrightarrow> \<not> is_create p \<and> distinct (payload_ids p) \<and>
     (if is_enqueue p then set (payload_ids p) \<inter> enq_ids L = {}
      else set (payload_ids p) \<subseteq> live_ids L)"

inductive log_wf :: "payload list \<Rightarrow> bool" where
  log_wf_Nil: "log_wf []"
| log_wf_snoc: "log_wf L \<Longrightarrow> rec_wf L p \<Longrightarrow> log_wf (L @ [p])"

inductive_cases log_wf_snocE: "log_wf (L @ [p])"

lemma enq_ids_simps [simp]:
  "enq_ids [] = {}" "enq_ids (L @ M) = enq_ids L \<union> enq_ids M"
  "enq_ids [p] = (if is_enqueue p then set (payload_ids p) else {})"
  by (auto simp: enq_ids_def)

lemma gone_ids_simps [simp]:
  "gone_ids [] = {}" "gone_ids (L @ M) = gone_ids L \<union> gone_ids M"
  "gone_ids [p] = (if removes p then set (payload_ids p) else {})"
  by (auto simp: gone_ids_def)

lemma log_wf_append: "log_wf (L @ M) \<Longrightarrow> log_wf L"
proof (induction M rule: rev_induct)
  case (snoc p M)
  then have "log_wf ((L @ M) @ [p])" by simp
  then have "log_wf (L @ M)" by (rule log_wf_snocE) simp
  then show ?case using snoc.IH by simp
qed simp

lemma log_wf_take: "log_wf L \<Longrightarrow> log_wf (take n L)"
  using log_wf_append [of "take n L" "drop n L"] by simp

text \<open>Only an enqueued message can be removed, and then it stays removed.\<close>

lemma gone_enq: "log_wf L \<Longrightarrow> gone_ids L \<subseteq> enq_ids L"
  by (induction rule: log_wf.induct) (auto simp: rec_wf_def live_ids_def)

lemma live_snoc:
  assumes "log_wf (L @ [p])"
  shows "live_ids (L @ [p]) = (if is_enqueue p then live_ids L \<union> set (payload_ids p)
    else if removes p then live_ids L - set (payload_ids p) else live_ids L)"
proof -
  have w: "log_wf L" "rec_wf L p" using assms by (auto elim: log_wf_snocE)
  have "is_enqueue p \<Longrightarrow> \<not> removes p" by (cases p) simp_all
  then show ?thesis using w gone_enq [OF w(1)] by (auto simp: live_ids_def rec_wf_def split: if_splits)
qed

section \<open>What the fold computes\<close>

text \<open>The fields of a message that no operation changes.\<close>

definition imm :: "message \<Rightarrow> string \<times> byte list \<times> int \<times> u64 \<times> int \<times> string" where
  "imm m = (m_ID m, m_Body m, m_Priority m, m_Seq m, m_EnqueuedAt m, m_DedupKey m)"

definition imm_of :: "enqueuePayload \<Rightarrow> string \<times> byte list \<times> int \<times> u64 \<times> int \<times> string" where
  "imm_of p = (ep_ID p, ep_Body p, ep_Priority p, ep_Seq p, ep_EnqueuedAt p, ep_DedupKey p)"

text \<open>
  \<open>folded cfg L S q\<close>: the replay has produced \<open>q\<close> from the enqueue records of \<open>L\<close>, and the
  identifiers in \<open>S\<close> are still live. Each cell carries the immutable fields of its enqueue record;
  the heaps, which are built only by \<open>finalize\<close>, are still empty.
\<close>

definition folded :: "config \<Rightarrow> payload list \<Rightarrow> string set \<Rightarrow> queue \<Rightarrow> bool" where
  "folded cfg L S q \<longleftrightarrow> q_cfg q = cfg \<and> gwf (q_msgs q) \<and> gkeys (q_msgs q) = S \<and>
     (\<forall>r < q_next q. \<exists>p. PEnqueue p \<in> set L \<and> imm (q_store q r) = imm_of p) \<and>
     inj_on (\<lambda>r. m_ID (q_store q r)) {..<q_next q} \<and>
     (\<lambda>r. m_ID (q_store q r)) ` {..<q_next q} = enq_ids L \<and>
     (\<forall>i r. gget (q_msgs q) i = Some r \<longrightarrow> r < q_next q \<and> m_ID (q_store q r) = i) \<and>
     distinct (q_dlq q) \<and> (\<forall>r \<in> set (q_dlq q). r < q_next q \<and> m_ID (q_store q r) \<notin> S) \<and>
     q_inflight q = [] \<and> q_leases q = [] \<and>
     q_ready q = \<lparr>rh_msgs = [], rh_lifo = (c_Mode cfg = LIFO)\<rparr> \<and>
     q_delayed q = \<lparr>dh_msgs = [], dh_lifo = (c_Mode cfg = LIFO)\<rparr>"

lemma folded_new: "folded cfg [] {} (newQueue cfg)"
  by (simp add: folded_def newQueue_def gkeys_def)

lemma folded_frame [simp]:
  "folded cfg L S (q\<lparr>q_seq := sq\<rparr>) = folded cfg L S q"
  "folded cfg L S (q\<lparr>q_entries := en\<rparr>) = folded cfg L S q"
  "folded cfg L S (q\<lparr>q_nextEntry := n\<rparr>) = folded cfg L S q"
  "folded cfg L S (q\<lparr>q_dedup := dd\<rparr>) = folded cfg L S q"
  by (simp_all add: folded_def)

lemma folded_add_cnt [simp]: "folded cfg L S (add_cnt f q) = folded cfg L S q"
  by (simp add: folded_def add_cnt_def)

lemma folded_get:
  assumes "folded cfg L S q" "i \<in> S"
  shows "\<exists>r. gget (q_msgs q) i = Some r \<and> r < q_next q \<and> m_ID (q_store q r) = i"
proof -
  have "i \<in> gkeys (q_msgs q)" using assms by (simp add: folded_def)
  then obtain r where "gget (q_msgs q) i = Some r" by (auto simp: gkeys_iff)
  then show ?thesis using assms(1) by (simp add: folded_def)
qed

lemma imm_ID: "imm x = imm y \<Longrightarrow> m_ID x = m_ID y"
  by (simp add: imm_def)

lemma folded_upd:
  assumes "folded cfg L S q" "imm x = imm (q_store q r)"
  shows "folded cfg L S (q\<lparr>q_store := (q_store q)(r := x)\<rparr>)"
proof -
  have "m_ID (((q_store q)(r := x)) j) = m_ID (q_store q j)" "imm (((q_store q)(r := x)) j) = imm (q_store q j)" for j
    using assms(2) imm_ID [OF assms(2)] by simp_all
  then show ?thesis using assms(1) unfolding folded_def by (simp del: fun_upd_apply)
qed

lemma folded_mono:
  "folded cfg L S q \<Longrightarrow> \<not> is_enqueue p \<Longrightarrow> folded cfg (L @ [p]) S q"
  unfolding folded_def by auto

lemma folded_del:
  assumes "folded cfg L S q" "gget (q_msgs q) i = Some r"
  shows "folded cfg L (S - {i}) (q\<lparr>q_msgs := gdel i (q_msgs q)\<rparr>)"
    and "folded cfg L (S - {i}) (q\<lparr>q_msgs := gdel i (q_msgs q), q_dlq := q_dlq q @ [r]\<rparr>)"
proof -
  have i: "i \<in> S" "r < q_next q" "m_ID (q_store q r) = i"
    using assms by (auto simp: folded_def gkeys_iff)
  then have "r \<notin> set (q_dlq q)" using assms(1) by (auto simp: folded_def)
  with assms i show "folded cfg L (S - {i}) (q\<lparr>q_msgs := gdel i (q_msgs q)\<rparr>)"
      "folded cfg L (S - {i}) (q\<lparr>q_msgs := gdel i (q_msgs q), q_dlq := q_dlq q @ [r]\<rparr>)"
    by (auto simp: folded_def)
qed

lemma folded_enqueue:
  assumes f: "folded cfg L S q" and n: "ep_ID p \<notin> enq_ids L" and S: "S \<subseteq> enq_ids L"
  shows "folded cfg (L @ [PEnqueue p]) (insert (ep_ID p) S) (apply_enqueue p q)"
proof -
  let ?msg = "\<lparr>m_ID = ep_ID p, m_Body = ep_Body p, m_Priority = ep_Priority p, m_Seq = ep_Seq p,
      m_EnqueuedAt = ep_EnqueuedAt p, m_VisibleAt = ep_VisibleAt p, m_Attempts = 0,
      m_DedupKey = ep_DedupKey p, m_leaseToken = [], m_leaseExpires = 0\<rparr>"
  let ?q = "q\<lparr>q_store := (q_store q)(q_next q := ?msg), q_next := q_next q + 1,
      q_msgs := gput (ep_ID p) (q_next q) (q_msgs q)\<rparr>"
  have i: "imm ?msg = imm_of p" by (simp add: imm_def imm_of_def)
  have ids: "m_ID (q_store q r) \<noteq> ep_ID p" if "r < q_next q" for r
  proof -
    have "m_ID (q_store q r) \<in> enq_ids L" using f that by (auto simp: folded_def)
    then show ?thesis using n by auto
  qed
  have "folded cfg (L @ [PEnqueue p]) (insert (ep_ID p) S) ?q"
    unfolding folded_def
  proof (intro conjI)
    show "inj_on (\<lambda>r. m_ID (q_store ?q r)) {..<q_next ?q}"
    proof -
      have "inj_on (\<lambda>r. m_ID (q_store q r)) {..<q_next q}" using f by (simp add: folded_def)
      then show ?thesis using ids by (fastforce simp: inj_on_def less_Suc_eq)
    qed
    show "\<forall>r < q_next ?q. \<exists>p'. PEnqueue p' \<in> set (L @ [PEnqueue p]) \<and> imm (q_store ?q r) = imm_of p'"
      using f i by (auto simp: folded_def less_Suc_eq)
    show "(\<lambda>r. m_ID (q_store ?q r)) ` {..<q_next ?q} = enq_ids (L @ [PEnqueue p])"
      using f by (auto simp: folded_def lessThan_Suc image_iff)
  next
    show "\<forall>r \<in> set (q_dlq ?q). r < q_next ?q \<and> m_ID (q_store ?q r) \<notin> insert (ep_ID p) S"
      using f ids by (auto simp: folded_def)
  qed (use f in \<open>auto simp: folded_def less_Suc_eq\<close>)
  then show ?thesis
    by (auto simp: apply_enqueue_def Let_def)
qed

text \<open>The loops over the items of a record.\<close>

lemma fold_items:
  assumes "\<And>it q rs. folded cfg L S q \<Longrightarrow> ident it \<in> S \<Longrightarrow> \<exists>q' rs'. f it (q, rs) = Inr (q', rs') \<and> folded cfg L S q'"
  shows "folded cfg L S q \<Longrightarrow> set (map ident items) \<subseteq> S \<Longrightarrow>
    \<exists>q' rs'. fold_err f items (q, rs) = Inr (q', rs') \<and> folded cfg L S q'"
proof (induction items arbitrary: q rs)
  case (Cons it items)
  then obtain q' rs' where "f it (q, rs) = Inr (q', rs')" "folded cfg L S q'" using assms [of q it rs] by auto
  then show ?case using Cons.IH [of q' rs'] Cons.prems(2) by simp
qed simp

lemma folded_lease_item:
  assumes "folded cfg L S q" "li_ID it \<in> S"
  shows "\<exists>q' rs'. apply_lease_item qn x it (q, rs) = Inr (q', rs') \<and> folded cfg L S q'"
proof -
  obtain r where "gget (q_msgs q) (li_ID it) = Some r" using folded_get [OF assms] by blast
  then show ?thesis
    using folded_upd [OF assms(1), of _ r] by (simp add: apply_lease_item_def imm_def)
qed

lemma folded_expire_item:
  assumes "folded cfg L S q" "xi_ID it \<in> S"
  shows "\<exists>q' rs'. apply_expire_item qn it (q, rs) = Inr (q', rs') \<and> folded cfg L S q'"
proof -
  obtain r where "gget (q_msgs q) (xi_ID it) = Some r" using folded_get [OF assms] by blast
  then show ?thesis
    using folded_upd [OF assms(1), of _ r] by (simp add: apply_expire_item_def imm_def)
qed

lemma folded_dlq_item:
  assumes "folded cfg L S q" "i \<in> S"
  shows "\<exists>q' rs'. apply_dlq_item qn i (q, rs) = Inr (q', rs') \<and> folded cfg L (S - {i}) q'"
proof -
  obtain r where r: "gget (q_msgs q) i = Some r" using folded_get [OF assms] by blast
  let ?q = "q\<lparr>q_store := (q_store q)(r := (q_store q r)\<lparr>m_leaseToken := []\<rparr>)\<rparr>"
  have "folded cfg L S ?q" using folded_upd [OF assms(1), of _ r] by (simp add: imm_def)
  from folded_del [OF this, of i r] r show ?thesis
    by (simp add: apply_dlq_item_def Let_def queue_upd_order)
qed

lemma folded_dlq:
  "folded cfg L S q \<Longrightarrow> set is \<subseteq> S \<Longrightarrow> distinct is \<Longrightarrow>
    \<exists>q' rs'. fold_err (apply_dlq_item qn) is (q, rs) = Inr (q', rs') \<and> folded cfg L (S - set is) q'"
proof (induction "is" arbitrary: q rs S)
  case (Cons i "is")
  then obtain q' rs' where s: "apply_dlq_item qn i (q, rs) = Inr (q', rs')" "folded cfg L (S - {i}) q'"
    using folded_dlq_item [of cfg L S q i qn rs] by auto
  have "set is \<subseteq> S - {i}" "distinct is" using Cons.prems by auto
  from Cons.IH [OF s(2) this, of rs'] show ?case using s(1) by (auto simp: set_diff_eq Diff_insert2)
qed simp

lemma apply_queue_step:
  assumes f: "folded cfg L (live_ids L) q" and w: "log_wf L" "rec_wf L p"
  shows "\<exists>q' rs'. apply_queue p (q, rs) = Inr (q', rs') \<and> folded cfg (L @ [p]) (live_ids (L @ [p])) q'"
proof -
  have live: "live_ids (L @ [p]) = (if is_enqueue p then live_ids L \<union> set (payload_ids p)
      else if removes p then live_ids L - set (payload_ids p) else live_ids L)"
    using live_snoc log_wf_snoc [OF w] by blast
  note mono = folded_mono [OF f, of p]
  show ?thesis
  proof (cases p)
    case (PQueueCreate x)
    then show ?thesis using w(2) by (simp add: rec_wf_def)
  next
    case (PEnqueue x)
    then show ?thesis
      using folded_enqueue [OF f, of x] w(2) live by (simp add: rec_wf_def live_ids_def)
  next
    case (PLease x)
    have "\<exists>q' rs'. fold_err (apply_lease_item (lp_Queue x) (lp_ExpiresAt x)) (lp_Items x) (q, rs) = Inr (q', rs') \<and>
        folded cfg (L @ [p]) (live_ids L) q'"
      using mono w(2) PLease
      by (intro fold_items [where ident = li_ID] folded_lease_item) (simp_all add: rec_wf_def)
    then show ?thesis using PLease live by auto
  next
    case (PAck x)
    then obtain r where r: "gget (q_msgs q) (ap_ID x) = Some r"
      using folded_get [OF f, of "ap_ID x"] w(2) by (auto simp: rec_wf_def)
    have "folded cfg (L @ [p]) (live_ids L) q" using mono PAck by simp
    from folded_del(1) [OF this r] show ?thesis using r PAck live by simp
  next
    case (PNack x)
    then obtain r where r: "gget (q_msgs q) (np_ID x) = Some r"
      using folded_get [OF f, of "np_ID x"] w(2) by (auto simp: rec_wf_def)
    have "folded cfg (L @ [p]) (live_ids L) q" using mono PNack by simp
    from folded_upd [OF this, of _ r] show ?thesis using r PNack live by (simp add: imm_def)
  next
    case (PLeaseExpire x)
    have "\<exists>q' rs'. fold_err (apply_expire_item (xp_Queue x)) (xp_Items x) (q, rs) = Inr (q', rs') \<and>
        folded cfg (L @ [p]) (live_ids L) q'"
      using mono w(2) PLeaseExpire
      by (intro fold_items [where ident = xi_ID] folded_expire_item) (simp_all add: rec_wf_def)
    then show ?thesis using PLeaseExpire live by auto
  next
    case (PDLQMove x)
    have "folded cfg (L @ [p]) (live_ids L) q" using mono PDLQMove by simp
    from folded_dlq [OF this, of "dp_IDs x" "dp_Queue x" rs] show ?thesis
      using PDLQMove live w(2) by (simp add: rec_wf_def)
  qed
qed

text \<open>The replay of a well-formed log succeeds and recovers exactly the live messages.\<close>

lemma replay_wf:
  "log_wf L \<Longrightarrow> \<exists>q rs'. fold_err apply_queue L (newQueue cfg, rs) = Inr (q, rs') \<and> folded cfg L (live_ids L) q"
proof (induction rule: log_wf.induct)
  case log_wf_Nil
  then show ?case by (simp add: folded_new live_ids_def)
next
  case (log_wf_snoc L p)
  then obtain q rs' where q: "fold_err apply_queue L (newQueue cfg, rs) = Inr (q, rs')" "folded cfg L (live_ids L) q"
    by blast
  then show ?case
    using apply_queue_step [OF q(2) log_wf_snoc.hyps, of rs'] fold_err_snoc [OF q(1)] by simp
qed

section \<open>Finalize restores the live invariant\<close>

lemma folded_distinct:
  assumes "folded cfg L S q" shows "distinct (map snd (q_msgs q) @ q_dlq q)"
proof -
  have wf: "gwf (q_msgs q)" using assms by (simp add: folded_def)
  have get: "m_ID (q_store q r) = i \<and> i \<in> S" if "(i, r) \<in> set (q_msgs q)" for i r
  proof -
    have g: "gget (q_msgs q) i = Some r" using that wf by (simp add: gget_iff)
    then have "i \<in> gkeys (q_msgs q)" by (simp add: gkeys_iff)
    then show ?thesis using assms g by (simp add: folded_def)
  qed
  have "inj_on snd (set (q_msgs q))"
  proof (rule inj_onI)
    fix x y assume xy: "x \<in> set (q_msgs q)" "y \<in> set (q_msgs q)" "snd x = snd y"
    have "m_ID (q_store q (snd x)) = fst x" "m_ID (q_store q (snd y)) = fst y"
      using get [of "fst x" "snd x"] get [of "fst y" "snd y"] xy(1,2) by simp_all
    then show "x = y" using xy(3) by (simp add: prod_eq_iff)
  qed
  moreover have "distinct (q_msgs q)" using wf by (simp add: gwf_def distinct_map)
  ultimately have "distinct (map snd (q_msgs q))" by (simp add: distinct_map)
  moreover have "snd ` set (q_msgs q) \<inter> set (q_dlq q) = {}"
  proof -
    have "m_ID (q_store q r) \<notin> S" if "r \<in> set (q_dlq q)" for r using assms that by (simp add: folded_def)
    then show ?thesis using get by fastforce
  qed
  ultimately show ?thesis using assms by (simp add: folded_def)
qed

lemma folded_q_ok:
  assumes f: "folded cfg L S q" shows "q_ok q (mset (map snd (q_msgs q))) {#}"
proof -
  have lt: "r < q_next q" if "r \<in> set (map snd (q_msgs q) @ q_dlq q)" for r
    using f that by (force simp: folded_def gget_iff)
  have "count (mset (map snd (q_msgs q) @ q_dlq q)) r \<le> of_bool (r < q_next q)" for r
    using folded_distinct [OF f] lt [of r] by (simp add: distinct_count_atmost_1 del: map_append mset_append)
  then show ?thesis
    using f by (auto simp: folded_def q_ok_def held_def ready_inv_def delayed_inv_def heap_inv_def)
qed

lemma q_ok_finalize_msg:
  assumes "q_ok q (add_mset m T) N" shows "q_ok (finalize_msg now leased m q) T N"
proof -
  let ?q = "q\<lparr>q_store := (q_store q)(m := (q_store q m)\<lparr>m_leaseToken := [], m_leaseExpires := 0\<rparr>)\<rparr>"
  have "q_ok ?q (add_mset m T) N"
    using q_ok_upd [OF assms, of m "(q_store q m)\<lparr>m_leaseToken := [], m_leaseExpires := 0\<rparr>"] by simp
  from q_ok_ready [OF this] q_ok_delayed [OF this] q_ok_ready [OF assms] q_ok_delayed [OF assms]
  show ?thesis by (simp add: finalize_msg_def Let_def)
qed

lemma q_ok_finalize_fold:
  "q_ok q (T + mset ms) N \<Longrightarrow> q_ok (fold (finalize_msg now leased) ms q) T N"
proof (induction ms arbitrary: q)
  case (Cons m ms)
  then show ?case using q_ok_finalize_msg [of q m "T + mset ms" N now leased] by simp
qed simp

text \<open>Fields that finalizing a message leaves alone.\<close>

lemma finalize_msg_frame [simp]:
  "q_msgs (finalize_msg now leased m q) = q_msgs q" "q_next (finalize_msg now leased m q) = q_next q"
  "q_cfg (finalize_msg now leased m q) = q_cfg q" "q_dlq (finalize_msg now leased m q) = q_dlq q"
  "imm (q_store (finalize_msg now leased m q) r) = imm (q_store q r)"
  "q_inflight (finalize_msg now leased m q) = q_inflight q" "q_leases (finalize_msg now leased m q) = q_leases q"
  by (simp_all add: finalize_msg_def Let_def imm_def)

lemma finalize_fold_frame [simp]:
  "q_msgs (fold (finalize_msg now leased) ms q) = q_msgs q"
  "q_next (fold (finalize_msg now leased) ms q) = q_next q"
  "q_cfg (fold (finalize_msg now leased) ms q) = q_cfg q"
  "q_dlq (fold (finalize_msg now leased) ms q) = q_dlq q"
  "imm (q_store (fold (finalize_msg now leased) ms q) r) = imm (q_store q r)"
  "q_inflight (fold (finalize_msg now leased) ms q) = q_inflight q"
  "q_leases (fold (finalize_msg now leased) ms q) = q_leases q"
  by (induction ms arbitrary: q) simp_all

lemma finalize_frame [simp]:
  "q_msgs (finalize_queue now leased q) = q_msgs q" "q_next (finalize_queue now leased q) = q_next q"
  "q_cfg (finalize_queue now leased q) = q_cfg q" "q_dlq (finalize_queue now leased q) = q_dlq q"
  "imm (q_store (finalize_queue now leased q) r) = imm (q_store q r)"
  "q_inflight (finalize_queue now leased q) = q_inflight q"
  "q_leases (finalize_queue now leased q) = q_leases q"
  by (simp_all add: finalize_queue_def Let_def)

lemma q_ok_finalize:
  assumes "folded cfg L S q" shows "q_ok (finalize_queue now leased q) {#} {#}"
proof -
  let ?ms = "sort_key (\<lambda>m. m_Seq (q_store q m)) (map snd (q_msgs q))"
  have "q_ok q ({#} + mset ?ms) {#}" using folded_q_ok [OF assms] by simp
  from q_ok_finalize_fold [OF this] show ?thesis by (simp add: finalize_queue_def Let_def)
qed

end
