(* ===== verification/QueueSys.thy ===== *)
theory QueueSys
  imports Replay
begin

text \<open>
  One queue among its concurrent callers and its log: the step relation that interleaves the
  \<open>_reserve\<close> and \<open>_finish\<close> parts of all operations of \<open>queue.go\<close> with the log's answers, in any order.

  An operation in progress holds its messages and the record it has to append. Sending puts the
  record behind the records sent before; the log commits a prefix of the sent records, in order,
  and after a failure commits nothing more. A record may also be refused before it is sent (the
  log is closed, or has failed, or the record is too large). What a crash leaves behind is a
  prefix of the sent records that covers the committed ones, which is what \<open>WalLog\<close> establishes.
\<close>

section \<open>Operations in progress\<close>

datatype qop =
    OpEnqueue ref "ref option" string
  | OpDequeue "ref list" leasePayload
  | OpAck string ref
  | OpNack int ref bool int
  | OpExpire int "(ref \<times> leaseEntry) list" "(ref \<times> leaseEntry) list"
  | OpDead "(ref \<times> leaseEntry) list"

text \<open>
  A record waits to be sent, or was sent as the \<open>k\<close>-th record, or was refused. The number is the
  position in the list of sent records.
\<close>

datatype stage = Reserved payload | Sent nat | Refused

datatype qevent =
    EvEnqueued message
  | EvDelivered "delivery list"
  | EvAcked string
  | EvNacked string

record qsys =
  qs_q :: queue
  qs_ops :: "(qop \<times> stage) list"
  qs_sent :: "payload list"
  qs_committed :: nat
  qs_failed :: bool
  qs_hist :: "qevent list"

text \<open>The live messages and the new messages an operation holds, and those its record is about.\<close>

fun op_live :: "qop \<Rightarrow> ref list" where
  "op_live (OpEnqueue m e k) = []"
| "op_live (OpDequeue ms p) = ms"
| "op_live (OpAck i m) = [m]"
| "op_live (OpNack c m d v) = [m]"
| "op_live (OpExpire c rq dl) = map fst rq @ map fst dl"
| "op_live (OpDead dl) = map fst dl"

fun op_new :: "qop \<Rightarrow> ref list" where
  "op_new (OpEnqueue m e k) = [m]"
| "op_new _ = []"

fun op_about :: "qop \<Rightarrow> ref list" where
  "op_about (OpEnqueue m e k) = [m]"
| "op_about (OpExpire c rq dl) = map fst rq"
| "op_about op = op_live op"

fun op_removes :: "qop \<Rightarrow> bool" where
  "op_removes (OpAck i m) = True"
| "op_removes (OpNack c m d v) = d"
| "op_removes (OpDead dl) = True"
| "op_removes _ = False"

text \<open>
  The second half of an operation: the queue, the operation that follows it (the dead-letter half
  of a maintenance run follows its requeue half), and what the caller is told.
\<close>

fun finish_op :: "int \<Rightarrow> qop \<Rightarrow> queue_error option \<Rightarrow> queue \<Rightarrow> queue \<times> (qop \<times> stage) list \<times> qevent list" where
  "finish_op clock (OpEnqueue m e key) err q =
     (case Enqueue_finish clock m e key err q of
        (q', Inl x) \<Rightarrow> (q', [], []) | (q', Inr (msg, dup)) \<Rightarrow> (q', [], [EvEnqueued msg]))"
| "finish_op clock (OpDequeue ms p) err q =
     (case tryDequeue_finish ms p err q of
        (q', Inl x) \<Rightarrow> (q', [], []) | (q', Inr ds) \<Rightarrow> (q', [], [EvDelivered ds]))"
| "finish_op clock (OpAck i m) err q =
     (case Ack_finish i m err q of
        (q', Some x) \<Rightarrow> (q', [], []) | (q', None) \<Rightarrow> (q', [], [EvAcked i]))"
| "finish_op clock (OpNack c m d v) err q =
     (case Nack_finish c m d v err q of
        (q', Some x) \<Rightarrow> (q', [], []) | (q', None) \<Rightarrow> (q', [], [EvNacked (m_ID (q_store q m))]))"
| "finish_op clock (OpExpire c rq dl) err q =
     (let q' = Maintain_requeued c rq err q
      in (q', if dl \<noteq> [] then [(OpDead dl, Reserved (dlq_payload dl q'))] else [], []))"
| "finish_op clock (OpDead dl) err q = (Maintain_deadlettered dl err q, [], [])"

definition maintain_ops :: "int \<Rightarrow> (ref \<times> leaseEntry) list \<Rightarrow> (ref \<times> leaseEntry) list \<Rightarrow> queue \<Rightarrow>
    (qop \<times> stage) list" where
  "maintain_ops clock rq dl q =
     (if rq \<noteq> [] then [(OpExpire clock rq dl, Reserved (expire_payload clock rq q))]
      else if dl \<noteq> [] then [(OpDead dl, Reserved (dlq_payload dl q))]
      else [])"

definition answered :: "qsys \<Rightarrow> stage \<Rightarrow> queue_error option \<Rightarrow> bool" where
  "answered s st err \<longleftrightarrow>
     (case st of
        Reserved p \<Rightarrow> False
      | Sent k \<Rightarrow> (case err of None \<Rightarrow> k < qs_committed s | Some e \<Rightarrow> qs_failed s \<and> qs_committed s \<le> k)
      | Refused \<Rightarrow> err \<noteq> None)"

section \<open>Steps\<close>

text \<open>
  The first half of an operation, on the queue alone: the queue after it and the operation it leaves
  in progress, if any. Identifiers are drawn at random; that a new one differs from all earlier ones
  is assumed.
\<close>

inductive qcall :: "queue \<Rightarrow> queue \<Rightarrow> (qop \<times> stage) list \<Rightarrow> bool" where
  q_enqueue: "\<lbrakk>Enqueue_reserve clock newID body priority delay key q = (q', EnqAppend m e p);
      \<forall>r < q_next q. m_ID (q_store q r) \<noteq> newID\<rbrakk> \<Longrightarrow>
    qcall q q' [(OpEnqueue m e key, Reserved p)]"
| q_duplicate: "Enqueue_reserve clock newID body priority delay key q = (q', EnqDuplicate e) \<Longrightarrow> qcall q q' []"
| q_dequeue: "tryDequeue_reserve clock tok n q = (q', Some (ms, p)) \<Longrightarrow>
    qcall q q' [(OpDequeue ms p, Reserved (PLease p))]"
| q_empty: "tryDequeue_reserve clock tok n q = (q', None) \<Longrightarrow> qcall q q' []"
| q_ack: "Ack_reserve mid token q = Inr (m, p, q') \<Longrightarrow> qcall q q' [(OpAck mid m, Reserved p)]"
| q_nack: "Nack_reserve clock mid token delay q = Inr (m, d, v, p, q') \<Longrightarrow>
    qcall q q' [(OpNack clock m d v, Reserved p)]"
| q_maintain: "Maintain_reserve clock q = (q', rq, dl) \<Longrightarrow> qcall q q' (maintain_ops clock rq dl q')"
| q_stats: "Stats clock q = (q', st) \<Longrightarrow> qcall q q' []"
| q_deadline: "nextDeadline q = (q', d) \<Longrightarrow> qcall q q' []"
| q_stop: "qcall q (stop q) []"

inductive qstep :: "qsys \<Rightarrow> qsys \<Rightarrow> bool" where
  q_call: "qcall (qs_q s) q' new \<Longrightarrow> qstep s (s\<lparr>qs_q := q', qs_ops := qs_ops s @ new\<rparr>)"
| q_send: "\<lbrakk>qs_ops s = xs @ (op, Reserved p) # ys; \<not> qs_failed s\<rbrakk> \<Longrightarrow>
    qstep s (s\<lparr>qs_ops := xs @ (op, Sent (length (qs_sent s))) # ys, qs_sent := qs_sent s @ [p]\<rparr>)"
| q_refuse: "qs_ops s = xs @ (op, Reserved p) # ys \<Longrightarrow>
    qstep s (s\<lparr>qs_ops := xs @ (op, Refused) # ys\<rparr>)"
| q_commit: "\<lbrakk>\<not> qs_failed s; qs_committed s \<le> k; k \<le> length (qs_sent s)\<rbrakk> \<Longrightarrow>
    qstep s (s\<lparr>qs_committed := k\<rparr>)"
| q_fail: "qstep s (s\<lparr>qs_failed := True\<rparr>)"
| q_finish: "\<lbrakk>qs_ops s = xs @ (op, st) # ys; answered s st err;
      finish_op clock op err (qs_q s) = (q', ops', evs)\<rbrakk> \<Longrightarrow>
    qstep s (s\<lparr>qs_q := q', qs_ops := xs @ ys @ ops', qs_hist := qs_hist s @ evs\<rparr>)"

inductive qreach :: "qsys \<Rightarrow> qsys \<Rightarrow> bool" for s0 where
  qreach_start: "qreach s0 s0"
| qreach_step: "qreach s0 s \<Longrightarrow> qstep s s' \<Longrightarrow> qreach s0 s'"

text \<open>
  A queue that starts: over an empty log it is new; over the log of an earlier life it is what
  \<open>apply\<close> and \<open>finalize\<close> made of the records found.
\<close>

definition qs_start :: "config \<Rightarrow> int \<Rightarrow> payload list \<Rightarrow> qsys \<Rightarrow> bool" where
  "qs_start cfg now base s \<longleftrightarrow>
     (\<exists>q rs. fold_err apply_queue base (newQueue cfg, []) = Inr (q, rs) \<and>
        s = \<lparr>qs_q = finalize_queue now (case gget rs (c_Name cfg) of Some l \<Rightarrow> l | None \<Rightarrow> []) q,
             qs_ops = [], qs_sent = base, qs_committed = length base, qs_failed = False, qs_hist = []\<rparr>)"

section \<open>Invariant\<close>

definition ops_live :: "(qop \<times> stage) list \<Rightarrow> ref multiset" where
  "ops_live ops = mset (concat (map (op_live \<circ> fst) ops))"

definition ops_new :: "(qop \<times> stage) list \<Rightarrow> ref multiset" where
  "ops_new ops = mset (concat (map (op_new \<circ> fst) ops))"

abbreviation mid :: "queue \<Rightarrow> ref \<Rightarrow> string" where
  "mid q r \<equiv> m_ID (q_store q r)"

text \<open>The record of an operation names the messages it holds and is of its kind.\<close>

definition rec_of :: "queue \<Rightarrow> qop \<Rightarrow> payload \<Rightarrow> bool" where
  "rec_of q op p \<longleftrightarrow> payload_ids p = map (mid q) (op_about op) \<and> \<not> is_create p \<and>
     removes p = op_removes op \<and> is_enqueue p = (op_new op \<noteq> []) \<and>
     (case op of
        OpEnqueue m e k \<Rightarrow> (\<exists>x. p = PEnqueue x \<and> imm_of x = imm (q_store q m))
      | OpAck i m \<Rightarrow> (\<exists>x. p = PAck x \<and> ap_ID x = i)
      | _ \<Rightarrow> True)"

text \<open>What is known of an operation beside its record.\<close>

fun op_facts :: "queue \<Rightarrow> qop \<Rightarrow> bool" where
  "op_facts q (OpDequeue ms p) = (length (lp_Items p) = length ms)"
| "op_facts q (OpAck i m) = (mid q m = i)"
| "op_facts q _ = True"

definition op_ok :: "qsys \<Rightarrow> qop \<times> stage \<Rightarrow> bool" where
  "op_ok s = (\<lambda>(op, st). op_facts (qs_q s) op \<and>
     (case st of
        Reserved p \<Rightarrow> rec_of (qs_q s) op p \<and> (is_enqueue p \<longrightarrow> set (payload_ids p) \<inter> enq_ids (qs_sent s) = {})
      | Sent k \<Rightarrow> k < length (qs_sent s) \<and> rec_of (qs_q s) op (qs_sent s ! k)
      | Refused \<Rightarrow> True))"

text \<open>The identifiers whose removal, or whose first appearance, is sent but not yet finished.\<close>

definition sent_ids :: "(qop \<Rightarrow> bool) \<Rightarrow> queue \<Rightarrow> (qop \<times> stage) list \<Rightarrow> string set" where
  "sent_ids P q ops = (\<Union>(op, st) \<in> {(op, st) \<in> set ops. P op \<and> (\<exists>k. st = Sent k)}. mid q ` set (op_about op))"

definition ev_ok :: "payload list \<Rightarrow> qevent \<Rightarrow> bool" where
  "ev_ok L ev = (case ev of
      EvEnqueued msg \<Rightarrow> (\<exists>x. PEnqueue x \<in> set L \<and> imm_of x = imm msg)
    | EvAcked i \<Rightarrow> (\<exists>x. PAck x \<in> set L \<and> ap_ID x = i)
    | _ \<Rightarrow> True)"

definition qs_inv :: "config \<Rightarrow> qsys \<Rightarrow> bool" where
  "qs_inv cfg s \<longleftrightarrow>
     q_cfg (qs_q s) = cfg \<and> q_ok (qs_q s) (ops_live (qs_ops s)) (ops_new (qs_ops s)) \<and>
     (\<forall>x \<in> set (qs_ops s). op_ok s x) \<and>
     qs_committed s \<le> length (qs_sent s) \<and> log_wf (qs_sent s) \<and>
     enq_ids (qs_sent s) \<subseteq> mid (qs_q s) ` {..<q_next (qs_q s)} \<and>
     (\<not> qs_failed s \<longrightarrow> live_ids (qs_sent s) =
        (gkeys (q_msgs (qs_q s)) - sent_ids op_removes (qs_q s) (qs_ops s)) \<union>
        sent_ids (\<lambda>op. op_new op \<noteq> []) (qs_q s) (qs_ops s)) \<and>
     (\<forall>ev \<in> set (qs_hist s). ev_ok (take (qs_committed s) (qs_sent s)) ev)"

section \<open>What every part keeps\<close>

text \<open>
  No part changes the configuration, removes a cell, or changes an immutable field of a cell.
\<close>

definition evolves :: "queue \<Rightarrow> queue \<Rightarrow> bool" where
  "evolves q q' \<longleftrightarrow> q_cfg q' = q_cfg q \<and> q_next q \<le> q_next q' \<and>
     (\<forall>r < q_next q. imm (q_store q' r) = imm (q_store q r))"

lemma evolves_refl [simp, intro]: "evolves q q"
  by (simp add: evolves_def)

lemma evolves_trans [trans]: "evolves q q' \<Longrightarrow> evolves q' q'' \<Longrightarrow> evolves q q''"
  by (auto simp: evolves_def)

lemma evolves_mid: "evolves q q' \<Longrightarrow> r < q_next q \<Longrightarrow> mid q' r = mid q r"
  unfolding evolves_def by (blast intro: imm_ID)

lemma evolves_same:
  "q_cfg q' = q_cfg q \<Longrightarrow> q_next q' = q_next q \<Longrightarrow> q_store q' = q_store q \<Longrightarrow> evolves q q'"
  by (simp add: evolves_def)

lemma imm_simps [simp]:
  "imm (m\<lparr>m_leaseToken := t\<rparr>) = imm m" "imm (m\<lparr>m_leaseExpires := x\<rparr>) = imm m"
  "imm (m\<lparr>m_VisibleAt := v\<rparr>) = imm m" "imm (m\<lparr>m_Attempts := a\<rparr>) = imm m"
  by (simp_all add: imm_def)

lemma promoteDue_simps [simp]:
  "q_cfg (promoteDue now q) = q_cfg q" "q_next (promoteDue now q) = q_next q"
  "q_store (promoteDue now q) = q_store q" "q_msgs (promoteDue now q) = q_msgs q"
  using promoteDue_frame [of now q] by auto

lemma wakeIfSooner_simps [simp]:
  "q_cfg (wakeIfSooner d q) = q_cfg q" "q_next (wakeIfSooner d q) = q_next q"
  "q_store (wakeIfSooner d q) = q_store q" "q_msgs (wakeIfSooner d q) = q_msgs q"
  by (simp_all add: wakeIfSooner_def)

lemma add_cnt_simps [simp]:
  "q_cfg (add_cnt f q) = q_cfg q" "q_next (add_cnt f q) = q_next q"
  "q_store (add_cnt f q) = q_store q" "q_msgs (add_cnt f q) = q_msgs q"
  by (simp_all add: add_cnt_def)

lemma close_entry_simps [simp]:
  "q_cfg (close_entry e q) = q_cfg q" "q_next (close_entry e q) = q_next q"
  "q_store (close_entry e q) = q_store q" "q_msgs (close_entry e q) = q_msgs q"
  by (simp_all add: close_entry_def split: option.splits)

lemma insert_msg_simps [simp]:
  "q_cfg (insert_msg m now q) = q_cfg q" "q_next (insert_msg m now q) = q_next q"
  "q_store (insert_msg m now q) = q_store q" "q_msgs (insert_msg m now q) = gput (mid q m) m (q_msgs q)"
  by (simp_all add: insert_msg_def Let_def)

lemma restore_simps [simp]:
  "q_cfg (restoreLeased m q) = q_cfg q" "q_next (restoreLeased m q) = q_next q"
  "q_store (restoreLeased m q) = q_store q" "q_msgs (restoreLeased m q) = q_msgs q"
  "q_cfg (restoreLeasedEntry m e q) = q_cfg q" "q_next (restoreLeasedEntry m e q) = q_next q"
  "q_store (restoreLeasedEntry m e q) = q_store q" "q_msgs (restoreLeasedEntry m e q) = q_msgs q"
  by (simp_all add: restoreLeased_def restoreLeasedEntry_def)

lemma moveToDLQ_simps [simp]:
  "q_cfg (moveToDLQ m q) = q_cfg q" "q_next (moveToDLQ m q) = q_next q"
  "q_msgs (moveToDLQ m q) = gdel (mid q m) (q_msgs q)"
  "q_store (moveToDLQ m q) = (q_store q)(m := (q_store q m)\<lparr>m_leaseToken := []\<rparr>)"
  by (simp_all add: moveToDLQ_def Let_def)

lemma requeue_msg_simps [simp]:
  "q_cfg (requeue_msg v now m q) = q_cfg q" "q_next (requeue_msg v now m q) = q_next q"
  "q_msgs (requeue_msg v now m q) = gput (mid q m) m (q_msgs q)"
  "q_store (requeue_msg v now m q) = (q_store q)(m := (q_store q m)\<lparr>m_leaseToken := [], m_VisibleAt := v\<rparr>)"
  by (simp_all add: requeue_msg_def)

lemma lease_one_simps [simp]:
  "q_cfg (lease_one x (m, it) q) = q_cfg q" "q_next (lease_one x (m, it) q) = q_next q"
  "q_msgs (lease_one x (m, it) q) = q_msgs q"
  "imm (q_store (lease_one x (m, it) q) r) = imm (q_store q r)"
  by (simp_all add: lease_one_def Let_def)

lemma lease_all_keeps:
  "lease_all x xs q = (q', ds) \<Longrightarrow>
     q_cfg q' = q_cfg q \<and> q_next q' = q_next q \<and> q_msgs q' = q_msgs q \<and> (\<forall>r. imm (q_store q' r) = imm (q_store q r))"
proof (induction xs arbitrary: q ds)
  case (Cons y xs)
  obtain m it where y: "y = (m, it)" by (cases y)
  obtain ds' where "lease_all x xs (lease_one x y q) = (q', ds')"
    using Cons.prems by (auto simp: Let_def split: prod.splits)
  from Cons.IH [OF this] show ?case by (simp add: y)
qed simp

lemma unpick_simps [simp]:
  "q_cfg (fold (\<lambda>m q. q\<lparr>q_ready := ready_push (q_store q) m (q_ready q)\<rparr>) ms q) = q_cfg q"
  "q_next (fold (\<lambda>m q. q\<lparr>q_ready := ready_push (q_store q) m (q_ready q)\<rparr>) ms q) = q_next q"
  "q_store (fold (\<lambda>m q. q\<lparr>q_ready := ready_push (q_store q) m (q_ready q)\<rparr>) ms q) = q_store q"
  "q_msgs (fold (\<lambda>m q. q\<lparr>q_ready := ready_push (q_store q) m (q_ready q)\<rparr>) ms q) = q_msgs q"
  by (induction ms arbitrary: q) simp_all

lemma reclaim_keeps:
  "reclaim now q rq dl = (q', rq', dl') \<Longrightarrow>
     q_cfg q' = q_cfg q \<and> q_next q' = q_next q \<and> q_msgs q' = q_msgs q \<and> q_store q' = q_store q"
proof (induction q rq dl rule: reclaim_induct)
  case (turn q rq dl)
  show ?case
  proof (cases rule: reclaim_cases [of now q rq dl, case_names stop stale dead again])
    case stop
    then show ?thesis using turn.prems by simp
  next
    case (stale e h)
    from turn.IH [of "q\<lparr>q_leases := h\<rparr>" rq dl] show ?thesis
      using turn.prems stale lease_pop_shrinks [OF stale(1)] by simp
  next
    case (dead e h m)
    from turn.IH [of "q\<lparr>q_leases := h, q_inflight := gdel (le_id e) (q_inflight q)\<rparr>" rq "dl @ [(m, e)]"]
    show ?thesis using turn.prems dead lease_pop_shrinks [OF dead(1)] by simp
  next
    case (again e h m)
    from turn.IH [of "q\<lparr>q_leases := h, q_inflight := gdel (le_id e) (q_inflight q)\<rparr>" "rq @ [(m, e)]" dl]
    show ?thesis using turn.prems again lease_pop_shrinks [OF again(1)] by simp
  qed
qed

lemma imm_mid: "imm (q_store q r) = imm (q_store q' r) \<Longrightarrow> mid q r = mid q' r"
  by (rule imm_ID)

lemma Maintain_requeued_keeps:
  "q_cfg (Maintain_requeued c xs err q) = q_cfg q \<and> q_next (Maintain_requeued c xs err q) = q_next q \<and>
   (\<forall>r. imm (q_store (Maintain_requeued c xs err q) r) = imm (q_store q r)) \<and>
   gkeys (q_msgs (Maintain_requeued c xs err q)) =
     (if err = None then gkeys (q_msgs q) \<union> mid q ` fst ` set xs else gkeys (q_msgs q))"
proof (cases err)
  case (Some e)
  have "q_cfg (fold (\<lambda>(m, e). restoreLeasedEntry m e) xs q) = q_cfg q \<and>
      q_next (fold (\<lambda>(m, e). restoreLeasedEntry m e) xs q) = q_next q \<and>
      q_store (fold (\<lambda>(m, e). restoreLeasedEntry m e) xs q) = q_store q \<and>
      q_msgs (fold (\<lambda>(m, e). restoreLeasedEntry m e) xs q) = q_msgs q" for q
    by (induction xs arbitrary: q) (auto split: prod.splits)
  then show ?thesis by (simp add: Maintain_requeued_def Some)
next
  case None
  let ?f = "\<lambda>(m, e) q. add_cnt (\<lambda>c. c\<lparr>n_expired := n_expired c + 1\<rparr>) (requeue_msg (unixMilli c) (unixMilli c) m q)"
  have "q_cfg (fold ?f xs q) = q_cfg q \<and> q_next (fold ?f xs q) = q_next q \<and>
      (\<forall>r. imm (q_store (fold ?f xs q) r) = imm (q_store q r)) \<and>
      gkeys (q_msgs (fold ?f xs q)) = gkeys (q_msgs q) \<union> mid q ` fst ` set xs" for q
  proof (induction xs arbitrary: q)
    case (Cons x xs)
    obtain m e where x: "x = (m, e)" by (cases x)
    define q1 where "q1 = ?f x q"
    have i: "imm (q_store q1 r) = imm (q_store q r)" for r by (simp add: x q1_def)
    have k: "gkeys (q_msgs q1) = insert (mid q m) (gkeys (q_msgs q))" "q_cfg q1 = q_cfg q" "q_next q1 = q_next q"
      by (simp_all add: x q1_def)
    have e: "fold ?f (x # xs) q = fold ?f xs q1" by (simp add: q1_def)
    show ?case unfolding e using Cons.IH [of q1] i k by (simp add: x imm_mid [OF i])
  qed simp
  then show ?thesis by (simp add: Maintain_requeued_def None)
qed

lemma Maintain_deadlettered_keeps:
  "q_cfg (Maintain_deadlettered xs err q) = q_cfg q \<and> q_next (Maintain_deadlettered xs err q) = q_next q \<and>
   (\<forall>r. imm (q_store (Maintain_deadlettered xs err q) r) = imm (q_store q r)) \<and>
   gkeys (q_msgs (Maintain_deadlettered xs err q)) =
     (if err = None then gkeys (q_msgs q) - mid q ` fst ` set xs else gkeys (q_msgs q))"
proof (cases err)
  case (Some e)
  then have "Maintain_deadlettered xs err q = Maintain_requeued 0 xs err q"
    by (simp add: Maintain_deadlettered_def Maintain_requeued_def)
  then show ?thesis using Maintain_requeued_keeps [of 0 xs err q] Some by simp
next
  case None
  let ?f = "\<lambda>(m, e) q. add_cnt (\<lambda>c. c\<lparr>n_expired := n_expired c + 1, n_dlqMoved := n_dlqMoved c + 1\<rparr>) (moveToDLQ m q)"
  have "q_cfg (fold ?f xs q) = q_cfg q \<and> q_next (fold ?f xs q) = q_next q \<and>
      (\<forall>r. imm (q_store (fold ?f xs q) r) = imm (q_store q r)) \<and>
      gkeys (q_msgs (fold ?f xs q)) = gkeys (q_msgs q) - mid q ` fst ` set xs" for q
  proof (induction xs arbitrary: q)
    case (Cons x xs)
    obtain m e where x: "x = (m, e)" by (cases x)
    define q1 where "q1 = ?f x q"
    have i: "imm (q_store q1 r) = imm (q_store q r)" for r by (simp add: x q1_def)
    have k: "gkeys (q_msgs q1) = gkeys (q_msgs q) - {mid q m}" "q_cfg q1 = q_cfg q" "q_next q1 = q_next q"
      by (simp_all add: x q1_def)
    have e: "fold ?f (x # xs) q = fold ?f xs q1" by (simp add: q1_def)
    show ?case unfolding e using Cons.IH [of q1] i k by (auto simp: x imm_mid [OF i])
  qed simp
  then show ?thesis by (simp add: Maintain_deadlettered_def None)
qed

section \<open>The second halves\<close>

definition keys_after :: "qop \<Rightarrow> queue_error option \<Rightarrow> queue \<Rightarrow> string set" where
  "keys_after op err q =
     (if err \<noteq> None then gkeys (q_msgs q)
      else if op_removes op then gkeys (q_msgs q) - mid q ` set (op_about op)
      else if op_new op \<noteq> [] then gkeys (q_msgs q) \<union> mid q ` set (op_about op)
      else gkeys (q_msgs q))"

lemma live_key: "q_ok q T N \<Longrightarrow> m \<in># T \<Longrightarrow> mid q m \<in> gkeys (q_msgs q)"
  using q_ok_registered [of q m "T - {#m#}" N] by (simp add: gkeys_iff)

lemma finish_keeps:
  assumes ok: "q_ok q (T + mset (op_live op)) (N + mset (op_new op))" and fa: "op_facts q op"
    and fin: "finish_op clock op err q = (q', ops', evs)"
  shows "q_cfg q' = q_cfg q \<and> q_next q' = q_next q \<and> (\<forall>r. imm (q_store q' r) = imm (q_store q r)) \<and>
    gkeys (q_msgs q') = keys_after op err q"
proof (cases op)
  case (OpEnqueue m e k)
  then show ?thesis
    using fin by (auto simp: keys_after_def Enqueue_finish_def Let_def split: option.splits)
next
  case (OpDequeue ms p)
  obtain q1 ds where l: "lease_all (lp_ExpiresAt p) (zip ms (lp_Items p)) q = (q1, ds)" by fastforce
  show ?thesis
    using OpDequeue fin lease_all_keeps [OF l]
    by (cases err) (auto simp: keys_after_def tryDequeue_finish_def l)
next
  case (OpAck i m)
  then show ?thesis
    using fin fa by (auto simp: keys_after_def Ack_finish_def split: option.splits)
next
  case (OpNack c m d v)
  have "mid q m \<in> gkeys (q_msgs q)" using live_key [OF ok, of m] OpNack by simp
  then show ?thesis
    using OpNack fin by (cases err; cases d) (auto simp: keys_after_def Nack_finish_def)
next
  case (OpExpire c rq dl)
  have "mid q ` fst ` set rq \<subseteq> gkeys (q_msgs q)" using live_key [OF ok] OpExpire by auto
  then show ?thesis
    using OpExpire fin Maintain_requeued_keeps [of c rq err q]
    by (auto simp: keys_after_def Let_def)
next
  case (OpDead dl)
  then show ?thesis using fin Maintain_deadlettered_keeps [of dl err q]
    by (auto simp: keys_after_def image_image)
qed

lemma finish_q_ok:
  assumes ok: "q_ok q (T + mset (op_live op)) (N + mset (op_new op))" and fa: "op_facts q op"
    and fin: "finish_op clock op err q = (q', ops', evs)"
  shows "q_ok q' (T + ops_live ops') (N + ops_new ops')"
proof (cases op)
  case (OpEnqueue m e k)
  have "q_ok q T (add_mset m N)" using ok OpEnqueue by simp
  then show ?thesis using fin OpEnqueue q_ok_Enqueue_finish
    by (fastforce simp: ops_live_def ops_new_def split: prod.splits sum.splits)
next
  case (OpDequeue ms p)
  then show ?thesis
    using fin fa ok q_ok_tryDequeue_finish [of q T ms N p err]
    by (auto simp: ops_live_def ops_new_def split: prod.splits sum.splits)
next
  case (OpAck i m)
  then show ?thesis
    using fin fa ok q_ok_Ack_finish [of q m T N i err]
    by (auto simp: ops_live_def ops_new_def split: prod.splits option.splits)
next
  case (OpNack c m d v)
  then show ?thesis
    using fin ok q_ok_Nack_finish [of q m T N c d v err]
    by (auto simp: ops_live_def ops_new_def split: prod.splits option.splits)
next
  case (OpExpire c rq dl)
  have "q_ok q ((T + mset (map fst dl)) + mset (map fst rq)) N" using ok OpExpire by (simp add: ac_simps)
  from q_ok_Maintain_requeued [OF this] show ?thesis
    using fin OpExpire by (auto simp: ops_live_def ops_new_def Let_def)
next
  case (OpDead dl)
  then show ?thesis
    using fin ok q_ok_Maintain_deadlettered [of q T dl N err] by (simp add: ops_live_def ops_new_def)
qed

lemma rec_of_dead: "rec_of q (OpDead dl) (dlq_payload dl q)"
  by (auto simp: rec_of_def dlq_payload_def)

lemma rec_of_expire: "rec_of q (OpExpire c rq dl) (expire_payload c rq q)"
  by (auto simp: rec_of_def expire_payload_def)

lemma finish_next:
  "finish_op clock op err q = (q', ops', evs) \<Longrightarrow> x \<in> set ops' \<Longrightarrow>
     \<exists>dl. x = (OpDead dl, Reserved (dlq_payload dl q'))"
  by (cases op) (auto simp: Let_def split: prod.splits sum.splits option.splits if_splits)

lemma finish_events:
  assumes "finish_op clock op err q = (q', ops', evs)" "ev \<in> set evs" "answered s st err"
    and "\<And>k. st = Sent k \<Longrightarrow> rec_of q op (qs_sent s ! k)" "qs_committed s \<le> length (qs_sent s)"
    and "\<forall>r. imm (q_store q' r) = imm (q_store q r)"
  shows "ev_ok (take (qs_committed s) (qs_sent s)) ev"
proof (cases err)
  case (Some e)
  then show ?thesis using assms(1,2)
    by (cases op) (auto simp: Let_def Enqueue_finish_def tryDequeue_finish_def Ack_finish_def Nack_finish_def)
next
  case None
  then obtain k where k: "st = Sent k" "k < qs_committed s"
    using assms(3) by (auto simp: answered_def split: stage.splits)
  then have r: "rec_of q op (qs_sent s ! k)" and i: "qs_sent s ! k \<in> set (take (qs_committed s) (qs_sent s))"
    using assms(4,5) by (auto simp: in_set_conv_nth intro!: exI [of _ k])
  show ?thesis
  proof (cases op)
    case (OpEnqueue m e key)
    then have "ev = EvEnqueued (q_store q' m)"
      using assms(1,2) None by (auto simp: Enqueue_finish_def Let_def)
    then show ?thesis using r i OpEnqueue assms(6) by (auto simp: rec_of_def ev_ok_def)
  next
    case (OpAck j m)
    then have "ev = EvAcked j" using assms(1,2) None by (auto simp: Ack_finish_def)
    then show ?thesis using r i OpAck by (auto simp: rec_of_def ev_ok_def)
  qed (use assms(1,2) None in \<open>auto simp: ev_ok_def tryDequeue_finish_def Nack_finish_def Let_def
      split: prod.splits if_splits\<close>)
qed

section \<open>Messages in different hands are different\<close>

definition op_refs :: "qop \<Rightarrow> ref list" where
  "op_refs op = op_live op @ op_new op"

lemma op_about_refs: "set (op_about op) \<subseteq> set (op_refs op)"
  by (cases op) (auto simp: op_refs_def)

lemma ops_refs_distinct:
  assumes "q_ok q (ops_live ops) (ops_new ops)"
  shows "distinct (concat (map (op_refs \<circ> fst) ops))"
    and "r \<in> set (concat (map (op_refs \<circ> fst) ops)) \<Longrightarrow> r < q_next q"
proof -
  have m: "mset (concat (map (op_refs \<circ> fst) ops)) = ops_live ops + ops_new ops"
    by (induction ops) (auto simp: ops_live_def ops_new_def op_refs_def)
  have c: "count (ops_live ops + ops_new ops) r \<le> of_bool (r < q_next q)" for r
  proof -
    have "count (held q + ops_live ops + ops_new ops + mset (q_dlq q)) r \<le> of_bool (r < q_next q)"
      using assms by (simp only: q_ok_def)
    then show ?thesis by simp
  qed
  have "count (mset (concat (map (op_refs \<circ> fst) ops))) r \<le> of_bool (r < q_next q)" for r
    using c [of r] unfolding m .
  note cb = count_of_bool [OF this]
  show "distinct (concat (map (op_refs \<circ> fst) ops))" using cb by blast
  show "r < q_next q" if "r \<in> set (concat (map (op_refs \<circ> fst) ops))" using cb that by blast
qed

lemma sent_ids_simps [simp]:
  "sent_ids P q [] = {}"
  "sent_ids P q (a @ b) = sent_ids P q a \<union> sent_ids P q b"
  "sent_ids P q ((op, Reserved p) # b) = sent_ids P q b"
  "sent_ids P q ((op, Refused) # b) = sent_ids P q b"
  "sent_ids P q ((op, Sent k) # b) = (if P op then mid q ` set (op_about op) else {}) \<union> sent_ids P q b"
  unfolding sent_ids_def by auto

lemma sent_ids_refs: "sent_ids P q ops \<subseteq> mid q ` set (concat (map (op_refs \<circ> fst) (filter (P \<circ> fst) ops)))"
proof
  fix i assume "i \<in> sent_ids P q ops"
  then obtain op st r where "(op, st) \<in> set ops" "P op" "r \<in> set (op_about op)" "i = mid q r"
    by (auto simp: sent_ids_def)
  moreover from this have "r \<in> set (op_refs op)" using op_about_refs by blast
  ultimately show "i \<in> mid q ` set (concat (map (op_refs \<circ> fst) (filter (P \<circ> fst) ops)))" by force
qed

lemma sent_ids_cong:
  assumes "\<And>r. r \<in> set (concat (map (op_refs \<circ> fst) ops)) \<Longrightarrow> mid q' r = mid q r"
  shows "sent_ids P q' ops = sent_ids P q ops"
  using assms
proof (induction ops)
  case (Cons x ops)
  obtain op st where x: "x = (op, st)" by (cases x)
  have "mid q' ` set (op_about op) = mid q ` set (op_about op)"
    using Cons.prems op_about_refs [of op] x by (intro image_cong) auto
  moreover have "sent_ids P q' ops = sent_ids P q ops" using Cons by simp
  ultimately show ?case using x by (cases st) auto
qed simp

section \<open>Preservation\<close>

lemma rec_of_cong:
  assumes "rec_of q op p" "\<And>r. r \<in> set (op_refs op) \<Longrightarrow> imm (q_store q' r) = imm (q_store q r)"
  shows "rec_of q' op p"
proof -
  have i: "mid q' r = mid q r" if "r \<in> set (op_refs op)" for r
    using assms(2) [OF that] imm_ID by blast
  have "map (mid q') (op_about op) = map (mid q) (op_about op)"
    using i op_about_refs by (intro map_cong) auto
  then show ?thesis
    using assms unfolding rec_of_def by (cases op) (auto simp: op_refs_def)
qed

lemma op_facts_cong:
  assumes "op_facts q op" "\<And>r. r \<in> set (op_refs op) \<Longrightarrow> imm (q_store q' r) = imm (q_store q r)"
  shows "op_facts q' op"
proof -
  have "mid q' r = mid q r" if "r \<in> set (op_refs op)" for r
    using assms(2) [OF that] imm_ID by blast
  then show ?thesis using assms(1) by (cases op) (auto simp: op_refs_def)
qed

lemma qs_invD:
  assumes "qs_inv cfg s"
  shows "q_cfg (qs_q s) = cfg" "q_ok (qs_q s) (ops_live (qs_ops s)) (ops_new (qs_ops s))"
    "\<And>x. x \<in> set (qs_ops s) \<Longrightarrow> op_ok s x" "qs_committed s \<le> length (qs_sent s)" "log_wf (qs_sent s)"
    "enq_ids (qs_sent s) \<subseteq> mid (qs_q s) ` {..<q_next (qs_q s)}"
    "\<not> qs_failed s \<Longrightarrow> live_ids (qs_sent s) =
        (gkeys (q_msgs (qs_q s)) - sent_ids op_removes (qs_q s) (qs_ops s)) \<union>
        sent_ids (\<lambda>op. op_new op \<noteq> []) (qs_q s) (qs_ops s)"
    "\<And>ev. ev \<in> set (qs_hist s) \<Longrightarrow> ev_ok (take (qs_committed s) (qs_sent s)) ev"
  using assms unfolding qs_inv_def by blast+

lemma refs_below: "qs_inv cfg s \<Longrightarrow> (op, st) \<in> set (qs_ops s) \<Longrightarrow> r \<in> set (op_refs op) \<Longrightarrow> r < q_next (qs_q s)"
  using ops_refs_distinct(2) [OF qs_invD(2)] by fastforce

lemma op_ok_evolves:
  assumes "qs_inv cfg s" "evolves (qs_q s) q'" "x \<in> set (qs_ops s)"
    and t: "qs_q t = q'" "qs_sent t = qs_sent s"
  shows "op_ok t x"
proof -
  obtain op st where x: "x = (op, st)" by (cases x)
  have i: "imm (q_store q' r) = imm (q_store (qs_q s) r)" if "r \<in> set (op_refs op)" for r
    using refs_below [OF assms(1), of op st r] that assms(2,3) x by (auto simp: evolves_def)
  have "op_ok s x" using qs_invD(3) assms(1,3) by blast
  then show ?thesis
    using rec_of_cong [OF _ i] op_facts_cong [OF _ i] x t
    by (auto simp: op_ok_def split: stage.splits)
qed

lemma mids_grow: "evolves q q' \<Longrightarrow> mid q ` {..<q_next q} \<subseteq> mid q' ` {..<q_next q'}"
proof (rule image_subsetI)
  fix r assume e: "evolves q q'" and "r \<in> {..<q_next q}"
  then have "mid q r = mid q' r" "r \<in> {..<q_next q'}" using evolves_mid [OF e, of r] by (auto simp: evolves_def)
  then show "mid q r \<in> mid q' ` {..<q_next q'}" by blast
qed

lemma qs_inv_reserve:
  assumes inv: "qs_inv cfg s" and ok: "q_ok q' (ops_live (qs_ops s @ new)) (ops_new (qs_ops s @ new))"
    and ev: "evolves (qs_q s) q'" and keys: "gkeys (q_msgs q') = gkeys (q_msgs (qs_q s))"
    and new: "\<And>x. x \<in> set new \<Longrightarrow> \<exists>op p. x = (op, Reserved p) \<and> op_facts q' op \<and> rec_of q' op p \<and>
      (is_enqueue p \<longrightarrow> set (payload_ids p) \<inter> enq_ids (qs_sent s) = {})"
  shows "qs_inv cfg (s\<lparr>qs_q := q', qs_ops := qs_ops s @ new\<rparr>)"
proof -
  let ?t = "s\<lparr>qs_q := q', qs_ops := qs_ops s @ new\<rparr>"
  note D = qs_invD [OF inv]
  have "op_ok ?t x" if "x \<in> set (qs_ops s @ new)" for x
    using that op_ok_evolves [OF inv ev, of x ?t] new [of x] by (auto simp: op_ok_def)
  moreover have "sent_ids P q' (qs_ops s @ new) = sent_ids P (qs_q s) (qs_ops s)" for P
  proof -
    have "sent_ids P q' (qs_ops s) = sent_ids P (qs_q s) (qs_ops s)"
      using ops_refs_distinct(2) [OF D(2)] evolves_mid [OF ev] by (intro sent_ids_cong) blast
    moreover have "sent_ids P q' new = {}" using new by (auto simp: sent_ids_def)
    ultimately show ?thesis by simp
  qed
  moreover have "enq_ids (qs_sent s) \<subseteq> mid q' ` {..<q_next q'}" using D(6) mids_grow [OF ev] by blast
  moreover have "q_cfg q' = cfg" using ev D(1) by (simp add: evolves_def)
  ultimately show ?thesis using D(4,5,7,8) ok keys unfolding qs_inv_def by simp
qed

text \<open>The first halves.\<close>

lemma ops_snoc:
  "ops_live (ops @ [(op, st)]) = ops_live ops + mset (op_live op)"
  "ops_new (ops @ [(op, st)]) = ops_new ops + mset (op_new op)"
  by (simp_all add: ops_live_def ops_new_def)

lemma Enqueue_reserve_append:
  assumes "Enqueue_reserve clock newID body priority delay key q = (q', EnqAppend m e p)"
  shows "\<exists>x. p = PEnqueue x \<and> ep_ID x = newID \<and> imm_of x = imm (q_store q' m) \<and> m = q_next q \<and>
    q_next q' = Suc (q_next q) \<and> q_msgs q' = q_msgs q \<and> evolves q q'"
  using assms
  by (auto simp: Enqueue_reserve_def Let_def imm_def imm_of_def evolves_def add_cnt_def split: option.splits if_splits)

lemma qs_inv_enqueue:
  assumes inv: "qs_inv cfg s"
    and r: "Enqueue_reserve clock newID body priority delay key (qs_q s) = (q', EnqAppend m e p)"
    and fresh: "\<forall>r < q_next (qs_q s). m_ID (q_store (qs_q s) r) \<noteq> newID"
  shows "qs_inv cfg (s\<lparr>qs_q := q', qs_ops := qs_ops s @ [(OpEnqueue m e key, Reserved p)]\<rparr>)"
proof -
  obtain x where x: "p = PEnqueue x" "ep_ID x = newID" "imm_of x = imm (q_store q' m)" "m = q_next (qs_q s)"
    "q_next q' = Suc (q_next (qs_q s))" "q_msgs q' = q_msgs (qs_q s)" "evolves (qs_q s) q'"
    using Enqueue_reserve_append [OF r] by blast
  have "mid q' m = newID" using x(2,3) by (simp add: imm_def imm_of_def)
  moreover have "newID \<notin> enq_ids (qs_sent s)" using qs_invD(6) [OF inv] fresh by auto
  ultimately have "rec_of q' (OpEnqueue m e key) p" "set (payload_ids p) \<inter> enq_ids (qs_sent s) = {}"
    using x by (simp_all add: rec_of_def)
  moreover have "q_ok q' (ops_live (qs_ops s)) (add_mset m (ops_new (qs_ops s)))"
    using q_ok_Enqueue_reserve [OF qs_invD(2) [OF inv] fresh r] by simp
  ultimately show ?thesis
    using x by (intro qs_inv_reserve [OF inv]) (auto simp: ops_snoc)
qed

lemma qs_inv_queue:
  assumes "qs_inv cfg s" "q_ok q' (ops_live (qs_ops s)) (ops_new (qs_ops s))"
    "q_cfg q' = q_cfg (qs_q s)" "q_next q' = q_next (qs_q s)" "q_store q' = q_store (qs_q s)"
    "q_msgs q' = q_msgs (qs_q s)"
  shows "qs_inv cfg (s\<lparr>qs_q := q'\<rparr>)"
proof -
  have "qs_inv cfg (s\<lparr>qs_q := q', qs_ops := qs_ops s @ []\<rparr>)"
    using assms by (intro qs_inv_reserve [OF assms(1)]) (auto intro: evolves_same)
  then show ?thesis by simp
qed

lemma tryDequeue_reserve_keeps:
  assumes "tryDequeue_reserve clock tok n q = (q', r)"
  shows "q_cfg q' = q_cfg q" "q_next q' = q_next q" "q_store q' = q_store q" "q_msgs q' = q_msgs q"
    and "r = Some (ms, p) \<Longrightarrow> map li_ID (lp_Items p) = map (mid q) ms"
proof -
  let ?q1 = "promoteDue (unixMilli clock) q"
  obtain picked rh where p: "pop_upto (ready_pop (q_store ?q1)) (nat n) (q_ready ?q1) = (picked, rh)"
    by fastforce
  have id: "map (\<lambda>i. mid q (picked ! i)) [0..<length picked] = map (mid q) picked"
    by (simp add: map_nth map_map [of "mid q" "(!) picked", unfolded comp_def, symmetric])
  show "q_cfg q' = q_cfg q" "q_next q' = q_next q" "q_store q' = q_store q" "q_msgs q' = q_msgs q"
    "r = Some (ms, p) \<Longrightarrow> map li_ID (lp_Items p) = map (mid q) ms"
    using assms p id by (auto simp: tryDequeue_reserve_def Let_def comp_def split: if_splits)
qed

lemma qs_inv_dequeue:
  assumes inv: "qs_inv cfg s" and r: "tryDequeue_reserve clock tok n (qs_q s) = (q', Some (ms, p))"
  shows "qs_inv cfg (s\<lparr>qs_q := q', qs_ops := qs_ops s @ [(OpDequeue ms p, Reserved (PLease p))]\<rparr>)"
proof -
  note k = tryDequeue_reserve_keeps [OF r]
  have "map li_ID (lp_Items p) = map (mid q') ms" using k(3) k(5) [OF refl] by simp
  moreover from this have "length (lp_Items p) = length ms" by (metis length_map)
  moreover have "q_ok q' (ops_live (qs_ops s) + mset ms) (ops_new (qs_ops s))"
    using q_ok_tryDequeue_reserve [OF qs_invD(2) [OF inv] r] by simp
  ultimately show ?thesis
    using k evolves_same [OF k(1-3)]
    by (intro qs_inv_reserve [OF inv]) (auto simp: ops_snoc rec_of_def)
qed

lemma qs_inv_taken:
  assumes inv: "qs_inv cfg s" and t: "takeLeased i token (qs_q s) = Inr (m, q')"
    and op: "op_live op = [m]" "op_new op = []" "op_facts q' op" "rec_of q' op p"
  shows "qs_inv cfg (s\<lparr>qs_q := q', qs_ops := qs_ops s @ [(op, Reserved p)]\<rparr>)"
proof -
  have "q_ok q' (ops_live (qs_ops s) + {#m#}) (ops_new (qs_ops s))"
    using q_ok_takeLeased [OF qs_invD(2) [OF inv] t] by simp
  moreover have "\<not> is_enqueue p" using op(2,4) by (simp add: rec_of_def)
  ultimately show ?thesis
    using takeLeased_InrD(3) [OF t] op
    by (intro qs_inv_reserve [OF inv]) (auto simp: ops_snoc intro: evolves_same)
qed

lemma qs_inv_ack:
  assumes inv: "qs_inv cfg s" and r: "Ack_reserve i token (qs_q s) = Inr (m, p, q')"
  shows "qs_inv cfg (s\<lparr>qs_q := q', qs_ops := qs_ops s @ [(OpAck i m, Reserved p)]\<rparr>)"
proof -
  have t: "takeLeased i token (qs_q s) = Inr (m, q')" "p = PAck \<lparr>ap_Queue = c_Name (q_cfg q'), ap_ID = i\<rparr>"
    using r by (auto simp: Ack_reserve_def split: sum.splits)
  have "mid q' m = i" using q_ok_takeLeased [OF qs_invD(2) [OF inv] t(1)] by simp
  then show ?thesis using t(2) by (intro qs_inv_taken [OF inv t(1)]) (auto simp: rec_of_def)
qed

lemma qs_inv_nack:
  assumes inv: "qs_inv cfg s" and r: "Nack_reserve clock i token delay (qs_q s) = Inr (m, d, v, p, q')"
  shows "qs_inv cfg (s\<lparr>qs_q := q', qs_ops := qs_ops s @ [(OpNack clock m d v, Reserved p)]\<rparr>)"
proof -
  have t: "takeLeased i token (qs_q s) = Inr (m, q')"
    using r by (auto simp: Nack_reserve_def Let_def split: sum.splits)
  have "mid q' m = i" using q_ok_takeLeased [OF qs_invD(2) [OF inv] t(1)] by simp
  then have "rec_of q' (OpNack clock m d v) p"
    using r t by (auto simp: Nack_reserve_def Let_def rec_of_def split: if_splits)
  then show ?thesis by (intro qs_inv_taken [OF inv t(1)]) auto
qed

lemma qs_inv_maintain:
  assumes inv: "qs_inv cfg s" and r: "Maintain_reserve clock (qs_q s) = (q', rq, dl)"
  shows "qs_inv cfg (s\<lparr>qs_q := q', qs_ops := qs_ops s @ maintain_ops clock rq dl q'\<rparr>)"
proof -
  have "reclaim (unixMilli clock) (promoteDue (unixMilli clock) (qs_q s)) [] [] = (q', rq, dl)"
    using r by (simp add: Maintain_reserve_def Let_def)
  from reclaim_keeps [OF this] have k: "q_cfg q' = q_cfg (qs_q s)" "q_next q' = q_next (qs_q s)"
    "q_store q' = q_store (qs_q s)" "q_msgs q' = q_msgs (qs_q s)" by simp_all
  have "q_ok q' (ops_live (qs_ops s) + mset (map fst rq) + mset (map fst dl)) (ops_new (qs_ops s))"
    using q_ok_Maintain_reserve [OF qs_invD(2) [OF inv] r] .
  then show ?thesis
    using k evolves_same [OF k(1-3)] rec_of_dead [of q' dl] rec_of_expire [of q' clock rq dl]
    by (intro qs_inv_reserve [OF inv])
      (auto simp: maintain_ops_def ops_snoc add.assoc rec_of_def expire_payload_def dlq_payload_def split: if_splits)
qed

text \<open>Sending.\<close>

lemma ops_mid:
  "ops_live (xs @ (op, st) # ys) = ops_live (xs @ ys) + mset (op_live op)"
  "ops_new (xs @ (op, st) # ys) = ops_new (xs @ ys) + mset (op_new op)"
  by (simp_all add: ops_live_def ops_new_def)

text \<open>
  The messages of one operation differ from those of the others, and so do their identifiers.
\<close>

lemma other_ids:
  assumes ok: "q_ok q (ops_live (xs @ (op, st) # ys)) (ops_new (xs @ (op, st) # ys))"
  shows "mid q ` set (op_about op) \<inter> sent_ids P q (xs @ ys) = {}"
    and "distinct (map (mid q) (op_about op))"
    and "(op', st') \<in> set (xs @ ys) \<Longrightarrow> mid q ` set (op_about op) \<inter> mid q ` set (op_about op') = {}"
proof -
  note d = ops_refs_distinct [OF ok]
  have inj: "inj_on (mid q) {..<q_next q}" using ok by (simp add: q_ok_def)
  have disj: "set (op_refs op) \<inter> set (concat (map (op_refs \<circ> fst) (xs @ ys))) = {}"
    using d(1) by auto
  have lt: "set (op_refs op) \<subseteq> {..<q_next q}" "set (concat (map (op_refs \<circ> fst) (xs @ ys))) \<subseteq> {..<q_next q}"
    using d(2) by auto
  let ?B = "set (concat (map (op_refs \<circ> fst) (xs @ ys)))"
  have img: "mid q ` set (op_refs op) \<inter> mid q ` ?B = {}"
    using inj_on_image_Int [OF inj lt] disj by simp
  have ab: "mid q ` set (op_about op) \<subseteq> mid q ` set (op_refs op)" using op_about_refs by (rule image_mono)
  show "mid q ` set (op_about op) \<inter> sent_ids P q (xs @ ys) = {}"
  proof -
    have "set (concat (map (op_refs \<circ> fst) (filter (P \<circ> fst) (xs @ ys)))) \<subseteq> ?B" by auto
    then have "sent_ids P q (xs @ ys) \<subseteq> mid q ` ?B" using sent_ids_refs [of P q "xs @ ys"] by blast
    then show ?thesis using img ab by blast
  qed
  have "distinct (op_refs op)" using d(1) by simp
  then have "distinct (op_about op)" by (cases op) (auto simp: op_refs_def)
  moreover have "set (op_about op) \<subseteq> {..<q_next q}" using op_about_refs lt(1) by blast
  ultimately show "distinct (map (mid q) (op_about op))"
    using inj by (simp add: distinct_map inj_on_subset)
  show "mid q ` set (op_about op) \<inter> mid q ` set (op_about op') = {}" if "(op', st') \<in> set (xs @ ys)"
  proof -
    have "set (op_refs op') \<subseteq> ?B" using that by force
    then have "set (op_about op') \<subseteq> ?B" using op_about_refs [of op'] by blast
    then show ?thesis using img ab by blast
  qed
qed

lemma about_live_keys:
  assumes "q_ok q (ops_live (xs @ (op, st) # ys)) N" "op_new op = []"
  shows "mid q ` set (op_about op) \<subseteq> gkeys (q_msgs q)"
proof
  fix i assume "i \<in> mid q ` set (op_about op)"
  then obtain m where m: "m \<in> set (op_about op)" "i = mid q m" by blast
  then have "m \<in> set (op_live op)" using op_about_refs [of op] assms(2) by (auto simp: op_refs_def)
  then show "i \<in> gkeys (q_msgs q)" using live_key [OF assms(1), of m] m(2) by (simp add: ops_mid)
qed

lemma qs_inv_send:
  assumes inv: "qs_inv cfg s" and ops: "qs_ops s = xs @ (op, Reserved p) # ys" and nf: "\<not> qs_failed s"
  shows "qs_inv cfg (s\<lparr>qs_ops := xs @ (op, Sent (length (qs_sent s))) # ys, qs_sent := qs_sent s @ [p]\<rparr>)"
proof -
  let ?q = "qs_q s" and ?L = "qs_sent s"
  let ?t = "s\<lparr>qs_ops := xs @ (op, Sent (length ?L)) # ys, qs_sent := ?L @ [p]\<rparr>"
  note D = qs_invD [OF inv, unfolded ops]
  have o: "op_facts ?q op" "rec_of ?q op p" "is_enqueue p \<Longrightarrow> set (payload_ids p) \<inter> enq_ids ?L = {}"
    using D(3) [of "(op, Reserved p)"] by (auto simp: op_ok_def)
  have pid: "payload_ids p = map (mid ?q) (op_about op)" "\<not> is_create p" "removes p = op_removes op"
    "is_enqueue p = (op_new op \<noteq> [])"
    using o(2) by (simp_all add: rec_of_def)
  note oth = other_ids [OF D(2)]
  let ?R = "sent_ids op_removes ?q (xs @ ys)" and ?W = "sent_ids (\<lambda>op. op_new op \<noteq> []) ?q (xs @ ys)"
  have live: "live_ids ?L = (gkeys (q_msgs ?q) - ?R) \<union> ?W" using D(7) [OF nf] by simp
  have wf: "rec_wf ?L p"
  proof -
    have "set (payload_ids p) \<subseteq> live_ids ?L" if "\<not> is_enqueue p"
      using about_live_keys [OF D(2)] that oth(1) [of op_removes] live pid by auto
    then show ?thesis using o(3) oth(2) pid by (auto simp: rec_wf_def)
  qed
  then have lwf: "log_wf (?L @ [p])" using D(5) log_wf_snoc by blast
  have nor: "is_enqueue p \<Longrightarrow> \<not> removes p" by (cases p) simp_all
  have live': "live_ids (?L @ [p]) =
      (gkeys (q_msgs ?q) - sent_ids op_removes ?q (xs @ (op, Sent (length ?L)) # ys)) \<union>
      sent_ids (\<lambda>op. op_new op \<noteq> []) ?q (xs @ (op, Sent (length ?L)) # ys)"
    using live_snoc [OF lwf] live oth(1) [of "\<lambda>op. op_new op \<noteq> []"] pid nor by auto
  have opok: "op_ok ?t x" if x: "x \<in> set (xs @ (op, Sent (length ?L)) # ys)" for x
  proof (cases "x = (op, Sent (length ?L))")
    case True
    then show ?thesis using o by (simp add: op_ok_def)
  next
    case False
    then have x': "x \<in> set (xs @ ys)" using x by auto
    obtain op' st' where e: "x = (op', st')" by (cases x)
    have k: "op_ok s x" using D(3) x' by auto
    show ?thesis
    proof (cases st')
      case (Reserved p')
      then have "payload_ids p' = map (mid ?q) (op_about op')" using k e by (simp add: op_ok_def rec_of_def)
      then show ?thesis using k e Reserved oth(3) [of op' st'] x' pid(1) by (auto simp: op_ok_def)
    qed (use k e in \<open>auto simp: op_ok_def nth_append\<close>)
  qed
  have "enq_ids (?L @ [p]) \<subseteq> mid ?q ` {..<q_next ?q}"
  proof -
    have "mid ?q ` set (op_about op) \<subseteq> mid ?q ` {..<q_next ?q}"
      using refs_below [OF inv, of op "Reserved p"] op_about_refs [of op] ops by auto
    then show ?thesis using D(6) pid(1) by simp
  qed
  then show ?thesis
    unfolding qs_inv_def using D(1,2,4,8) lwf live' opok by (simp add: ops_mid)
qed

text \<open>Finishing.\<close>

lemma ops_append:
  "ops_live (a @ b) = ops_live a + ops_live b" "ops_new (a @ b) = ops_new a + ops_new b"
  by (simp_all add: ops_live_def ops_new_def)

lemma qs_inv_finish:
  assumes inv: "qs_inv cfg s" and ops: "qs_ops s = xs @ (op, st) # ys" and an: "answered s st err"
    and fin: "finish_op clock op err (qs_q s) = (q', ops', evs)"
  shows "qs_inv cfg (s\<lparr>qs_q := q', qs_ops := xs @ ys @ ops', qs_hist := qs_hist s @ evs\<rparr>)"
proof -
  let ?q = "qs_q s" and ?t = "s\<lparr>qs_q := q', qs_ops := xs @ ys @ ops', qs_hist := qs_hist s @ evs\<rparr>"
  note D = qs_invD [OF inv, unfolded ops]
  have ok: "q_ok ?q (ops_live (xs @ ys) + mset (op_live op)) (ops_new (xs @ ys) + mset (op_new op))"
    using D(2) by (simp only: ops_mid)
  have o: "op_ok s (op, st)" using D(3) by simp
  then have fa: "op_facts ?q op" by (simp add: op_ok_def)
  note K = finish_keeps [OF ok fa fin]
  have ev: "evolves ?q q'" using K by (simp add: evolves_def)
  have q_ok': "q_ok q' (ops_live (xs @ ys @ ops')) (ops_new (xs @ ys @ ops'))"
    using finish_q_ok [OF ok fa fin] by (simp add: ops_append ac_simps)
  have same: "mid q' r = mid ?q r" for r using K imm_ID by blast
  have s_ids: "sent_ids P q' (xs @ ys @ ops') = sent_ids P ?q (xs @ ys)" for P
  proof -
    have "sent_ids P q' ops' = {}" using finish_next [OF fin] by (fastforce simp: sent_ids_def)
    moreover have "sent_ids P q' (xs @ ys) = sent_ids P ?q (xs @ ys)" using same by (intro sent_ids_cong) simp
    ultimately show ?thesis by simp
  qed
  note oth = other_ids [OF D(2)]
  have live: "live_ids (qs_sent s) = (gkeys (q_msgs q') - sent_ids op_removes ?q (xs @ ys)) \<union>
      sent_ids (\<lambda>op. op_new op \<noteq> []) ?q (xs @ ys)" if nf: "\<not> qs_failed s"
  proof (cases st)
    case (Reserved p)
    then show ?thesis using an by (simp add: answered_def)
  next
    case (Sent k)
    then have "err = None" using an nf by (auto simp: answered_def split: option.splits)
    moreover have "op_removes op \<Longrightarrow> op_new op = []" by (cases op) simp_all
    ultimately show ?thesis
      using D(7) [OF nf] K oth(1) [of op_removes] Sent by (auto simp: keys_after_def)
  next
    case Refused
    then have "err \<noteq> None" using an by (simp add: answered_def)
    then show ?thesis using D(7) [OF nf] K Refused by (simp add: keys_after_def)
  qed
  have opok: "op_ok ?t x" if "x \<in> set (xs @ ys @ ops')" for x
  proof (cases "x \<in> set ops'")
    case True
    then obtain dl where "x = (OpDead dl, Reserved (dlq_payload dl q'))" using finish_next [OF fin] by blast
    then show ?thesis using rec_of_dead [of q' dl] by (auto simp: op_ok_def rec_of_def)
  next
    case False
    then have "x \<in> set (qs_ops s)" using that ops by auto
    from op_ok_evolves [OF inv ev this, of ?t] show ?thesis by simp
  qed
  have hist: "ev_ok (take (qs_committed s) (qs_sent s)) e" if "e \<in> set evs" for e
  proof -
    have "st = Sent k \<Longrightarrow> rec_of ?q op (qs_sent s ! k)" for k using o by (simp add: op_ok_def)
    then show ?thesis using finish_events [OF fin that an _ D(4)] K by blast
  qed
  have "enq_ids (qs_sent s) \<subseteq> mid q' ` {..<q_next q'}" using D(6) mids_grow [OF ev] by blast
  then show ?thesis
    unfolding qs_inv_def using D(1,4,5,8) K q_ok' live opok hist by (auto simp: s_ids simp del: sent_ids_simps)
qed

section \<open>The invariant holds in every reachable state\<close>

lemma op_ok_frame [simp]:
  "op_ok (s\<lparr>qs_ops := ops\<rparr>) = op_ok s" "op_ok (s\<lparr>qs_committed := k\<rparr>) = op_ok s"
  "op_ok (s\<lparr>qs_failed := b\<rparr>) = op_ok s"
  by (auto simp: op_ok_def fun_eq_iff split: stage.split)

lemma qs_ops_same [simp]: "s\<lparr>qs_q := q', qs_ops := qs_ops s\<rparr> = s\<lparr>qs_q := q'\<rparr>"
  by (cases s) simp

lemma qs_inv_call:
  assumes inv: "qs_inv cfg s" and c: "qcall (qs_q s) q' new"
  shows "qs_inv cfg (s\<lparr>qs_q := q', qs_ops := qs_ops s @ new\<rparr>)"
  using c
proof cases
  case (q_duplicate clock newID body priority delay key e)
  have "q' = add_cnt (\<lambda>c. c\<lparr>n_deduped := n_deduped c + 1\<rparr>) (qs_q s)"
    using q_duplicate(2) by (auto simp: Enqueue_reserve_def Let_def split: option.splits if_splits)
  then show ?thesis using q_duplicate(1) qs_inv_queue [OF inv] qs_invD(2) [OF inv] by simp
next
  case (q_empty clock tok n)
  then show ?thesis
    using qs_inv_queue [OF inv] tryDequeue_reserve_keeps(1-4) [OF q_empty(2)]
      q_ok_tryDequeue_reserve [OF qs_invD(2) [OF inv] q_empty(2)] by simp
next
  case (q_stats clock st)
  have "q' = promoteDue (unixMilli clock) (qs_q s)" using q_stats(2) by (simp add: Stats_def Let_def)
  then show ?thesis using q_stats(1) qs_inv_queue [OF inv] q_ok_promoteDue [OF qs_invD(2) [OF inv]] by simp
next
  case (q_deadline d)
  have "\<exists>n. q' = (qs_q s)\<lparr>q_armed := n\<rparr>" using q_deadline(2) by (auto simp: nextDeadline_def Let_def)
  then show ?thesis using q_deadline(1) qs_inv_queue [OF inv] qs_invD(2) [OF inv] by auto
next
  case q_stop
  then show ?thesis using qs_inv_queue [OF inv] qs_invD(2) [OF inv] by (simp add: stop_def)
next
  case (q_enqueue clock newID body priority delay key m e p)
  then show ?thesis using qs_inv_enqueue [OF inv q_enqueue(2,3)] by simp
next
  case (q_dequeue clock tok n ms p)
  then show ?thesis using qs_inv_dequeue [OF inv q_dequeue(2)] by simp
next
  case (q_ack i token m p)
  then show ?thesis using qs_inv_ack [OF inv q_ack(2)] by simp
next
  case (q_nack clock i token delay m d v p)
  then show ?thesis using qs_inv_nack [OF inv q_nack(2)] by simp
next
  case (q_maintain clock rq dl)
  then show ?thesis using qs_inv_maintain [OF inv q_maintain(2)] by simp
qed

lemma qs_inv_step:
  assumes inv: "qs_inv cfg s" and st: "qstep s s'"
  shows "qs_inv cfg s'"
  using st
proof cases
  case (q_call q' new)
  then show ?thesis using qs_inv_call [OF inv] by simp
next
  case (q_refuse xs op p ys)
  have "op_ok s (op, Refused)" using qs_invD(3) [OF inv] q_refuse(2) by (auto simp: op_ok_def)
  then show ?thesis
    using inv q_refuse unfolding qs_inv_def by (simp add: ops_mid)
next
  case (q_commit k)
  have "ev_ok (take k (qs_sent s)) e" if "e \<in> set (qs_hist s)" for e
  proof -
    have "set (take (qs_committed s) (qs_sent s)) \<subseteq> set (take k (qs_sent s))"
      using q_commit(3) by (rule set_take_subset_set_take)
    then show ?thesis using qs_invD(8) [OF inv that] by (auto simp: ev_ok_def split: qevent.splits)
  qed
  then show ?thesis using inv q_commit unfolding qs_inv_def by simp
next
  case q_fail
  then show ?thesis using inv unfolding qs_inv_def by simp
next
  case (q_send xs op p ys)
  then show ?thesis using qs_inv_send [OF inv q_send(2,3)] by simp
next
  case (q_finish xs op st ys err clock q' ops' evs)
  then show ?thesis using qs_inv_finish [OF inv q_finish(2-4)] by simp
qed

lemma qs_inv_start:
  assumes wf: "log_wf base" and st: "qs_start cfg now base s"
  shows "qs_inv cfg s"
proof -
  obtain q rs where q: "fold_err apply_queue base (newQueue cfg, []) = Inr (q, rs)"
    and s: "s = \<lparr>qs_q = finalize_queue now (case gget rs (c_Name cfg) of Some l \<Rightarrow> l | None \<Rightarrow> []) q,
             qs_ops = [], qs_sent = base, qs_committed = length base, qs_failed = False, qs_hist = []\<rparr>"
    using st by (auto simp: qs_start_def)
  have f: "folded cfg base (live_ids base) q" using replay_wf [OF wf, of cfg "[]"] q by auto
  have "mid (finalize_queue now l q) r = mid q r" for l r by (rule imm_ID) simp
  then show ?thesis
    using f wf q_ok_finalize [OF f] unfolding qs_inv_def s
    by (simp add: ops_live_def ops_new_def folded_def)
qed

lemma qs_inv_reach: "qreach s0 s \<Longrightarrow> qs_inv cfg s0 \<Longrightarrow> qs_inv cfg s"
  by (induction rule: qreach.induct) (auto intro: qs_inv_step)

end
