(* ===== verification/QueueDurable.thy ===== *)
theory QueueDurable
  imports QueueSys
begin

text \<open>
  What the interleaving of \<open>QueueSys\<close> guarantees: conservation of messages, and durability across
  crashes and restarts of one queue.
\<close>

section \<open>Lives of a queue\<close>

text \<open>
  A queue is created over an empty log, works, and is hit by crashes. A crash keeps some prefix of
  the sent records that covers the committed ones; the next life starts from its replay. The first
  argument collects what callers were told in the lives before the current one.
\<close>

inductive qlife :: "config \<Rightarrow> qevent list \<Rightarrow> qsys \<Rightarrow> bool" for cfg where
  qlife_new: "qs_start cfg now [] s \<Longrightarrow> qlife cfg [] s"
| qlife_step: "qlife cfg H s \<Longrightarrow> qstep s s' \<Longrightarrow> qlife cfg H s'"
| qlife_crash: "\<lbrakk>qlife cfg H s; qs_committed s \<le> n; n \<le> length (qs_sent s);
      qs_start cfg now (take n (qs_sent s)) s'\<rbrakk> \<Longrightarrow> qlife cfg (H @ qs_hist s) s'"

lemma ev_ok_mono: "ev_ok L ev \<Longrightarrow> set L \<subseteq> set M \<Longrightarrow> ev_ok M ev"
  by (auto simp: ev_ok_def split: qevent.splits)

lemma committed_mono:
  assumes "qs_inv cfg s" "qstep s s'"
  shows "set (take (qs_committed s) (qs_sent s)) \<subseteq> set (take (qs_committed s') (qs_sent s'))"
  using assms(2)
proof cases
  case (q_commit k)
  then show ?thesis by (simp add: set_take_subset_set_take)
qed (use qs_invD(4) [OF assms(1)] in auto)

lemma qs_start_simps:
  "qs_start cfg now base s \<Longrightarrow> qs_sent s = base \<and> qs_committed s = length base \<and> qs_hist s = [] \<and> qs_ops s = []"
  by (auto simp: qs_start_def)

lemma qlife_inv:
  "qlife cfg H s \<Longrightarrow> qs_inv cfg s \<and> (\<forall>ev \<in> set H. ev_ok (take (qs_committed s) (qs_sent s)) ev)"
proof (induction rule: qlife.induct)
  case (qlife_new now s)
  then show ?case using qs_inv_start [OF log_wf_Nil] by simp
next
  case (qlife_step H s s')
  have inv: "qs_inv cfg s" using qlife_step.IH by blast
  note sub = committed_mono [OF inv qlife_step.hyps(2)]
  show ?case using qs_inv_step [OF inv qlife_step.hyps(2)] qlife_step.IH ev_ok_mono [OF _ sub] by simp
next
  case (qlife_crash H s n now s')
  have wf: "log_wf (take n (qs_sent s))" using qlife_crash.IH qs_invD(5) log_wf_take by blast
  note st = qs_start_simps [OF qlife_crash.hyps(4)]
  have sub: "set (take (qs_committed s) (qs_sent s)) \<subseteq> set (take n (qs_sent s))"
    using qlife_crash.hyps(2) by (rule set_take_subset_set_take)
  have "ev_ok (take n (qs_sent s)) ev" if "ev \<in> set (H @ qs_hist s)" for ev
    using that qlife_crash.IH qs_invD(8) ev_ok_mono [OF _ sub] by fastforce
  then show ?case
    using qs_inv_start [OF wf qlife_crash.hyps(4)] st qlife_crash.hyps(3) by (simp add: min_absorb2)
qed

text \<open>One message enqueued and committed: the run the two witnesses start from.\<close>

definition demo_cfg :: config where
  "demo_cfg = \<lparr>c_Name = ''q'', c_Mode = FIFO, c_Priority = False, c_Delay = False,
     c_VisibilityTimeoutMS = 30000, c_MaxAttempts = 5, c_DLQ = True\<rparr>"

lemma demo_life:
  "\<exists>s msg. qlife demo_cfg [] s \<and> qs_hist s = [EvEnqueued msg] \<and> m_ID msg = ''aa'' \<and> m_Body msg = [65] \<and>
     qs_committed s = 1 \<and> length (qs_sent s) = 1 \<and> gone_ids (qs_sent s) = {}"
proof -
  let ?s0 = "\<lparr>qs_q = newQueue demo_cfg, qs_ops = [], qs_sent = [], qs_committed = 0, qs_failed = False, qs_hist = []\<rparr>"
  have "finalize_queue 0 [] (newQueue demo_cfg) = newQueue demo_cfg"
    by (simp add: finalize_queue_def newQueue_def)
  then have l0: "qlife demo_cfg [] ?s0"
    by (intro qlife_new [where now = 0]) (simp add: qs_start_def)
  obtain q1 m e p where r: "Enqueue_reserve 0 ''aa'' [65] 0 0 [] (newQueue demo_cfg) = (q1, EnqAppend m e p)"
    and m: "m_ID (q_store q1 m) = ''aa''" "m_Body (q_store q1 m) = [65]" and p: "\<exists>x. p = PEnqueue x"
    by (auto simp: Enqueue_reserve_def newQueue_def Let_def)
  let ?s1 = "?s0\<lparr>qs_q := q1, qs_ops := [(OpEnqueue m e [], Reserved p)]\<rparr>"
  let ?s2 = "?s1\<lparr>qs_ops := [(OpEnqueue m e [], Sent 0)], qs_sent := [p]\<rparr>"
  let ?s3 = "?s2\<lparr>qs_committed := 1\<rparr>"
  obtain q4 msg where f: "finish_op 0 (OpEnqueue m e []) None q1 = (q4, [], [EvEnqueued msg])"
    and msg: "m_ID msg = ''aa''" "m_Body msg = [65]"
    using m by (auto simp: Enqueue_finish_def Let_def)
  let ?s4 = "?s3\<lparr>qs_q := q4, qs_ops := [], qs_hist := [EvEnqueued msg]\<rparr>"
  have "qstep ?s0 ?s1" using q_call [of ?s0, OF q_enqueue [of 0 "''aa''" "[65]" 0 0 "[]" _ q1 m e p]] r by (simp add: newQueue_def)
  moreover have "qstep ?s1 ?s2" using q_send [of ?s1 "[]" "OpEnqueue m e []" p "[]"] by simp
  moreover have "qstep ?s2 ?s3" using q_commit [of ?s2 1] by simp
  moreover have "qstep ?s3 ?s4"
    using q_finish [of ?s3 "[]" "OpEnqueue m e []" "Sent 0" "[]" None 0 q4 "[]" "[EvEnqueued msg]"] f
    by (simp add: answered_def)
  ultimately have "qlife demo_cfg [] ?s4" using l0 qlife_step by blast
  then show ?thesis using msg p by (intro exI [of _ ?s4] exI [of _ msg]) auto
qed

section \<open>Conservation\<close>

lemma q_ok_distinct:
  assumes "q_ok q T N" shows "distinct (map snd (q_msgs q))"
proof -
  have "count (mset (map snd (q_msgs q))) r \<le> of_bool (r < q_next q)" for r
  proof -
    have "count (held q + T + N + mset (q_dlq q)) r \<le> of_bool (r < q_next q)" "mset (map snd (q_msgs q)) = held q + T"
      using assms by (simp_all only: q_ok_def)
    then show ?thesis by (simp del: mset_map)
  qed
  from count_of_bool [OF this] show ?thesis ..
qed

text \<open>C5: Conservation. In every reachable state of every interleaving, crashes and restarts included,
  the live messages are exactly those ready, delayed, in flight, or held by an operation whose record
  is being appended; no message is in two of these places, none is both live and dead-lettered, and
  the three heaps are in order.\<close>

theorem messages_conserved:
  assumes "qlife cfg H s"
  shows "mset (map snd (q_msgs (qs_q s))) =
      mset (rh_msgs (q_ready (qs_q s))) + mset (dh_msgs (q_delayed (qs_q s))) +
      mset (map snd (q_inflight (qs_q s))) + ops_live (qs_ops s) \<and>
    distinct (map snd (q_msgs (qs_q s))) \<and>
    snd ` set (q_msgs (qs_q s)) \<inter> set (q_dlq (qs_q s)) = {} \<and>
    ready_inv (q_store (qs_q s)) (q_ready (qs_q s)) \<and> delayed_inv (q_store (qs_q s)) (q_delayed (qs_q s)) \<and>
    heap_inv lease_Less (q_leases (qs_q s))"
proof -
  have ok: "q_ok (qs_q s) (ops_live (qs_ops s)) (ops_new (qs_ops s))"
    using qlife_inv [OF assms] qs_invD(2) by blast
  have "r \<notin> set (q_dlq (qs_q s))" if "r \<in> snd ` set (q_msgs (qs_q s))" for r
  proof -
    have "0 < count (held (qs_q s) + ops_live (qs_ops s)) r" using that q_ok_vals [OF ok] by simp
    moreover have "0 + count (held (qs_q s) + ops_live (qs_ops s)) r +
        count (ops_new (qs_ops s) + mset (q_dlq (qs_q s))) r \<le> of_bool (r < q_next (qs_q s))"
      using ok by (simp only: q_ok_def count_union add.assoc add_0)
    ultimately show ?thesis using add_le_of_bool by (fastforce simp: count_eq_zero_iff)
  qed
  then show ?thesis using ok q_ok_distinct [OF ok] by (auto simp: q_ok_def held_def)
qed

theorem messages_conserved_witness:
  "\<exists>s. qlife demo_cfg [] s \<and> distinct (map snd (q_msgs (qs_q s))) \<and> qs_committed s = 1"
proof -
  obtain s msg where "qlife demo_cfg [] s" "qs_committed s = 1" using demo_life by blast
  then show ?thesis using messages_conserved [of demo_cfg "[]" s] by blast
qed

section \<open>Durability\<close>

lemma enq_unique:
  "log_wf L \<Longrightarrow> PEnqueue x \<in> set L \<Longrightarrow> PEnqueue y \<in> set L \<Longrightarrow> ep_ID x = ep_ID y \<Longrightarrow> x = y"
proof (induction rule: log_wf.induct)
  case (log_wf_snoc L p)
  have "ep_ID z \<in> enq_ids L" if "PEnqueue z \<in> set L" for z
    using that by (force simp: enq_ids_def)
  then show ?case using log_wf_snoc by (fastforce simp: rec_wf_def)
qed simp

lemma recovered_cell:
  assumes wf: "log_wf L" and f: "folded cfg L (live_ids L) q" and x: "PEnqueue x \<in> set L" "ep_ID x \<notin> gone_ids L"
  shows "\<exists>r. gget (q_msgs q) (ep_ID x) = Some r \<and> imm (q_store q r) = imm_of x"
proof -
  have "ep_ID x \<in> live_ids L" using x by (force simp: live_ids_def enq_ids_def)
  then obtain r where r: "gget (q_msgs q) (ep_ID x) = Some r" "r < q_next q" "m_ID (q_store q r) = ep_ID x"
    using folded_get [OF f] by blast
  obtain p where p: "PEnqueue p \<in> set L" "imm (q_store q r) = imm_of p" using f r(2) by (auto simp: folded_def)
  then have "ep_ID p = ep_ID x" using r(3) by (simp add: imm_def imm_of_def)
  then have "p = x" using enq_unique [OF wf] p(1) x(1) by blast
  then show ?thesis using r(1) p(2) by blast
qed

lemma crash_recovers:
  assumes "qlife cfg H s" "qs_committed s \<le> n" "n \<le> length (qs_sent s)"
  shows "\<exists>q rs. fold_err apply_queue (take n (qs_sent s)) (newQueue cfg, []) = Inr (q, rs) \<and>
    (\<forall>msg. EvEnqueued msg \<in> set (H @ qs_hist s) \<longrightarrow> m_ID msg \<notin> gone_ids (take n (qs_sent s)) \<longrightarrow>
       (\<exists>r. gget (q_msgs q) (m_ID msg) = Some r \<and> imm (q_store q r) = imm msg)) \<and>
    (\<forall>i. EvAcked i \<in> set (H @ qs_hist s) \<longrightarrow> gget (q_msgs q) i = None)"
proof -
  let ?L = "take n (qs_sent s)"
  have inv: "qs_inv cfg s" using qlife_inv [OF assms(1)] by blast
  have wf: "log_wf ?L" using qs_invD(5) [OF inv] log_wf_take by blast
  obtain q rs where q: "fold_err apply_queue ?L (newQueue cfg, []) = Inr (q, rs)" "folded cfg ?L (live_ids ?L) q"
    using replay_wf [OF wf] by blast
  have sub: "set (take (qs_committed s) (qs_sent s)) \<subseteq> set ?L"
    using assms(2) by (rule set_take_subset_set_take)
  have ev: "ev_ok ?L e" if "e \<in> set (H @ qs_hist s)" for e
    using that qlife_inv [OF assms(1)] qs_invD(8) [OF inv] ev_ok_mono [OF _ sub] by fastforce
  have "\<exists>r. gget (q_msgs q) (m_ID msg) = Some r \<and> imm (q_store q r) = imm msg"
    if e: "EvEnqueued msg \<in> set (H @ qs_hist s)" "m_ID msg \<notin> gone_ids ?L" for msg
  proof -
    obtain x where x: "PEnqueue x \<in> set ?L" "imm_of x = imm msg" using ev [OF e(1)] by (auto simp: ev_ok_def)
    then have "ep_ID x = m_ID msg" by (simp add: imm_def imm_of_def)
    then show ?thesis using recovered_cell [OF wf q(2) x(1)] e(2) x(2) by simp
  qed
  moreover have "gget (q_msgs q) i = None" if e: "EvAcked i \<in> set (H @ qs_hist s)" for i
  proof -
    obtain x where "PAck x \<in> set ?L" "ap_ID x = i" using ev [OF e] by (auto simp: ev_ok_def)
    then have "i \<in> gone_ids ?L" by (force simp: gone_ids_def)
    then have "i \<notin> gkeys (q_msgs q)" using q(2) by (simp add: folded_def live_ids_def)
    then show ?thesis by (simp add: gkeys_iff)
  qed
  ultimately show ?thesis using q(1) by blast
qed

text \<open>C3: Durability of a queue. Whatever the interleaving and however often the queue was restarted
  before, the replay of what a crash leaves never fails, and it rebuilds: every message whose
  enqueue was reported as successful and whose removal was never sent to the log, with its body,
  priority, sequence number, enqueue time and dedup key; and no message whose acknowledgement was
  reported as successful.\<close>

theorem queue_survives_crashes:
  assumes "qlife cfg H s" "qs_committed s \<le> n" "n \<le> length (qs_sent s)"
  shows "\<exists>q rs. fold_err apply_queue (take n (qs_sent s)) (newQueue cfg, []) = Inr (q, rs) \<and>
    (\<forall>msg. EvEnqueued msg \<in> set (H @ qs_hist s) \<longrightarrow> m_ID msg \<notin> gone_ids (take n (qs_sent s)) \<longrightarrow>
       (\<exists>r. gget (q_msgs q) (m_ID msg) = Some r \<and> imm (q_store q r) = imm msg)) \<and>
    (\<forall>i. EvAcked i \<in> set (H @ qs_hist s) \<longrightarrow> gget (q_msgs q) i = None)"
  using assms by (rule crash_recovers)

theorem queue_survives_crashes_witness:
  "\<exists>s q rs r. qlife demo_cfg [] s \<and>
     fold_err apply_queue (take 1 (qs_sent s)) (newQueue demo_cfg, []) = Inr (q, rs) \<and>
     gget (q_msgs q) ''aa'' = Some r \<and> m_Body (q_store q r) = [65]"
proof -
  obtain s msg where s: "qlife demo_cfg [] s" "qs_hist s = [EvEnqueued msg]" "m_ID msg = ''aa''"
      "m_Body msg = [65]" "qs_committed s = 1" "length (qs_sent s) = 1" "gone_ids (qs_sent s) = {}"
    using demo_life by blast
  obtain q rs where q: "fold_err apply_queue (take 1 (qs_sent s)) (newQueue demo_cfg, []) = Inr (q, rs)"
    and e: "\<forall>msg. EvEnqueued msg \<in> set ([] @ qs_hist s) \<longrightarrow> m_ID msg \<notin> gone_ids (take 1 (qs_sent s)) \<longrightarrow>
       (\<exists>r. gget (q_msgs q) (m_ID msg) = Some r \<and> imm (q_store q r) = imm msg)"
    using queue_survives_crashes [OF s(1), of 1] s(5,6) by auto
  obtain r where "gget (q_msgs q) ''aa'' = Some r" "imm (q_store q r) = imm msg"
    using e [rule_format, of msg] s(2,3,6,7) by auto
  then show ?thesis using q s(1,4) by (auto simp: imm_def)
qed

section \<open>Attempts and crashes\<close>

text \<open>A queue that allows one delivery, and its log when the process dies during that delivery.\<close>

definition once_cfg :: config where "once_cfg = demo_cfg\<lparr>c_MaxAttempts := 1\<rparr>"

definition leased_log :: "payload list" where
  "leased_log =
     [PEnqueue \<lparr>ep_Queue = ''q'', ep_ID = ''m'', ep_Body = [], ep_Priority = 0, ep_Seq = 1, ep_EnqueuedAt = 5,
        ep_VisibleAt = 5, ep_DedupKey = []\<rparr>,
      PLease \<lparr>lp_Queue = ''q'', lp_ExpiresAt = 100, lp_Items = [\<lparr>li_ID = ''m'', li_Token = ''t'', li_Attempts = 1\<rparr>]\<rparr>]"


end
