(* ===== verification/QueueOps.thy ===== *)
theory QueueOps
  imports QueueInv
begin

text \<open>
  The functional behaviour of the operations of \<open>queue.go\<close>, each run alone: which messages a
  dequeue leases, who may acknowledge, what a maintenance run reclaims, what the statistics count.
\<close>

section \<open>Enqueue\<close>



section \<open>Dequeue\<close>

text \<open>C25: Promotion is exact. A message leaves the delayed heap for the ready heap when its time has
  come and not before: afterwards the ready heap has gained precisely the due messages, the
  delayed heap has kept precisely the others, and both are in order.\<close>

theorem promoteDue_exact:
  assumes "ready_inv (q_store q) (q_ready q)" "delayed_inv (q_store q) (q_delayed q)"
  shows "mset (rh_msgs (q_ready (promoteDue now q))) =
      mset (rh_msgs (q_ready q)) + {#m \<in># mset (dh_msgs (q_delayed q)). m_VisibleAt (q_store q m) \<le> now#} \<and>
    mset (dh_msgs (q_delayed (promoteDue now q))) =
      {#m \<in># mset (dh_msgs (q_delayed q)). now < m_VisibleAt (q_store q m)#} \<and>
    ready_inv (q_store q) (q_ready (promoteDue now q)) \<and>
    delayed_inv (q_store q) (q_delayed (promoteDue now q)) \<and> q_store (promoteDue now q) = q_store q"
proof -
  have "due now q = (\<lambda>m. m_VisibleAt (q_store q m) \<le> now)" by (simp add: fun_eq_iff due_def)
  then show ?thesis using promoteDue_frame [of now q] assms by (auto simp: not_le)
qed

theorem promoteDue_exact_witness:
  "\<exists>q. rh_msgs (q_ready q) = [] \<and> dh_msgs (q_delayed q) = [0, 1] \<and>
     mset (rh_msgs (q_ready (promoteDue 5 q))) = {#0#} \<and> mset (dh_msgs (q_delayed (promoteDue 5 q))) = {#1#}"
proof -
  let ?q = "(newQueue \<lparr>c_Name = ''q'', c_Mode = FIFO, c_Priority = False, c_Delay = True,
     c_VisibilityTimeoutMS = 1, c_MaxAttempts = 1, c_DLQ = True\<rparr>)\<lparr>
     q_store := (\<lambda>r. zero_message\<lparr>m_VisibleAt := 4 + 3 * int r\<rparr>), q_delayed := \<lparr>dh_msgs = [0, 1], dh_lifo = False\<rparr>\<rparr>"
  have r: "ready_inv (q_store ?q) (q_ready ?q)" by (simp add: ready_inv_def heap_inv_def newQueue_def)
  have d: "delayed_inv (q_store ?q) (q_delayed ?q)"
    by (auto simp: delayed_inv_def heap_inv_def delayed_Less_def less_Suc_eq)
  have "mset (rh_msgs (q_ready ?q)) = {#}" by (simp add: newQueue_def)
  then show ?thesis using promoteDue_exact [OF r d, of 5] by - (rule exI [of _ ?q], simp add: newQueue_def)
qed

text \<open>The loop of the success path: every cell is written once, with its own item.\<close>

lemma lease_one_store:
  "q_store (lease_one x (m, it) q) = (q_store q)(m := (q_store q m)\<lparr>m_Attempts := li_Attempts it,
     m_leaseToken := li_Token it, m_leaseExpires := x\<rparr>)"
  "q_inflight (lease_one x (m, it) q) = gput (m_ID (q_store q m)) m (q_inflight q)"
  by (simp_all add: lease_one_def Let_def)

lemma lease_all_others:
  assumes "lease_all x xs q = (q', ds)" "k \<notin> m_ID ` q_store q ` fst ` set xs"
  shows "gget (q_inflight q') k = gget (q_inflight q) k"
  using assms
proof (induction xs arbitrary: q ds)
  case (Cons y xs)
  obtain m it where y: "y = (m, it)" by (cases y)
  obtain ds' where l: "lease_all x xs (lease_one x y q) = (q', ds')"
    using Cons.prems(1) by (auto simp: Let_def split: prod.splits)
  have "m_ID (q_store (lease_one x y q) a) = m_ID (q_store q a)" for a by (simp add: y lease_one_store)
  then have "k \<notin> m_ID ` q_store (lease_one x y q) ` fst ` set xs" using Cons.prems(2) by (auto simp: image_image)
  then show ?case using Cons.IH [OF l] Cons.prems(2) by (simp add: y lease_one_store)
qed simp

lemma lease_all_spec:
  assumes "distinct (map fst xs)" "inj_on (\<lambda>r. m_ID (q_store q r)) (fst ` set xs)"
    "lease_all x xs q = (q', ds)"
  shows "length ds = length xs \<and> (\<forall>i < length xs.
    ds ! i = \<lparr>d_Message = (q_store q (fst (xs ! i)))\<lparr>m_Attempts := li_Attempts (snd (xs ! i)),
        m_leaseToken := li_Token (snd (xs ! i)), m_leaseExpires := x\<rparr>,
      d_LeaseToken = li_Token (snd (xs ! i)), d_ExpiresAt = x\<rparr> \<and>
    gget (q_inflight q') (m_ID (q_store q (fst (xs ! i)))) = Some (fst (xs ! i)))"
  using assms
proof (induction xs arbitrary: q ds)
  case (Cons y xs)
  obtain m it where y: "y = (m, it)" by (cases y)
  let ?q1 = "lease_one x y q"
  obtain ds' where l: "lease_all x xs ?q1 = (q', ds')" and ds: "ds = \<lparr>d_Message = q_store ?q1 m,
      d_LeaseToken = m_leaseToken (q_store ?q1 m), d_ExpiresAt = x\<rparr> # ds'"
    using Cons.prems(3) y by (auto simp: Let_def split: prod.splits)
  have ids: "m_ID (q_store ?q1 a) = m_ID (q_store q a)" for a by (simp add: y lease_one_store)
  have "inj_on (\<lambda>r. m_ID (q_store ?q1 r)) (fst ` set xs)" "distinct (map fst xs)"
    using Cons.prems(1,2) by (auto simp: ids intro: inj_on_subset)
  note IH = Cons.IH [OF this(2,1) l]
  have m: "m \<notin> fst ` set xs" using Cons.prems(1) y by auto
  then have "m_ID (q_store q m) \<notin> (\<lambda>r. m_ID (q_store q r)) ` fst ` set xs"
    using inj_on_image_mem_iff [OF Cons.prems(2), of m "fst ` set xs"] y by auto
  then have "gget (q_inflight q') (m_ID (q_store q m)) = Some m"
    using lease_all_others [OF l, of "m_ID (q_store q m)"] by (simp add: image_image ids) (simp add: y lease_one_store)
  moreover have "q_store ?q1 (fst (xs ! j)) = q_store q (fst (xs ! j))" if "j < length xs" for j
    using m that by (auto simp: y lease_one_store image_iff)
  ultimately show ?case
    using IH by (auto simp: ds y ids nth_Cons lease_one_store split: nat.splits)
qed simp

text \<open>The messages a dequeue at \<open>clock\<close> may take.\<close>

definition visible :: "int \<Rightarrow> queue \<Rightarrow> ref multiset" where
  "visible now q = mset (rh_msgs (q_ready q)) +
     {#m \<in># mset (dh_msgs (q_delayed q)). m_VisibleAt (q_store q m) \<le> now#}"

lemma promote_visible:
  assumes "q_ok q T N"
  shows "mset (rh_msgs (q_ready (promoteDue now q))) = visible now q"
    "ready_inv (q_store q) (q_ready (promoteDue now q))" "rh_lifo (q_ready (promoteDue now q)) = rh_lifo (q_ready q)"
proof -
  have "due now q = (\<lambda>m. m_VisibleAt (q_store q m) \<le> now)" by (simp add: fun_eq_iff due_def)
  then show "mset (rh_msgs (q_ready (promoteDue now q))) = visible now q"
    "ready_inv (q_store q) (q_ready (promoteDue now q))" "rh_lifo (q_ready (promoteDue now q)) = rh_lifo (q_ready q)"
    using promoteDue_frame [of now q] assms by (auto simp: visible_def q_ok_def)
qed

lemma reserve_picks:
  assumes ok: "q_ok q T N" and r: "tryDequeue_reserve clock tok n q = (q1, res)"
    and p: "pop_upto (ready_pop (q_store q)) (nat n) (q_ready (promoteDue (unixMilli clock) q)) = (picked, rh)"
  shows "visible (unixMilli clock) q = mset picked + mset (rh_msgs rh)"
    and "length picked = min (nat n) (size (visible (unixMilli clock) q))"
    and "sorted_wrt (\<lambda>a b. \<not> ready_Less (q_store q) (rh_lifo (q_ready q)) b a) picked"
    and "a \<in> set picked \<Longrightarrow> b \<in># mset (rh_msgs rh) \<Longrightarrow> \<not> ready_Less (q_store q) (rh_lifo (q_ready q)) b a"
proof -
  let ?q = "promoteDue (unixMilli clock) q"
  note vis = promote_visible(1,2) [OF ok, of "unixMilli clock"] and fr = promote_visible(3) [OF ok, of "unixMilli clock"]
  from readyq.pop_upto_spec [OF _ p, of "rh_lifo (q_ready q)"] fr vis(2)
  have s: "mset (rh_msgs (q_ready ?q)) = mset picked + mset (rh_msgs rh) \<and>
     length picked = min (nat n) (size (mset (rh_msgs (q_ready ?q)))) \<and>
     sorted_wrt (\<lambda>a b. \<not> ready_Less (q_store q) (rh_lifo (q_ready q)) b a) picked \<and>
     (\<forall>x \<in> set picked. \<forall>y \<in># mset (rh_msgs rh). \<not> ready_Less (q_store q) (rh_lifo (q_ready q)) y x)" by blast
  then show "visible (unixMilli clock) q = mset picked + mset (rh_msgs rh)"
    "length picked = min (nat n) (size (visible (unixMilli clock) q))"
    "sorted_wrt (\<lambda>a b. \<not> ready_Less (q_store q) (rh_lifo (q_ready q)) b a) picked"
    "a \<in> set picked \<Longrightarrow> b \<in># mset (rh_msgs rh) \<Longrightarrow> \<not> ready_Less (q_store q) (rh_lifo (q_ready q)) b a"
    unfolding vis(1) by blast+
qed

lemma promote_store [simp]:
  "q_store (promoteDue now q) = q_store q" "q_cfg (promoteDue now q) = q_cfg q"
  "q_inflight (promoteDue now q) = q_inflight q" "q_leases (promoteDue now q) = q_leases q"
  "q_msgs (promoteDue now q) = q_msgs q" "q_dlq (promoteDue now q) = q_dlq q"
  "q_armed (promoteDue now q) = q_armed q" "q_wake (promoteDue now q) = q_wake q"
  using promoteDue_frame [of now q] by auto

text \<open>C13: Delivery order. A dequeue whose record was committed returns \<open>min n\<close> of the visible messages:
  the best ones in the order of the queue's mode and priorities, best first, and none that is left
  behind precedes one that was delivered. Each is returned with its attempt count raised by one,
  with its own token and the lease's expiry, and is in flight under its identifier.\<close>

theorem dequeue_leases_best:
  assumes ok: "q_ok q T N"
    and r: "tryDequeue_reserve clock tok n q = (q1, Some (picked, p))"
    and f: "tryDequeue_finish picked p None q1 = (q2, res)"
  shows "\<exists>ds. res = Inr ds \<and> length ds = min (nat n) (size (visible (unixMilli clock) q)) \<and>
    length ds = length picked \<and> mset picked \<subseteq># visible (unixMilli clock) q \<and>
    sorted_wrt (\<lambda>a b. \<not> ready_Less (q_store q) (rh_lifo (q_ready q)) b a) picked \<and>
    (\<forall>a \<in> set picked. \<forall>b \<in># visible (unixMilli clock) q - mset picked.
       \<not> ready_Less (q_store q) (rh_lifo (q_ready q)) b a) \<and>
    (\<forall>i < length ds. ds ! i =
       \<lparr>d_Message = (q_store q (picked ! i))\<lparr>m_Attempts := i64 (m_Attempts (q_store q (picked ! i)) + 1),
          m_leaseToken := tok i, m_leaseExpires := i64 (unixMilli clock + c_VisibilityTimeoutMS (q_cfg q))\<rparr>,
        d_LeaseToken = tok i, d_ExpiresAt = i64 (unixMilli clock + c_VisibilityTimeoutMS (q_cfg q))\<rparr> \<and>
       gget (q_inflight q2) (m_ID (q_store q (picked ! i))) = Some (picked ! i))"
proof -
  let ?q = "promoteDue (unixMilli clock) q" and ?x = "i64 (unixMilli clock + c_VisibilityTimeoutMS (q_cfg q))"
  obtain picked' rh where p: "pop_upto (ready_pop (q_store q)) (nat n) (q_ready ?q) = (picked', rh)" by fastforce
  have e: "picked' = picked" "q1 = ?q\<lparr>q_ready := rh\<rparr>" "lp_ExpiresAt p = ?x"
      "lp_Items p = map (\<lambda>i. \<lparr>li_ID = m_ID (q_store q (picked ! i)), li_Token = tok i,
        li_Attempts = i64 (m_Attempts (q_store q (picked ! i)) + 1)\<rparr>) [0..<length picked]"
    using r p by (auto simp: tryDequeue_reserve_def Let_def split: if_splits)
  note S = reserve_picks [OF ok r p, unfolded e(1)]
  have ok1: "q_ok q1 (T + mset picked) N" using q_ok_tryDequeue_reserve [OF ok r] by simp
  have c: "count (held q1 + (T + mset picked) + N + mset (q_dlq q1)) m \<le> of_bool (m < q_next q1)" for m
    using ok1 by (simp only: q_ok_def)
  have "count (mset picked) m \<le> of_bool (m < q_next q1)" for m using c [of m] by simp
  note cb = count_of_bool [OF this]
  have d: "distinct picked" and lt: "set picked \<subseteq> {..<q_next q1}" using cb by auto
  obtain q3 ds where l: "lease_all ?x (zip picked (lp_Items p)) q1 = (q3, ds)" by fastforce
  have len: "length (lp_Items p) = length picked" using e(4) by simp
  have st: "q_store q1 = q_store q" using e(2) by simp
  have fz: "map fst (zip picked (lp_Items p)) = picked" using len by simp
  then have fz': "fst ` set (zip picked (lp_Items p)) = set picked" by (metis set_map)
  have "inj_on (\<lambda>r. m_ID (q_store q1 r)) (set picked)"
    using ok1 lt by (auto simp: q_ok_def intro: inj_on_subset)
  note L = lease_all_spec [OF _ _ l, unfolded fz fz', OF d this]
  have res: "res = Inr ds" and inf: "q_inflight q2 = q_inflight q3"
    using f l e(3) by (auto simp: tryDequeue_finish_def add_cnt_def wakeIfSooner_def Let_def split: if_splits)
  have all: "\<forall>i < length ds. ds ! i =
       \<lparr>d_Message = (q_store q (picked ! i))\<lparr>m_Attempts := i64 (m_Attempts (q_store q (picked ! i)) + 1),
          m_leaseToken := tok i, m_leaseExpires := ?x\<rparr>, d_LeaseToken = tok i, d_ExpiresAt = ?x\<rparr> \<and>
       gget (q_inflight q2) (m_ID (q_store q (picked ! i))) = Some (picked ! i)"
    using L len by (simp add: st inf e(4))
  have ld: "length ds = length picked" using L len by simp
  have "visible (unixMilli clock) q - mset picked = mset (rh_msgs rh)" "mset picked \<subseteq># visible (unixMilli clock) q"
    using S(1) by simp_all
  then have "mset picked \<subseteq># visible (unixMilli clock) q" "\<forall>a \<in> set picked. \<forall>b \<in># visible (unixMilli clock) q - mset picked.
       \<not> ready_Less (q_store q) (rh_lifo (q_ready q)) b a" using S(4) by simp_all
  then show ?thesis using res ld S(2) [folded ld] S(3) all by blast
qed


text \<open>A queue with two ready messages, for the witnesses.\<close>

definition two_ready :: queue where
  "two_ready = (newQueue \<lparr>c_Name = ''q'', c_Mode = FIFO, c_Priority = False, c_Delay = True,
     c_VisibilityTimeoutMS = 10, c_MaxAttempts = 2, c_DLQ = True\<rparr>)\<lparr>
     q_store := (\<lambda>r. zero_message\<lparr>m_ID := replicate (Suc r) CHR ''a'', m_Seq := of_nat r\<rparr>), q_next := 2,
     q_msgs := [(''a'', 0), (''aa'', 1)], q_ready := \<lparr>rh_msgs = [0, 1], rh_lifo = False\<rparr>\<rparr>"

lemma two_ready_ok: "q_ok two_ready {#} {#}"
proof -
  have s: "{..<2::nat} = {0, 1}" by auto
  have "ready_inv (q_store two_ready) (q_ready two_ready)"
    by (auto simp: two_ready_def ready_inv_def heap_inv_def ready_Less_def less_key_def msg_key_def less_Suc_eq
        zero_message_def)
  then show ?thesis
    by (auto simp: q_ok_def two_ready_def newQueue_def held_def delayed_inv_def heap_inv_def gwf_def gget_def
        s FIFO_def LIFO_def)
qed

theorem dequeue_leases_best_witness:
  "\<exists>q1 p q2 ds. tryDequeue_reserve 0 (\<lambda>_. ''t'') 1 two_ready = (q1, Some ([0], p)) \<and>
     tryDequeue_finish [0] p None q1 = (q2, Inr ds) \<and> map (m_ID \<circ> d_Message) ds = [''a''] \<and>
     gget (q_inflight q2) ''a'' = Some 0"
proof -
  have pk: "pop_upto (ready_pop (q_store two_ready)) (Suc 0) \<lparr>rh_msgs = [0, 1], rh_lifo = False\<rparr> =
      ([0], \<lparr>rh_msgs = [1], rh_lifo = False\<rparr>)" by code_simp
  have u: "unixMilli 0 = 0" by (simp add: unixMilli_def go_div_nonneg)
  have qr: "q_ready two_ready = \<lparr>rh_msgs = [0, 1], rh_lifo = False\<rparr>" by (simp add: two_ready_def)
  have pr: "promoteDue 0 two_ready = two_ready"
    by (simp add: promoteDue.simps two_ready_def newQueue_def delayed_peek_def)
  obtain q1 p where r: "tryDequeue_reserve 0 (\<lambda>_. ''t'') 1 two_ready = (q1, Some ([0], p))"
    using that unfolding tryDequeue_reserve_def Let_def u pr qr nat_1 pk prod.case by simp
  obtain q2 res where f: "tryDequeue_finish [0] p None q1 = (q2, res)" by fastforce
  from dequeue_leases_best [OF two_ready_ok r f] obtain ds where "res = Inr ds" "length ds = 1"
      "m_ID (d_Message (ds ! 0)) = ''a''" "gget (q_inflight q2) ''a'' = Some 0"
    by (auto simp: two_ready_def zero_message_def)
  then show ?thesis using r f by (auto simp: length_Suc_conv)
qed


section \<open>Ack and Nack\<close>



text \<open>A queue with one message in flight under the token \<open>''t''\<close>, for the witnesses.\<close>

definition one_leased :: queue where
  "one_leased = (newQueue \<lparr>c_Name = ''q'', c_Mode = FIFO, c_Priority = False, c_Delay = True,
     c_VisibilityTimeoutMS = 10, c_MaxAttempts = 2, c_DLQ = True\<rparr>)\<lparr>
     q_store := (\<lambda>r. zero_message\<lparr>m_ID := ''a'', m_leaseToken := ''t'', m_leaseExpires := 10, m_Attempts := 1\<rparr>),
     q_next := 1, q_msgs := [(''a'', 0)], q_inflight := [(''a'', 0)],
     q_leases := [\<lparr>le_id = ''a'', le_token = ''t'', le_expiresAt = 10\<rparr>]\<rparr>"

lemma one_leased_ok: "q_ok one_leased {#} {#}"
  by (auto simp: q_ok_def one_leased_def newQueue_def held_def ready_inv_def delayed_inv_def heap_inv_def gwf_def
      gget_def FIFO_def LIFO_def inj_on_def split: if_splits)




section \<open>Maintenance\<close>

text \<open>A lease that has run out at \<open>now\<close>, and whose message is still in flight under its token.\<close>

definition expired :: "int \<Rightarrow> queue \<Rightarrow> string \<Rightarrow> bool" where
  "expired now q i \<longleftrightarrow> (\<exists>m e. gget (q_inflight q) i = Some m \<and> e \<in> set (q_leases q) \<and> le_id e = i \<and>
     le_token e = m_leaseToken (q_store q m) \<and> le_expiresAt e \<le> now)"

lemma lease_pop_mset: "lease_pop h = Some (e, h') \<Longrightarrow> mset h = add_mset e (mset h')"
  unfolding lease_pop_def by (rule heap_Pop_SomeD(2))

lemma lease_pop_set: "lease_pop h = Some (e, h') \<Longrightarrow> set h = insert e (set h')"
  using lease_pop_mset [of h e h'] by (metis set_mset_add_mset_insert set_mset_mset)

text \<open>
  One loop turn as seen from the maps: what \<open>reclaim\<close> will take from the queue is what it takes
  now and what it will take from the rest.
\<close>

lemma expired_pop:
  assumes "lease_pop (q_leases q) = Some (e, h)" "le_expiresAt e \<le> now" "gget (q_inflight q) (le_id e) = Some m"
    "m_leaseToken (q_store q m) = le_token e"
  shows "expired now q i \<longleftrightarrow> i = le_id e \<or>
    expired now (q\<lparr>q_leases := h, q_inflight := gdel (le_id e) (q_inflight q)\<rparr>) i"
  using assms lease_pop_set [OF assms(1)] by (auto simp: expired_def)

lemma expired_stale:
  assumes "lease_pop (q_leases q) = Some (e, h)"
    "\<forall>m. gget (q_inflight q) (le_id e) = Some m \<longrightarrow> m_leaseToken (q_store q m) \<noteq> le_token e"
  shows "expired now q i \<longleftrightarrow> expired now (q\<lparr>q_leases := h\<rparr>) i"
  using assms(2) lease_pop_set [OF assms(1)] by (auto simp: expired_def)

definition expired_msgs :: "int \<Rightarrow> queue \<Rightarrow> ref set" where
  "expired_msgs now q = {m. \<exists>i. expired now q i \<and> gget (q_inflight q) i = Some m}"

lemma expired_msgs_pop:
  assumes "lease_pop (q_leases q) = Some (e, h)" "le_expiresAt e \<le> now" "gget (q_inflight q) (le_id e) = Some m"
    "m_leaseToken (q_store q m) = le_token e"
  shows "expired_msgs now q =
    insert m (expired_msgs now (q\<lparr>q_leases := h, q_inflight := gdel (le_id e) (q_inflight q)\<rparr>))"
proof -
  let ?q = "q\<lparr>q_leases := h, q_inflight := gdel (le_id e) (q_inflight q)\<rparr>"
  have "expired now ?q i \<Longrightarrow> i \<noteq> le_id e" for i by (auto simp: expired_def)
  then show ?thesis
    using expired_pop [OF assms] assms(3) by (auto simp: expired_msgs_def)
qed

lemma expired_msgs_stale:
  assumes "lease_pop (q_leases q) = Some (e, h)"
    "\<forall>m. gget (q_inflight q) (le_id e) = Some m \<longrightarrow> m_leaseToken (q_store q m) \<noteq> le_token e"
  shows "expired_msgs now (q\<lparr>q_leases := h\<rparr>) = expired_msgs now q"
  using expired_stale [OF assms] by (simp add: expired_msgs_def)

lemma reclaim_spec:
  assumes "heap_inv lease_Less (q_leases q)" "reclaim now q rq dl = (q', rq', dl')"
  shows "(\<forall>i. gget (q_inflight q') i = (if expired now q i then None else gget (q_inflight q) i)) \<and>
    (\<forall>e \<in> set (q_leases q'). now < le_expiresAt e) \<and>
    fst ` set dl' = fst ` set dl \<union> {m \<in> expired_msgs now q. m_Attempts (q_store q m) \<ge> c_MaxAttempts (q_cfg q)} \<and>
    fst ` set rq' = fst ` set rq \<union> {m \<in> expired_msgs now q. \<not> m_Attempts (q_store q m) \<ge> c_MaxAttempts (q_cfg q)}"
  using assms
proof (induction q rq dl rule: reclaim_induct)
  case (turn q rq dl)
  show ?case
  proof (cases rule: reclaim_cases [of now q rq dl, case_names stop stale dead again])
    case stop
    have "now < le_expiresAt e" if "e \<in> set (q_leases q)" for e
    proof (cases "lease_peek (q_leases q)")
      case None
      then show ?thesis using that by (simp add: lease_peek_def split: if_splits)
    next
      case (Some e0)
      then show ?thesis using stop(2) lease_peek_earliest [OF turn.prems(1) Some that] by simp
    qed
    moreover from this have "\<not> expired now q i" for i by (fastforce simp: expired_def)
    ultimately show ?thesis using stop(1) turn.prems(2) by (simp add: expired_msgs_def)
  next
    case (stale e h)
    have "heap_inv lease_Less h"
      using turn.prems(1) stale(1) by (auto simp: lease_pop_def intro: lease.heap_inv_Pop)
    with turn.IH [of "q\<lparr>q_leases := h\<rparr>" rq dl] show ?thesis
      using turn.prems(2) stale(4) lease_pop_shrinks [OF stale(1)] expired_stale [OF stale(1,3)]
      by (simp add: expired_msgs_stale [OF stale(1,3)])
  next
    case (dead e h m)
    let ?q = "q\<lparr>q_leases := h, q_inflight := gdel (le_id e) (q_inflight q)\<rparr>"
    have h: "heap_inv lease_Less (q_leases ?q)"
      using turn.prems(1) dead(1) by (auto simp: lease_pop_def intro: lease.heap_inv_Pop)
    have l: "length (q_leases ?q) < length (q_leases q)" using lease_pop_shrinks [OF dead(1)] by simp
    have r: "reclaim now ?q rq (dl @ [(m, e)]) = (q', rq', dl')" using turn.prems(2) dead(6) by simp
    show ?thesis
      using turn.IH [OF l h r] expired_pop [OF dead(1-4)] dead(5)
      by (auto simp: expired_msgs_pop [OF dead(1-4)])
  next
    case (again e h m)
    let ?q = "q\<lparr>q_leases := h, q_inflight := gdel (le_id e) (q_inflight q)\<rparr>"
    have h: "heap_inv lease_Less (q_leases ?q)"
      using turn.prems(1) again(1) by (auto simp: lease_pop_def intro: lease.heap_inv_Pop)
    have l: "length (q_leases ?q) < length (q_leases q)" using lease_pop_shrinks [OF again(1)] by simp
    have r: "reclaim now ?q (rq @ [(m, e)]) dl = (q', rq', dl')" using turn.prems(2) again(6) by simp
    show ?thesis
      using turn.IH [OF l h r] expired_pop [OF again(1-4)] again(5)
      by (auto simp: expired_msgs_pop [OF again(1-4)])
  qed
qed

text \<open>C18: A maintenance run reclaims exactly the expired leases. A message leaves the in-flight map
  exactly when the lease it is held under has run out; of those, the ones that have used up their
  attempts go to the dead-letter half of the run and the others to the requeue half; leases of
  messages that were acknowledged, returned or leased again meanwhile are dropped; and no lease that
  has run out stays behind.\<close>

theorem maintain_reclaims_expired:
  assumes "q_ok q T N" "Maintain_reserve clock q = (q', rq, dl)"
  shows "(\<forall>i. gget (q_inflight q') i = (if expired (unixMilli clock) q i then None else gget (q_inflight q) i)) \<and>
    fst ` set dl = {m \<in> expired_msgs (unixMilli clock) q. m_Attempts (q_store q m) \<ge> c_MaxAttempts (q_cfg q)} \<and>
    fst ` set rq = {m \<in> expired_msgs (unixMilli clock) q. m_Attempts (q_store q m) < c_MaxAttempts (q_cfg q)} \<and>
    (\<forall>e \<in> set (q_leases q'). unixMilli clock < le_expiresAt e)"
proof -
  let ?q = "promoteDue (unixMilli clock) q"
  have r: "reclaim (unixMilli clock) ?q [] [] = (q', rq, dl)"
    using assms(2) by (simp add: Maintain_reserve_def Let_def)
  have h: "heap_inv lease_Less (q_leases ?q)" using assms(1) by (simp add: q_ok_def)
  have "expired (unixMilli clock) ?q i = expired (unixMilli clock) q i"
    "expired_msgs (unixMilli clock) ?q = expired_msgs (unixMilli clock) q" for i
    by (simp_all add: expired_def expired_msgs_def)
  with reclaim_spec [OF h r] show ?thesis by (simp add: not_le)
qed

theorem maintain_reclaims_expired_witness:
  "\<exists>q' rq dl. Maintain_reserve 10000000 one_leased = (q', rq, dl) \<and> gget (q_inflight q') ''a'' = None \<and>
     fst ` set rq = {0} \<and> dl = []"
proof -
  obtain q' rq dl where r: "Maintain_reserve 10000000 one_leased = (q', rq, dl)" using prod_cases3 by blast
  have u: "unixMilli 10000000 = 10" by (simp add: unixMilli_def go_div_nonneg)
  have e: "expired 10 one_leased i \<longleftrightarrow> i = ''a''" for i
    by (auto simp: expired_def one_leased_def gget_def split: if_splits)
  then have "expired_msgs 10 one_leased = {0}" by (simp add: expired_msgs_def one_leased_def gget_def)
  with maintain_reclaims_expired [OF one_leased_ok r, unfolded u] e r show ?thesis
    by (auto simp: one_leased_def newQueue_def)
qed

section \<open>Statistics\<close>

text \<open>C26: The statistics add up. The total is the ready, delayed, in-flight and dead-lettered messages
  and those held by operations whose record is being appended; the depth counts the due messages as
  ready; and taking the snapshot loses no message.\<close>

theorem stats_total:
  assumes "q_ok q T N" "Stats clock q = (q', st)"
  shows "s_Total st = s_Depth st + s_Delayed st + s_InFlight st + s_DLQ st + size T \<and>
    s_Depth st = size (visible (unixMilli clock) q) \<and> s_DLQ st = length (q_dlq q) \<and>
    s_Total st = length (q_msgs q) + length (q_dlq q) \<and> q_ok q' T N"
proof -
  let ?q = "promoteDue (unixMilli clock) q"
  have ok: "q_ok ?q T N" using q_ok_promoteDue [OF assms(1)] .
  have e: "q' = ?q" "s_Total st = length (q_msgs ?q) + length (q_dlq ?q)"
      "s_Depth st = size (mset (rh_msgs (q_ready ?q)))" "s_Delayed st = size (mset (dh_msgs (q_delayed ?q)))"
      "s_InFlight st = size (mset (map snd (q_inflight ?q)))" "s_DLQ st = length (q_dlq ?q)"
    using assms(2) by (auto simp: Stats_def Let_def)
  have "size (mset (map snd (q_msgs ?q))) = size (held ?q + T)" using ok by (simp only: q_ok_def)
  then have "length (q_msgs ?q) = size (held ?q) + size T" by simp
  moreover have "mset (rh_msgs (q_ready ?q)) = visible (unixMilli clock) q"
    using promote_visible(1) [OF assms(1)] .
  ultimately show ?thesis using e ok by (simp add: held_def)
qed

theorem stats_total_witness:
  "\<exists>q' st. Stats 0 one_leased = (q', st) \<and> s_Total st = 1 \<and> s_InFlight st = 1 \<and> s_Depth st = 0"
proof -
  obtain q' st where r: "Stats 0 one_leased = (q', st)" by fastforce
  have v: "visible (unixMilli 0) one_leased = {#}" by (simp add: visible_def one_leased_def newQueue_def)
  have i: "s_InFlight st = 1" using r by (auto simp: Stats_def Let_def one_leased_def)
  show ?thesis using stats_total [OF one_leased_ok r] r v i by (auto simp: one_leased_def newQueue_def)
qed

section \<open>Deadlines\<close>

definition deadlines :: "queue \<Rightarrow> int set" where
  "deadlines q = (\<lambda>m. m_VisibleAt (q_store q m)) ` set (dh_msgs (q_delayed q)) \<union> le_expiresAt ` set (q_leases q)"

text \<open>The maintenance loop arms itself for the earliest deadline: it finds one exactly when there is
  one, the one it finds is that of a delayed message or of a lease, and no other is earlier. (A
  deadline of zero stands for none; the clock counts milliseconds since 1970.)\<close>

lemma nextDeadline_spec:
  assumes "q_ok q T N" "0 \<notin> deadlines q" "nextDeadline q = (q', next)"
  shows "q_armed q' = next \<and> (next = 0 \<longleftrightarrow> deadlines q = {}) \<and>
    (next \<noteq> 0 \<longrightarrow> next \<in> deadlines q \<and> (\<forall>d \<in> deadlines q. next \<le> d))"
proof -
  define d where "d = (case delayed_peek (q_delayed q) of Some m \<Rightarrow> m_VisibleAt (q_store q m) | None \<Rightarrow> 0)"
  have nxt: "next = (case lease_peek (q_leases q) of
      Some e \<Rightarrow> if d = 0 \<or> le_expiresAt e < d then le_expiresAt e else d | None \<Rightarrow> d)" and a: "q_armed q' = next"
    using assms(3) [unfolded nextDeadline_def Let_def, folded d_def] by auto
  have del: "if dh_msgs (q_delayed q) = [] then d = 0
      else d \<noteq> 0 \<and> d \<in> (\<lambda>m. m_VisibleAt (q_store q m)) ` set (dh_msgs (q_delayed q)) \<and>
        (\<forall>m \<in> set (dh_msgs (q_delayed q)). d \<le> m_VisibleAt (q_store q m))"
  proof (cases "delayed_peek (q_delayed q)")
    case None
    then show ?thesis by (simp add: d_def delayed_peek_def split: if_splits)
  next
    case (Some m)
    then have m: "m \<in> set (dh_msgs (q_delayed q))" by (auto simp: delayed_peek_def split: if_splits)
    have "delayed_inv (q_store q) (q_delayed q)" using assms(1) by (simp add: q_ok_def)
    from delayed_peek_earliest [OF this Some] show ?thesis
      using m assms(2) by (auto simp: d_def Some deadlines_def)
  qed
  show ?thesis
  proof (cases "lease_peek (q_leases q)")
    case None
    then have "q_leases q = []" by (simp add: lease_peek_def split: if_splits)
    then show ?thesis using a nxt None del by (auto simp: deadlines_def split: if_splits)
  next
    case (Some e)
    then have e: "e \<in> set (q_leases q)" by (auto simp: lease_peek_def split: if_splits)
    have "heap_inv lease_Less (q_leases q)" using assms(1) by (simp add: q_ok_def)
    note le = lease_peek_earliest [OF this Some]
    have ne: "le_expiresAt e \<noteq> 0" "deadlines q \<noteq> {}" using e assms(2) by (auto simp: deadlines_def)
    have nx: "next = (if d = 0 \<or> le_expiresAt e < d then le_expiresAt e else d)" using nxt Some by simp
    show ?thesis
    proof (cases "d = 0 \<or> le_expiresAt e < d")
      case True
      then have "dh_msgs (q_delayed q) = [] \<or> le_expiresAt e < d" using del by (auto split: if_splits)
      then show ?thesis
        using a nx True ne e le del by (fastforce simp: deadlines_def split: if_splits)
    next
      case False
      then show ?thesis
        using a nx ne e le del by (fastforce simp: deadlines_def split: if_splits)
    qed
  qed
qed

end
