(* ===== verification/QueueWake.thy ===== *)
theory QueueWake
  imports QueueDurable QueueOps
begin

text \<open>
  The maintenance goroutine sleeps until the deadline it is armed for or until it is woken.
  \<open>armed_ok\<close> says that it will not oversleep: a wake token is pending, or it is armed no later
  than every deadline. \<open>nextDeadline\<close> establishes this; here it is shown that no step of any caller
  destroys it, whatever the interleaving.
\<close>

definition armed_ok :: "queue \<Rightarrow> bool" where
  "armed_ok q \<longleftrightarrow> q_wake q \<or> (\<forall>d \<in> deadlines q. q_armed q \<noteq> 0 \<and> q_armed q \<le> d)"

fun maintenance :: "qop \<Rightarrow> bool" where
  "maintenance (OpExpire c rq dl) = True"
| "maintenance (OpDead dl) = True"
| "maintenance _ = False"

section \<open>Parts\<close>

lemma set_lease_push [simp]: "set (lease_push e h) = insert e (set h)"
  by (simp add: lease_push_def)

lemma armed_ok_less:
  assumes "armed_ok q" "deadlines q' \<subseteq> deadlines q" "q_wake q' = q_wake q" "q_armed q' = q_armed q"
  shows "armed_ok q'"
  using assms by (auto simp: armed_ok_def)

lemma armed_ok_wake:
  assumes "armed_ok q" "deadlines q' \<subseteq> insert d (deadlines q)" "q_wake q' = q_wake q" "q_armed q' = q_armed q"
  shows "armed_ok (wakeIfSooner d q')"
proof (cases "q_armed q' \<noteq> 0 \<and> d \<ge> q_armed q'")
  case True
  then show ?thesis using assms by (auto simp: armed_ok_def wakeIfSooner_def)
next
  case False
  then show ?thesis by (auto simp: armed_ok_def wakeIfSooner_def)
qed

lemma deadlines_frame [simp]:
  "deadlines (q\<lparr>q_cnt := c\<rparr>) = deadlines q" "deadlines (q\<lparr>q_entries := en\<rparr>) = deadlines q"
  "deadlines (q\<lparr>q_dedup := dd\<rparr>) = deadlines q" "deadlines (q\<lparr>q_msgs := ms\<rparr>) = deadlines q"
  "deadlines (q\<lparr>q_inflight := i\<rparr>) = deadlines q" "deadlines (q\<lparr>q_ready := r\<rparr>) = deadlines q"
  "deadlines (q\<lparr>q_dlq := dl\<rparr>) = deadlines q" "deadlines (q\<lparr>q_nextEntry := ne\<rparr>) = deadlines q"
  "deadlines (q\<lparr>q_next := nx\<rparr>) = deadlines q" "deadlines (q\<lparr>q_seq := sq\<rparr>) = deadlines q"
  "deadlines (q\<lparr>q_wake := w\<rparr>) = deadlines q"
  by (simp_all add: deadlines_def)

lemma deadlines_upd:
  "m \<notin> set (dh_msgs (q_delayed q)) \<Longrightarrow> deadlines (q\<lparr>q_store := (q_store q)(m := x)\<rparr>) = deadlines q"
  by (force simp: deadlines_def)

lemma armed_ok_frame [simp]:
  "armed_ok (add_cnt f q) = armed_ok q" "armed_ok (close_entry e q) = armed_ok q"
  by (simp_all add: armed_ok_def add_cnt_def close_entry_def split: option.split)

lemma armed_ok_insert:
  assumes "armed_ok q" shows "armed_ok (insert_msg m now q)"
proof -
  let ?q = "q\<lparr>q_msgs := gput (m_ID (q_store q m)) m (q_msgs q)\<rparr>"
  let ?d = "?q\<lparr>q_delayed := delayed_push (q_store q) m (q_delayed q)\<rparr>"
  have "deadlines ?d \<subseteq> insert (m_VisibleAt (q_store q m)) (deadlines q)" by (auto simp: deadlines_def)
  from armed_ok_wake [OF assms this] armed_ok_less [OF assms, of "?q\<lparr>q_ready := r\<rparr>" for r]
  show ?thesis by (simp add: insert_msg_def Let_def)
qed

lemma armed_ok_promote:
  assumes "q_ok q T N" "armed_ok q" shows "armed_ok (promoteDue now q)"
proof -
  have "mset (dh_msgs (q_delayed (promoteDue now q))) \<subseteq># mset (dh_msgs (q_delayed q))"
    using promoteDue_frame [of now q] assms(1) by (auto simp: q_ok_def)
  then have "set (dh_msgs (q_delayed (promoteDue now q))) \<subseteq> set (dh_msgs (q_delayed q))"
    by (metis set_mset_mono set_mset_mset)
  then have "deadlines (promoteDue now q) \<subseteq> deadlines q" by (auto simp: deadlines_def)
  from armed_ok_less [OF assms(2) this] show ?thesis by simp
qed

lemma armed_ok_upd:
  assumes "armed_ok q" "m \<notin> set (dh_msgs (q_delayed q))"
  shows "armed_ok (q\<lparr>q_store := (q_store q)(m := x)\<rparr>)"
  using armed_ok_less [OF assms(1), of "q\<lparr>q_store := (q_store q)(m := x)\<rparr>"] deadlines_upd [OF assms(2)] by simp

lemma armed_ok_requeue:
  assumes "armed_ok q" "m \<notin> set (dh_msgs (q_delayed q))" shows "armed_ok (requeue_msg v now m q)"
  unfolding requeue_msg_def by (intro armed_ok_insert armed_ok_upd assms)

lemma armed_ok_lease_all:
  assumes "lease_all x xs q = (q', ds)" "fst ` set xs \<inter> set (dh_msgs (q_delayed q)) = {}"
  shows "deadlines q' \<subseteq> insert x (deadlines q) \<and> q_wake q' = q_wake q \<and> q_armed q' = q_armed q"
  using assms
proof (induction xs arbitrary: q ds)
  case (Cons y xs)
  obtain m it where y: "y = (m, it)" by (cases y)
  let ?q = "lease_one x y q"
  obtain ds' where l: "lease_all x xs ?q = (q', ds')"
    using Cons.prems(1) by (auto simp: Let_def split: prod.splits)
  have "q_delayed ?q = q_delayed q" "q_wake ?q = q_wake q" "q_armed ?q = q_armed q"
    by (simp_all add: y lease_one_def Let_def)
  moreover have "deadlines ?q \<subseteq> insert x (deadlines q)"
    using Cons.prems(2) by (auto simp: y lease_one_def Let_def deadlines_def)
  ultimately show ?case using Cons.IH [OF l] Cons.prems(2) by auto
qed auto

lemma armed_ok_unpick:
  "armed_ok q \<Longrightarrow> armed_ok (fold (\<lambda>m q. q\<lparr>q_ready := ready_push (q_store q) m (q_ready q)\<rparr>) ms q)"
proof (induction ms arbitrary: q)
  case (Cons m ms)
  then show ?case using armed_ok_less [OF Cons.prems, of "q\<lparr>q_ready := ready_push (q_store q) m (q_ready q)\<rparr>"] by simp
qed simp

lemma armed_ok_finish:
  assumes ok: "q_ok q (T + mset (op_live op)) (N + mset (op_new op))" and fa: "op_facts q op" and a: "armed_ok q"
    and nm: "\<not> maintenance op" and fin: "finish_op clock op err q = (q', ops', evs)"
  shows "armed_ok q'"
proof -
  have hand: "m \<notin> set (dh_msgs (q_delayed q))" if "m \<in> set (op_live op @ op_new op)" for m
    using q_ok_taken(2) [OF ok, of m] that by auto
  show ?thesis
  proof (cases op)
    case (OpEnqueue m e k)
    have "armed_ok (q\<lparr>q_dedup := dd, q_entries := en\<rparr>)" for dd en
      using armed_ok_less [OF a, of "q\<lparr>q_dedup := dd, q_entries := en\<rparr>"] by simp
    then show ?thesis
      using fin a armed_ok_insert [OF a] OpEnqueue by (auto simp: Enqueue_finish_def Let_def split: option.splits)
  next
    case (OpDequeue ms p)
    obtain q1 ds where l: "lease_all (lp_ExpiresAt p) (zip ms (lp_Items p)) q = (q1, ds)" by fastforce
    have "fst ` set (zip ms (lp_Items p)) \<inter> set (dh_msgs (q_delayed q)) = {}"
      using hand OpDequeue by (auto dest: set_zip_leftD)
    note L = armed_ok_lease_all [OF l this]
    have "armed_ok (wakeIfSooner (lp_ExpiresAt p) (add_cnt f q1))" for f
      using L by (intro armed_ok_wake [OF a]) (simp_all add: add_cnt_def)
    then show ?thesis
      using fin OpDequeue l armed_ok_unpick [OF a] by (cases err) (auto simp: tryDequeue_finish_def Let_def)
  next
    case (OpAck i m)
    have "armed_ok (q\<lparr>q_msgs := ms, q_store := (q_store q)(m := x)\<rparr>)" "armed_ok (q\<lparr>q_inflight := f\<rparr>)" for ms x f
      using armed_ok_less [OF armed_ok_upd [OF a hand], of m "q\<lparr>q_msgs := ms, q_store := (q_store q)(m := x)\<rparr>" x]
        armed_ok_less [OF a, of "q\<lparr>q_inflight := f\<rparr>"] OpAck by (simp_all add: queue_upd_order)
    then show ?thesis
      using fin OpAck by (auto simp: Ack_finish_def restoreLeased_def split: option.splits)
  next
    case (OpNack c m d v)
    have "armed_ok (moveToDLQ m q)"
      using armed_ok_less [OF armed_ok_upd [OF a hand], of m "moveToDLQ m q" "(q_store q m)\<lparr>m_leaseToken := []\<rparr>"] OpNack
      by (simp add: moveToDLQ_def Let_def queue_upd_order)
    moreover have "armed_ok (restoreLeased m q)"
      using armed_ok_less [OF a, of "restoreLeased m q"] by (simp add: restoreLeased_def)
    moreover have "armed_ok (requeue_msg v now m q)" for now using armed_ok_requeue [OF a hand] OpNack by simp
    ultimately show ?thesis using fin OpNack by (auto simp: Nack_finish_def split: option.splits if_splits)
  qed (use nm in auto)
qed

lemma armed_ok_enqueue:
  assumes ok: "q_ok q T N" and a: "armed_ok q"
    and r: "Enqueue_reserve clock newID body priority delay key q = (q', res)"
  shows "armed_ok q'"
proof -
  have fresh: "q_next q \<notin> set (dh_msgs (q_delayed q))"
  proof
    assume "q_next q \<in> set (dh_msgs (q_delayed q))"
    then have "0 < count (held q) (q_next q)" by (simp add: held_def)
    moreover have "count (held q + T + N + mset (q_dlq q)) (q_next q) \<le> of_bool (q_next q < q_next q)"
      using ok by (simp only: q_ok_def)
    ultimately show False by (simp add: count_eq_zero_iff)
  qed
  have upd: "armed_ok (q\<lparr>q_seq := sq, q_store := (q_store q)(q_next q := x), q_next := nx\<rparr>)"
    "armed_ok (q\<lparr>q_seq := sq, q_store := (q_store q)(q_next q := x), q_next := nx,
       q_entries := en, q_nextEntry := ne, q_dedup := dd\<rparr>)" for sq x nx en ne dd
    using armed_ok_upd [OF a fresh, of x] by (simp_all add: armed_ok_def deadlines_def)
  show ?thesis
    using r a upd by (auto simp: Enqueue_reserve_def Let_def split: option.splits if_splits)
qed

lemma armed_ok_taken: "armed_ok q \<Longrightarrow> takeLeased i token q = Inr (m, q') \<Longrightarrow> armed_ok q'"
  using takeLeased_InrD(3) [of i token q m q'] armed_ok_less [of q q'] by simp

lemma armed_ok_dequeue:
  assumes "q_ok q T N" "armed_ok q" "tryDequeue_reserve clock tok n q = (q', res)"
  shows "armed_ok q'"
proof -
  let ?q = "promoteDue (unixMilli clock) q"
  have "armed_ok (?q\<lparr>q_ready := rh\<rparr>)" for rh
    using armed_ok_less [OF armed_ok_promote [OF assms(1,2), of "unixMilli clock"], of "?q\<lparr>q_ready := rh\<rparr>"] by simp
  then show ?thesis using assms(3) by (auto simp: tryDequeue_reserve_def Let_def split: prod.splits if_splits)
qed

lemma reclaim_frame:
  "reclaim now q rq dl = (q', rq', dl') \<Longrightarrow> set (q_leases q') \<subseteq> set (q_leases q) \<and> q_delayed q' = q_delayed q \<and>
     q_store q' = q_store q \<and> q_wake q' = q_wake q \<and> q_armed q' = q_armed q"
proof (induction q rq dl rule: reclaim_induct)
  case (turn q rq dl)
  have sub: "set h \<subseteq> set (q_leases q)" if "lease_pop (q_leases q) = Some (e, h)" for e h
    using lease_pop_set [OF that] by blast
  show ?case
  proof (cases rule: reclaim_cases [of now q rq dl, case_names stop stale dead again])
    case stop
    then show ?thesis using turn.prems by simp
  next
    case (stale e h)
    then show ?thesis
      using turn.IH [of "q\<lparr>q_leases := h\<rparr>" rq dl] turn.prems lease_pop_shrinks [OF stale(1)] sub [OF stale(1)] by auto
  next
    case (dead e h m)
    then show ?thesis
      using turn.IH [of "q\<lparr>q_leases := h, q_inflight := gdel (le_id e) (q_inflight q)\<rparr>" rq "dl @ [(m, e)]"]
        turn.prems lease_pop_shrinks [OF dead(1)] sub [OF dead(1)] by auto
  next
    case (again e h m)
    then show ?thesis
      using turn.IH [of "q\<lparr>q_leases := h, q_inflight := gdel (le_id e) (q_inflight q)\<rparr>" "rq @ [(m, e)]" dl]
        turn.prems lease_pop_shrinks [OF again(1)] sub [OF again(1)] by auto
  qed
qed

lemma armed_ok_reclaim: "armed_ok q \<Longrightarrow> reclaim now q rq dl = (q', rq', dl') \<Longrightarrow> armed_ok q'"
  using reclaim_frame [of now q rq dl q' rq' dl'] by (intro armed_ok_less [of q q']) (auto simp: deadlines_def)

section \<open>Every step\<close>

lemma armed_ok_call:
  assumes ok: "q_ok q T N" and a: "armed_ok q" and z: "0 \<notin> deadlines q" and c: "qcall q q' new"
  shows "armed_ok q'"
  using c
proof cases
  case (q_enqueue clock newID body priority delay key m e p)
  then show ?thesis using armed_ok_enqueue [OF ok a q_enqueue(2)] by simp
next
  case (q_duplicate clock newID body priority delay key e)
  then show ?thesis using armed_ok_enqueue [OF ok a q_duplicate(2)] by simp
next
  case (q_dequeue clock tok n ms p)
  then show ?thesis using armed_ok_dequeue [OF ok a q_dequeue(2)] by simp
next
  case (q_empty clock tok n)
  then show ?thesis using armed_ok_dequeue [OF ok a q_empty(2)] by simp
next
  case (q_ack i token m p)
  then show ?thesis using armed_ok_taken [OF a] by (auto simp: Ack_reserve_def split: sum.splits)
next
  case (q_nack clock i token delay m d v p)
  then show ?thesis using armed_ok_taken [OF a] by (auto simp: Nack_reserve_def Let_def split: sum.splits)
next
  case (q_maintain clock rq dl)
  then show ?thesis
    using armed_ok_reclaim [OF armed_ok_promote [OF ok a]] by (auto simp: Maintain_reserve_def Let_def)
next
  case (q_stats clock stt)
  then show ?thesis using armed_ok_promote [OF ok a] by (auto simp: Stats_def Let_def)
next
  case (q_deadline d)
  have "deadlines q' = deadlines q" using q_deadline(2) by (auto simp: nextDeadline_def Let_def deadlines_def)
  then show ?thesis
    using nextDeadline_spec [OF ok z q_deadline(2)] q_deadline(1) by (auto simp: armed_ok_def)
next
  case q_stop
  then show ?thesis using armed_ok_less [OF a, of "stop q"] by (simp add: stop_def deadlines_def)
qed

text \<open>C19: No wake-up is lost. While the maintenance goroutine is blocked in its wait, no step of any
  caller, in any interleaving, leaves it armed later than a deadline without a wake token: whenever a
  delayed message or a lease is added that falls due before the time the goroutine is armed for, the
  token is there. Recomputing the deadline arms it for the earliest one.\<close>

theorem no_lost_wakeup:
  assumes life: "qlife cfg H s" and st: "qstep s s'" and a: "armed_ok (qs_q s)"
    and blocked: "\<forall>(op, stg) \<in> set (qs_ops s). \<not> maintenance op" and z: "0 \<notin> deadlines (qs_q s)"
  shows "armed_ok (qs_q s')"
proof -
  have inv: "qs_inv cfg s" using qlife_inv [OF life] by blast
  note ok = qs_invD(2) [OF inv]
  from st show ?thesis
  proof cases
    case (q_call q' new)
    then show ?thesis using armed_ok_call [OF ok a z] by simp
  next
    case (q_finish xs op stg ys err clock q' ops' evs)
    have "q_ok (qs_q s) (ops_live (xs @ ys) + mset (op_live op)) (ops_new (xs @ ys) + mset (op_new op))"
      using ok q_finish(2) by (simp only: ops_mid)
    moreover have "op_facts (qs_q s) op" using qs_invD(3) [OF inv, of "(op, stg)"] q_finish(2) by (simp add: op_ok_def)
    moreover have "\<not> maintenance op" using blocked q_finish(2) by auto
    ultimately show ?thesis using armed_ok_finish [OF _ _ a _ q_finish(4)] q_finish(1) by simp
  qed (use a in auto)
qed

theorem no_lost_wakeup_witness:
  "\<exists>cfg s s'. qlife cfg [] s \<and> qstep s s' \<and> q_armed (qs_q s) = 0 \<and> deadlines (qs_q s) = {} \<and>
     deadlines (qs_q s') = {5} \<and> armed_ok (qs_q s') \<and> q_wake (qs_q s')"
proof -
  let ?c = "demo_cfg\<lparr>c_Delay := True\<rparr>"
  let ?s0 = "\<lparr>qs_q = newQueue ?c, qs_ops = [], qs_sent = [], qs_committed = 0, qs_failed = False, qs_hist = []\<rparr>"
  have "finalize_queue 0 [] (newQueue ?c) = newQueue ?c"
    by (simp add: finalize_queue_def newQueue_def)
  then have l0: "qlife ?c [] ?s0" by (intro qlife_new [where now = 0]) (simp add: qs_start_def)
  obtain q1 m e p where r: "Enqueue_reserve 0 ''aa'' [65] 0 5000000 [] (newQueue ?c) = (q1, EnqAppend m e p)"
    and q1: "m_VisibleAt (q_store q1 m) = 5" "dh_msgs (q_delayed q1) = []" "q_leases q1 = []" "q_armed q1 = 0"
    by (auto simp: Enqueue_reserve_def newQueue_def Let_def demo_cfg_def Milliseconds_def unixMilli_def go_div_nonneg i64_def)
  let ?s1 = "?s0\<lparr>qs_q := q1, qs_ops := [(OpEnqueue m e [], Reserved p)]\<rparr>"
  let ?s2 = "?s1\<lparr>qs_ops := [(OpEnqueue m e [], Sent 0)], qs_sent := [p]\<rparr>"
  let ?s3 = "?s2\<lparr>qs_committed := 1\<rparr>"
  obtain q4 msg where f: "finish_op 0 (OpEnqueue m e []) None q1 = (q4, [], [EvEnqueued msg])"
    and q4: "q4 = close_entry e (add_cnt (\<lambda>c. c\<lparr>n_enqueued := n_enqueued c + 1\<rparr>) (insert_msg m 0 q1))"
    by (auto simp: Enqueue_finish_def Let_def unixMilli_def go_div_nonneg)
  let ?s4 = "?s3\<lparr>qs_q := q4, qs_ops := [], qs_hist := [EvEnqueued msg]\<rparr>"
  have "qstep ?s0 ?s1" using q_call [of ?s0, OF q_enqueue [of 0 "''aa''" "[65]" 0 5000000 "[]" _ q1 m e p]] r by (simp add: newQueue_def)
  moreover have "qstep ?s1 ?s2" using q_send [of ?s1 "[]" "OpEnqueue m e []" p "[]"] by simp
  moreover have "qstep ?s2 ?s3" using q_commit [of ?s2 1] by simp
  ultimately have l3: "qlife ?c [] ?s3" using l0 qlife_step by blast
  have st: "qstep ?s3 ?s4"
    using q_finish [of ?s3 "[]" "OpEnqueue m e []" "Sent 0" "[]" None 0 q4 "[]" "[EvEnqueued msg]"] f
    by (simp add: answered_def)
  have d: "deadlines (qs_q ?s3) = {}" using q1 by (simp add: deadlines_def)
  then have "armed_ok (qs_q ?s4)" using no_lost_wakeup [OF l3 st] by (simp add: armed_ok_def)
  moreover have d4: "deadlines q4 = {5}" "q_armed q4 = 0"
    using q1 by (simp_all add: q4 close_entry_def add_cnt_def insert_msg_def wakeIfSooner_def Let_def deadlines_def
        split: option.split)
  ultimately show ?thesis
    using l3 st d q1 by - (rule exI [of _ ?c], rule exI [of _ ?s3], rule exI [of _ ?s4], simp add: armed_ok_def)
qed

end
