(* ===== verification/QueueLoops.thy ===== *)
theory QueueLoops
  imports QueueWake
begin

text \<open>
  The two loops of \<open>queue.go\<close>: the polling loop of \<open>Dequeue\<close> and the loop of the maintenance goroutine.
  \<open>Queue\<close> has what one turn of each does; here they run, and what they wait for is given as a schedule
  of the outcomes.
\<close>

section \<open>Polling\<close>

text \<open>
  One turn: what the clock reads after an attempt, what the attempt returned, and which event ended the
  wait. A loop whose schedule is used up has not returned (\<^const>\<open>None\<close>).
\<close>

type_synonym poll_turn = "int \<times> (queue_error + delivery list) \<times> dequeue_event"

fun Dequeue_loop :: "int \<Rightarrow> poll_turn list \<Rightarrow> (queue_error + delivery list) option" where
  "Dequeue_loop deadline [] = None"
| "Dequeue_loop deadline ((clock, res, ev) # turns) =
     (case Dequeue_attempted deadline clock res of
        DqReturn r \<Rightarrow> Some r
      | DqSleep d \<Rightarrow> (case Dequeue_woken ev of Some r \<Rightarrow> Some r | None \<Rightarrow> Dequeue_loop deadline turns))"

definition Dequeue :: "int \<Rightarrow> int \<Rightarrow> poll_turn list \<Rightarrow> (queue_error + delivery list) option" where
  "Dequeue start wait turns = Dequeue_loop (start + wait) turns"

text \<open>Time passes: a timer set for \<open>d\<close> does not fire before \<open>d\<close> has passed.\<close>

fun timely :: "int \<Rightarrow> int \<Rightarrow> poll_turn list \<Rightarrow> bool" where
  "timely deadline now [] = True"
| "timely deadline now ((clock, res, ev) # turns) =
     (now \<le> clock \<and>
      (case Dequeue_attempted deadline clock res of DqReturn r \<Rightarrow> True | DqSleep d \<Rightarrow> timely deadline (clock + d) turns))"

definition polls :: "int \<Rightarrow> nat" where
  "polls wait = nat ((wait + pollInterval - 1) div pollInterval) + 1"

lemma polls_pos: "0 < wait \<Longrightarrow> polls wait = Suc (polls (wait - pollInterval))"
proof -
  assume "0 < wait"
  have "(wait + pollInterval - 1) div pollInterval = (wait - pollInterval + pollInterval - 1) div pollInterval + 1"
    by (simp add: pollInterval_def)
  moreover have "0 \<le> (wait - pollInterval + pollInterval - 1) div pollInterval"
    using \<open>0 < wait\<close> by (simp add: pollInterval_def pos_imp_zdiv_nonneg_iff)
  ultimately show ?thesis by (simp add: polls_def nat_add_distrib)
qed

lemma polls_mono: "a \<le> b \<Longrightarrow> polls a \<le> polls b"
  unfolding polls_def by (simp add: pollInterval_def nat_mono zdiv_mono1)

lemma Dequeue_loop_ends:
  assumes "timely deadline now turns" "polls (deadline - now) \<le> length turns"
  shows "\<exists>r. Dequeue_loop deadline turns = Some r \<and>
    (r = Inr [] \<longrightarrow> (\<exists>(clock, res, ev) \<in> set turns. deadline \<le> clock))"
  using assms
proof (induction turns arbitrary: now)
  case Nil
  then show ?case by (simp add: polls_def)
next
  case (Cons t turns)
  obtain clock res ev where t: "t = (clock, res, ev)" by (cases t)
  show ?case
  proof (cases "Dequeue_attempted deadline clock res")
    case (DqReturn r)
    then have "r = Inr [] \<longrightarrow> deadline \<le> clock"
      by (auto simp: Dequeue_attempted_def Let_def split: sum.splits if_splits)
    then show ?thesis using DqReturn t by auto
  next
    case (DqSleep d)
    have d: "deadline - clock > 0" "d = min (deadline - clock) pollInterval"
      using DqSleep by (auto simp: Dequeue_attempted_def Let_def min_def split: sum.splits if_splits)
    have now: "now \<le> clock" "timely deadline (clock + d) turns" using Cons.prems(1) t DqSleep by simp_all
    have "polls (deadline - (clock + d)) \<le> polls (max 0 (deadline - now - pollInterval))"
      using now(1) d by (intro polls_mono) auto
    also have "\<dots> \<le> polls (deadline - now - pollInterval)"
      by (auto simp: polls_def max_def pollInterval_def)
    finally have "Suc (polls (deadline - (clock + d))) \<le> polls (deadline - now)"
      using polls_pos [of "deadline - now"] now(1) d(1) by simp
    then have "polls (deadline - (clock + d)) \<le> length turns" using Cons.prems(2) by simp
    from Cons.IH [OF now(2) this] show ?thesis
      using t DqSleep by (cases ev) (auto simp: Dequeue_woken_def)
  qed
qed

text \<open>C21: Polling ends. A long poll that waits for \<open>wait\<close> returns after at most one attempt more than there
  are poll intervals in \<open>wait\<close>, whatever the attempts return and whatever wakes it, as long as timers do
  not fire early; and it gives up with nothing only once its time is over.\<close>

theorem dequeue_poll_ends:
  assumes "timely (start + wait) start turns" "nat ((wait + pollInterval - 1) div pollInterval) < length turns"
  shows "\<exists>r. Dequeue start wait turns = Some r \<and>
    (r = Inr [] \<longrightarrow> (\<exists>(clock, res, ev) \<in> set turns. start + wait \<le> clock))"
  using Dequeue_loop_ends [OF assms(1)] assms(2) by (simp add: Dequeue_def polls_def)

theorem dequeue_poll_ends_witness:
  "\<exists>r. Dequeue 0 12000000 [(1, Inr [], TimerFired), (5000002, Inr [], TimerFired), (10000003, Inr [], TimerFired),
      (12000000, Inr [], TimerFired)] = Some r"
proof -
  let ?t = "[(1, Inr [], TimerFired), (5000002, Inr [], TimerFired), (10000003, Inr [], TimerFired),
      (12000000, Inr [], TimerFired)]"
  have "timely (0 + 12000000) 0 ?t" by (simp add: Dequeue_attempted_def pollInterval_def)
  moreover have "nat ((12000000 + pollInterval - 1) div pollInterval) < length ?t" by (simp add: pollInterval_def)
  ultimately show ?thesis using dequeue_poll_ends [of 0 12000000 ?t] by blast
qed

section \<open>Maintenance\<close>

text \<open>
  After \<open>maintain_turn\<close> the goroutine waits; receiving from \<open>wake\<close> takes the token. A fired timer is
  followed by \<open>Maintain\<close>, and a \<open>Maintain\<close> that fails ends the goroutine.
\<close>

datatype maintain_event = MtTimer | MtWake | MtDone

datatype maintain_next = MtAgain | MtMaintain | MtReturn

definition maintain_woken :: "maintain_event \<Rightarrow> queue \<Rightarrow> queue \<times> maintain_next" where
  "maintain_woken ev q =
     (case ev of
        MtTimer \<Rightarrow> (q, MtMaintain)
      | MtWake \<Rightarrow> (q\<lparr>q_wake := False\<rparr>, MtAgain)
      | MtDone \<Rightarrow> (q, MtReturn))"

definition maintain_ran :: "queue_error option \<Rightarrow> maintain_next" where
  "maintain_ran err = (case err of None \<Rightarrow> MtAgain | Some e \<Rightarrow> MtReturn)"

lemma unixMilli_reached: "d * 1000000 \<le> clock \<Longrightarrow> d \<le> unixMilli clock"
proof (cases "0 \<le> clock")
  case True
  assume "d * 1000000 \<le> clock"
  then show ?thesis using True zdiv_mono1 [of "d * 1000000" clock 1000000] by (simp add: unixMilli_def go_div_nonneg)
next
  case False
  assume "d * 1000000 \<le> clock"
  moreover have "unixMilli clock = - (- clock div 1000000)" using False by (simp add: unixMilli_def go_div_sign)
  ultimately show ?thesis using zdiv_mono1 [of "- clock" "- d * 1000000" 1000000] by simp
qed

lemma maintain_deadlines:
  assumes ok: "q_ok q T N" and m: "Maintain_reserve clock q = (q', rq, dl)"
  shows "deadlines q' \<subseteq> {d \<in> deadlines q. unixMilli clock < d}"
proof -
  let ?q = "promoteDue (unixMilli clock) q"
  have r: "reclaim (unixMilli clock) ?q [] [] = (q', rq, dl)" using m by (simp add: Maintain_reserve_def Let_def)
  have h: "heap_inv lease_Less (q_leases ?q)" using ok by (simp add: q_ok_def)
  note frame = reclaim_frame [OF r] and spec = reclaim_spec [OF h r]
  have "delayed_inv (q_store q) (q_delayed q)" using ok by (simp add: q_ok_def)
  then have "mset (dh_msgs (q_delayed ?q)) =
      {#m \<in># mset (dh_msgs (q_delayed q)). unixMilli clock < m_VisibleAt (q_store q m)#}"
    using promoteDue_frame [of "unixMilli clock" q] by (auto simp: due_def not_le)
  from arg_cong [OF this, of set_mset] show ?thesis using frame spec by (auto simp: deadlines_def)
qed



end
