(* ===== verification/GoUtf8.thy ===== *)
theory GoUtf8
  imports Prelude
begin

text \<open>
  Strings of Go are byte sequences, here lists of \<^typ>\<open>char\<close>. This theory holds what the
  standard library does with their UTF-8 reading: \<open>unicode/utf8\<close>, the string literals of
  \<open>encoding/json\<close>, and the conversions between \<open>string\<close> and \<open>[]byte\<close>.
\<close>

section \<open>Bytes and strings\<close>

abbreviation code :: "char \<Rightarrow> nat" where
  "code c \<equiv> of_char c"

definition to_bytes :: "string \<Rightarrow> byte list" where
  "to_bytes s = map (\<lambda>c. of_nat (code c)) s"

definition to_string :: "byte list \<Rightarrow> string" where
  "to_string bs = map (\<lambda>b. char_of (unat b)) bs"

lemma to_string_bytes [simp]: "to_string (to_bytes s) = s"
proof -
  have "char_of (unat (of_nat (code c) :: byte)) = c" for c
  proof -
    have "code c < 256" by simp
    then have "unat (of_nat (code c) :: byte) = code c" by (simp add: unat_of_nat take_bit_nat_eq_self)
    then show ?thesis by simp
  qed
  then show ?thesis by (simp add: to_string_def to_bytes_def comp_def map_idI)
qed

lemma to_bytes_string [simp]: "to_bytes (to_string bs) = bs"
proof -
  have "of_nat (code (char_of (unat b))) = b" for b :: byte
  proof -
    have "unat b < 256" by (rule order_less_le_trans [OF unsigned_less]) simp
    then show ?thesis by (simp add: take_bit_nat_eq_self)
  qed
  then show ?thesis by (simp add: to_string_def to_bytes_def comp_def map_idI)
qed

lemma length_to_bytes [simp]: "length (to_bytes s) = length s"
  by (simp add: to_bytes_def)

section \<open>UTF-8\<close>

text \<open>
  \<open>utf8.DecodeRune\<close>: the length of the well-formed sequence a string starts with, or 0 when the
  first byte starts none (the library then reports \<open>RuneError\<close> with size 1). The second byte has a
  narrower range behind \<open>E0\<close>, \<open>ED\<close>, \<open>F0\<close> and \<open>F4\<close>.
\<close>

definition cont :: "char \<Rightarrow> bool" where
  "cont c \<longleftrightarrow> 128 \<le> code c \<and> code c < 192"

definition second_ok :: "nat \<Rightarrow> char \<Rightarrow> bool" where
  "second_ok b c \<longleftrightarrow> cont c \<and> (b = 224 \<longrightarrow> 160 \<le> code c) \<and> (b = 237 \<longrightarrow> code c < 160) \<and>
     (b = 240 \<longrightarrow> 144 \<le> code c) \<and> (b = 244 \<longrightarrow> code c < 144)"

fun utf8_size :: "string \<Rightarrow> nat" where
  "utf8_size [] = 0"
| "utf8_size (c # cs) =
     (let b = code c in
      if b < 128 then 1
      else if b < 194 \<or> 244 < b then 0
      else (case cs of
          [] \<Rightarrow> 0
        | c1 # cs1 \<Rightarrow>
            if \<not> second_ok b c1 then 0
            else if b < 224 then 2
            else (case cs1 of
                [] \<Rightarrow> 0
              | c2 # cs2 \<Rightarrow>
                  if \<not> cont c2 then 0
                  else if b < 240 then 3
                  else (case cs2 of [] \<Rightarrow> 0 | c3 # cs3 \<Rightarrow> if cont c3 then 4 else 0))))"

declare utf8_size.simps [simp del]

lemma utf8_size_le: "utf8_size s \<le> length s"
  by (cases s) (auto simp: utf8_size.simps Let_def split: list.splits)

lemma utf8_size_ascii [simp]: "code c < 128 \<Longrightarrow> utf8_size (c # cs) = 1"
  by (simp add: utf8_size.simps)

lemma utf8_size_append: "utf8_size s \<noteq> 0 \<Longrightarrow> utf8_size (s @ t) = utf8_size s"
  by (cases s) (auto simp: utf8_size.simps Let_def split: list.splits if_splits)

lemma utf8_size_take: "utf8_size s \<noteq> 0 \<Longrightarrow> utf8_size (take (utf8_size s) s @ t) = utf8_size s"
  by (cases s) (auto simp: utf8_size.simps Let_def split: list.splits if_splits)

text \<open>\<open>utf8.ValidString\<close>.\<close>

function ValidString :: "string \<Rightarrow> bool" where
  "ValidString s = (if s = [] then True else if utf8_size s = 0 then False else ValidString (drop (utf8_size s) s))"
  by pat_completeness auto
termination
  by (relation "measure length") auto

declare ValidString.simps [simp del]

lemma ValidString_Nil [simp]: "ValidString []"
  by (simp add: ValidString.simps [of "[]"])

lemma ValidString_ascii: "\<forall>c \<in> set s. code c < 128 \<Longrightarrow> ValidString s"
  by (induction s) (auto simp: ValidString.simps [of "a # b" for a b])

text \<open>\<open>utf8.AppendRune\<close>; surrogates and values beyond the range are written as U+FFFD.\<close>

definition EncodeRune :: "nat \<Rightarrow> string" where
  "EncodeRune r =
     (let r = (if 0x10FFFF < r \<or> (0xD800 \<le> r \<and> r \<le> 0xDFFF) then 0xFFFD else r) in
      map char_of
       (if r < 0x80 then [r]
        else if r < 0x800 then [0xC0 + r div 64, 0x80 + r mod 64]
        else if r < 0x10000 then [0xE0 + r div 4096, 0x80 + r div 64 mod 64, 0x80 + r mod 64]
        else [0xF0 + r div 262144, 0x80 + r div 4096 mod 64, 0x80 + r div 64 mod 64, 0x80 + r mod 64]))"

section \<open>String literals\<close>

abbreviation quote :: char where "quote \<equiv> CHR 0x22"
abbreviation backslash :: char where "backslash \<equiv> CHR 0x5C"

definition hex_digit :: "nat \<Rightarrow> char" where
  "hex_digit n = (if n < 10 then char_of (48 + n) else char_of (87 + n))"

definition hex_val :: "char \<Rightarrow> nat option" where
  "hex_val c =
     (let n = code c in
      if 48 \<le> n \<and> n \<le> 57 then Some (n - 48)
      else if 97 \<le> n \<and> n \<le> 102 then Some (n - 87)
      else if 65 \<le> n \<and> n \<le> 70 then Some (n - 55)
      else None)"

lemma hex_val_digit [simp]: "n < 16 \<Longrightarrow> hex_val (hex_digit n) = Some n"
  by (auto simp: hex_val_def hex_digit_def Let_def)

text \<open>
  \<open>appendString\<close> of the encoder with HTML escaping, which \<open>json.Marshal\<close> turns on: the body of the
  literal, without its quotes.
\<close>

definition quote_ascii :: "char \<Rightarrow> string" where
  "quote_ascii c =
     (let n = code c in
      if c = quote \<or> c = backslash then [backslash, c]
      else if n = 8 then [backslash, CHR ''b'']
      else if n = 12 then [backslash, CHR ''f'']
      else if n = 10 then [backslash, CHR ''n'']
      else if n = 13 then [backslash, CHR ''r'']
      else if n = 9 then [backslash, CHR ''t'']
      else if n < 32 \<or> c = CHR ''<'' \<or> c = CHR ''>'' \<or> c = CHR ''&''
        then backslash # ''u00'' @ [hex_digit (n div 16), hex_digit (n mod 16)]
      else [c])"

definition quote_rune :: "string \<Rightarrow> string" where
  "quote_rune s =
     (if s = EncodeRune 0x2028 then backslash # ''u2028''
      else if s = EncodeRune 0x2029 then backslash # ''u2029''
      else s)"

function quote_body :: "string \<Rightarrow> string" where
  "quote_body s =
     (case s of
        [] \<Rightarrow> []
      | c # cs \<Rightarrow>
          if code c < 128 then quote_ascii c @ quote_body cs
          else if utf8_size s = 0 then (backslash # ''ufffd'') @ quote_body cs
          else quote_rune (take (utf8_size s) s) @ quote_body (drop (utf8_size s) s))"
  by pat_completeness auto
termination
  by (relation "measure length") auto

declare quote_body.simps [simp del]

text \<open>\<open>getu4\<close>: the value of \<open>\\uXXXX\<close> at the front of a text, and what follows it.\<close>

fun getu4 :: "string \<Rightarrow> (nat \<times> string) option" where
  "getu4 (b # u # h1 # h2 # h3 # h4 # rest) =
     (if b = backslash \<and> u = CHR ''u'' then
        (case (hex_val h1, hex_val h2, hex_val h3, hex_val h4) of
           (Some a, Some b, Some c, Some d) \<Rightarrow> Some (a * 4096 + b * 256 + c * 16 + d, rest)
         | _ \<Rightarrow> None)
      else None)"
| "getu4 _ = None"

lemma getu4_shrinks: "getu4 s = Some (r, t) \<Longrightarrow> length t < length s"
  by (cases s rule: getu4.cases) (auto split: if_splits option.splits)

definition surrogate :: "nat \<Rightarrow> bool" where
  "surrogate r \<longleftrightarrow> 0xD800 \<le> r \<and> r \<le> 0xDFFF"

text \<open>A single-letter escape.\<close>

definition unescape :: "char \<Rightarrow> char option" where
  "unescape e =
     (if e = quote \<or> e = backslash \<or> e = CHR ''/'' then Some e
      else if e = CHR ''b'' then Some (char_of (8 :: nat))
      else if e = CHR ''f'' then Some (char_of (12 :: nat))
      else if e = CHR ''n'' then Some (char_of (10 :: nat))
      else if e = CHR ''r'' then Some (char_of (13 :: nat))
      else if e = CHR ''t'' then Some (char_of (9 :: nat))
      else None)"

text \<open>
  The scanner and \<open>unquote\<close>: from behind the opening quote, the string denoted and what follows the
  closing quote; \<^const>\<open>None\<close> is a syntax error.
\<close>

function jstring :: "string \<Rightarrow> (string \<times> string) option" where
  "jstring s =
     (case s of
        [] \<Rightarrow> None
      | c # cs \<Rightarrow>
          if c = quote then Some ([], cs)
          else if c = backslash then
            (case getu4 s of
               Some (r, t) \<Rightarrow>
                 (case (if surrogate r then getu4 t else None) of
                    Some (r2, t2) \<Rightarrow>
                      if r < 0xDC00 \<and> 0xDC00 \<le> r2 \<and> r2 < 0xE000
                      then map_option (apfst (append (EncodeRune ((r - 0xD800) * 1024 + (r2 - 0xDC00) + 0x10000))))
                             (jstring t2)
                      else map_option (apfst (append (EncodeRune 0xFFFD))) (jstring t)
                  | None \<Rightarrow>
                      map_option (apfst (append (EncodeRune (if surrogate r then 0xFFFD else r)))) (jstring t))
             | None \<Rightarrow>
                 (case cs of
                    [] \<Rightarrow> None
                  | e # ds \<Rightarrow>
                      (case unescape e of
                         None \<Rightarrow> None
                       | Some x \<Rightarrow> map_option (apfst (Cons x)) (jstring ds))))
          else if code c < 32 then None
          else if utf8_size s = 0 then map_option (apfst (append (EncodeRune 0xFFFD))) (jstring cs)
          else map_option (apfst (append (take (utf8_size s) s))) (jstring (drop (utf8_size s) s)))"
  by pat_completeness auto
termination
  by (relation "measure length")
    (auto dest!: getu4_shrinks split: if_splits)

declare jstring.simps [simp del]


section \<open>Literals read back\<close>

lemma getu4_other: "e \<noteq> CHR ''u'' \<Longrightarrow> getu4 (backslash # e # t) = None"
  by (cases "backslash # e # t" rule: getu4.cases) auto

lemma jstring_escape:
  "unescape e = Some x \<Longrightarrow> jstring (backslash # e # t) = map_option (apfst (Cons x)) (jstring t)"
proof -
  assume a: "unescape e = Some x"
  then have "e \<noteq> CHR ''u''" by (auto simp: unescape_def split: if_splits)
  with a getu4_other [of e t] show ?thesis by (simp add: jstring.simps [of "backslash # e # t"])
qed

lemma jstring_u4:
  "getu4 (backslash # s) = Some (r, t) \<Longrightarrow> \<not> surrogate r \<Longrightarrow>
     jstring (backslash # s) = map_option (apfst (append (EncodeRune r))) (jstring t)"
  by (simp add: jstring.simps [of "backslash # s"])

lemma jstring_plain:
  "s \<noteq> [] \<Longrightarrow> hd s \<noteq> quote \<Longrightarrow> hd s \<noteq> backslash \<Longrightarrow> 32 \<le> code (hd s) \<Longrightarrow> utf8_size s \<noteq> 0 \<Longrightarrow>
     jstring s = map_option (apfst (append (take (utf8_size s) s))) (jstring (drop (utf8_size s) s))"
  by (cases s) (simp, subst jstring.simps, simp)

lemma EncodeRune_ascii: "r < 128 \<Longrightarrow> EncodeRune r = [char_of r]"
  by (simp add: EncodeRune_def Let_def)

lemma jstring_ascii:
  assumes "code c < 128"
  shows "jstring (quote_ascii c @ t) = map_option (apfst (Cons c)) (jstring t)"
proof -
  have c: "c = char_of (code c)" by simp
  have one: "(@) [c] = (#) c" by (simp add: fun_eq_iff)
  consider "c = quote \<or> c = backslash" | "code c = 8" | "code c = 12" | "code c = 10" | "code c = 13"
    | "code c = 9" | (ctl) "code c \<noteq> 8" "code c \<noteq> 9" "code c \<noteq> 10" "code c \<noteq> 12" "code c \<noteq> 13" "c \<noteq> quote" "c \<noteq> backslash"
        "code c < 32 \<or> c = CHR ''<'' \<or> c = CHR ''>'' \<or> c = CHR ''&''"
    | (plain) "code c \<noteq> 8" "code c \<noteq> 9" "code c \<noteq> 10" "code c \<noteq> 12" "code c \<noteq> 13" "c \<noteq> quote" "c \<noteq> backslash"
        "\<not> (code c < 32 \<or> c = CHR ''<'' \<or> c = CHR ''>'' \<or> c = CHR ''&'')"
    by blast
  then show ?thesis
  proof cases
    case 1
    then have "quote_ascii c = [backslash, c]" "unescape c = Some c" by (auto simp: quote_ascii_def unescape_def)
    then show ?thesis using jstring_escape [of c c t] by simp
  next
    case 2
    then have "quote_ascii c = [backslash, CHR ''b'']" by (auto simp: quote_ascii_def)
    moreover have "unescape (CHR ''b'') = Some c" using 2 by (subst c) (simp add: unescape_def)
    ultimately show ?thesis using jstring_escape [of "CHR ''b''" c t] by simp
  next
    case 3
    then have "quote_ascii c = [backslash, CHR ''f'']" by (auto simp: quote_ascii_def)
    moreover have "unescape (CHR ''f'') = Some c" using 3 by (subst c) (simp add: unescape_def)
    ultimately show ?thesis using jstring_escape [of "CHR ''f''" c t] by simp
  next
    case 4
    then have "quote_ascii c = [backslash, CHR ''n'']" by (auto simp: quote_ascii_def)
    moreover have "unescape (CHR ''n'') = Some c" using 4 by (subst c) (simp add: unescape_def)
    ultimately show ?thesis using jstring_escape [of "CHR ''n''" c t] by simp
  next
    case 5
    then have "quote_ascii c = [backslash, CHR ''r'']" by (auto simp: quote_ascii_def)
    moreover have "unescape (CHR ''r'') = Some c" using 5 by (subst c) (simp add: unescape_def)
    ultimately show ?thesis using jstring_escape [of "CHR ''r''" c t] by simp
  next
    case 6
    then have "quote_ascii c = [backslash, CHR ''t'']" by (auto simp: quote_ascii_def)
    moreover have "unescape (CHR ''t'') = Some c" using 6 by (subst c) (simp add: unescape_def)
    ultimately show ?thesis using jstring_escape [of "CHR ''t''" c t] by simp
  next
    case ctl
    then have q: "quote_ascii c = backslash # ''u00'' @ [hex_digit (code c div 16), hex_digit (code c mod 16)]"
      by (auto simp: quote_ascii_def Let_def)
    have "code c div 16 < 16" using assms by simp
    then have "getu4 (quote_ascii c @ t) = Some (code c, t)"
      by (simp add: q) (simp add: hex_val_def mult.commute [of _ 16])
    then show ?thesis
      using jstring_u4 [of "tl (quote_ascii c @ t)" "code c" t] assms q one by (simp add: surrogate_def EncodeRune_ascii)
  next
    case plain
    then have "quote_ascii c = [c]" by (simp add: quote_ascii_def Let_def)
    then show ?thesis using jstring_plain [of "c # t"] assms plain one by simp
  qed
qed

lemma quote_rune_back:
  assumes "utf8_size s = n" "n \<noteq> 0" "s \<noteq> []" "128 \<le> code (hd s)"
  shows "jstring (quote_rune (take n s) @ t) = map_option (apfst (append (take n s))) (jstring t)"
proof -
  have u: "jstring (backslash # ''u202'' @ d # t) = map_option (apfst (append (EncodeRune (8224 + k)))) (jstring t)"
    if "hex_val d = Some k" "k < 16" for d k
    using jstring_u4 [of "''u202'' @ d # t" "8224 + k" t] that by (simp add: hex_val_def surrogate_def)
  have a: "hd (take n s @ t) = hd s" "take n s @ t \<noteq> []" using assms(2,3) by (cases s; cases n; simp)+
  have len: "length (take n s) = n" using assms(1) utf8_size_le [of s] by simp
  have "utf8_size (take n s @ t) = n" using utf8_size_take [of s t] assms(1,2) by simp
  moreover have "take n (take n s @ t) = take n s" "drop n (take n s @ t) = t" using len by simp_all
  moreover have "hd s \<noteq> quote" "hd s \<noteq> backslash" using assms(4) by auto
  ultimately have plain: "jstring (take n s @ t) = map_option (apfst (append (take n s))) (jstring t)"
    using jstring_plain [of "take n s @ t"] a assms(2,4) len by (simp add: min_def split: if_splits)
  show ?thesis
    using plain u [of "CHR ''8''" 8] u [of "CHR ''9''" 9] by (simp add: quote_rune_def hex_val_def)
qed

lemma jstring_quote: "ValidString s \<Longrightarrow> jstring (quote_body s @ quote # t) = Some (s, t)"
proof (induction s rule: quote_body.induct)
  case (1 s)
  show ?case
  proof (cases s)
    case Nil
    then show ?thesis by (simp add: quote_body.simps [of "[]"] jstring.simps [of "quote # t"])
  next
    case (Cons c cs)
    have n: "utf8_size s \<noteq> 0" and v: "ValidString (drop (utf8_size s) s)"
      using "1.prems" Cons by (auto simp: ValidString.simps [of "c # cs"] split: if_splits)
    show ?thesis
    proof (cases "code c < 128")
      case True
      then have "ValidString cs" using v Cons by simp
      then show ?thesis
        using "1.IH"(1) [OF Cons True] True jstring_ascii [OF True] by (simp add: Cons quote_body.simps [of "c # cs"])
    next
      case False
      then have q: "quote_body s = quote_rune (take (utf8_size s) s) @ quote_body (drop (utf8_size s) s)"
        using n by (subst quote_body.simps) (simp add: Cons)
      have "s \<noteq> []" "128 \<le> code (hd s)" using Cons False by simp_all
      from quote_rune_back [OF refl n this, of "quote_body (drop (utf8_size s) s) @ quote # t"]
      have "jstring (quote_body s @ quote # t) = map_option (apfst (append (take (utf8_size s) s)))
          (jstring (quote_body (drop (utf8_size s) s) @ quote # t))"
        by (simp only: q append_assoc)
      also have "\<dots> = Some (s, t)" using "1.IH"(3) [OF Cons False n v] by simp
      finally show ?thesis .
    qed
  qed
qed

section \<open>Decoded strings are UTF-8\<close>

lemma ValidString_rune: "utf8_size a = length a \<Longrightarrow> a \<noteq> [] \<Longrightarrow> ValidString b \<Longrightarrow> ValidString (a @ b)"
  using utf8_size_append [of a b] by (subst ValidString.simps) simp

lemma code_char_of: "n < 256 \<Longrightarrow> code (char_of n) = n"
  by (simp add: take_bit_eq_mod)

lemma EncodeRune_size: "utf8_size (EncodeRune r) = length (EncodeRune r) \<and> EncodeRune r \<noteq> []"
proof -
  define k where "k = (if 0x10FFFF < r \<or> (0xD800 \<le> r \<and> r \<le> 0xDFFF) then 0xFFFD else r)"
  have k: "k \<le> 0x10FFFF" "\<not> (0xD800 \<le> k \<and> k \<le> 0xDFFF)" by (auto simp: k_def)
  have e: "EncodeRune r = map char_of
       (if k < 0x80 then [k]
        else if k < 0x800 then [0xC0 + k div 64, 0x80 + k mod 64]
        else if k < 0x10000 then [0xE0 + k div 4096, 0x80 + k div 64 mod 64, 0x80 + k mod 64]
        else [0xF0 + k div 262144, 0x80 + k div 4096 mod 64, 0x80 + k div 64 mod 64, 0x80 + k mod 64])"
    by (simp add: EncodeRune_def k_def Let_def)
  have c: "cont (char_of (0x80 + x mod 64))" "code (char_of (0x80 + x mod 64)) = 0x80 + x mod 64" for x :: nat
  proof -
    have "x mod 64 < 64" by simp
    then show "code (char_of (0x80 + x mod 64)) = 0x80 + x mod 64" by (intro code_char_of) linarith
    then show "cont (char_of (0x80 + x mod 64))" using \<open>x mod 64 < 64\<close> by (simp add: cont_def)
  qed
  consider "k < 0x80" | "0x80 \<le> k" "k < 0x800" | "0x800 \<le> k" "k < 0x10000" | "0x10000 \<le> k" by linarith
  then show ?thesis
  proof cases
    case 1
    then show ?thesis using e code_char_of [of k] by (simp add: utf8_size.simps)
  next
    case 2
    then have b: "2 \<le> k div 64" "k div 64 < 32" by linarith+
    then have "code (char_of (0xC0 + k div 64)) = 0xC0 + k div 64" by (intro code_char_of) linarith
    then show ?thesis using e 2 b c [of k] by (simp add: utf8_size.simps second_ok_def)
  next
    case 3
    then have b: "k div 4096 < 16" by linarith
    then have "code (char_of (0xE0 + k div 4096)) = 0xE0 + k div 4096" by (intro code_char_of) linarith
    moreover have "32 \<le> k div 64 mod 64" if "k div 4096 = 0"
    proof -
      have "32 \<le> k div 64" "k div 64 < 64" using that 3 by linarith+
      then show ?thesis by simp
    qed
    moreover have "k div 64 mod 64 < 32" if "k div 4096 = 13"
    proof -
      have "832 \<le> k div 64" "k div 64 < 864" using that k(2) by linarith+
      moreover have "832 \<le> x \<Longrightarrow> x < 864 \<Longrightarrow> x mod 64 < 32" for x :: nat by presburger
      ultimately show ?thesis by blast
    qed
    ultimately show ?thesis using e 3 b c [of k] c [of "k div 64"] by (simp add: utf8_size.simps second_ok_def)
  next
    case 4
    then have b: "k div 262144 \<le> 4" using k by linarith
    then have "code (char_of (0xF0 + k div 262144)) = 0xF0 + k div 262144" by (intro code_char_of) linarith
    moreover have "16 \<le> k div 4096 mod 64" if "k div 262144 = 0"
    proof -
      have "16 \<le> k div 4096" "k div 4096 < 64" using that 4 by linarith+
      then show ?thesis by simp
    qed
    moreover have "k div 4096 mod 64 < 16" if "k div 262144 = 4"
    proof -
      have "256 \<le> k div 4096" "k div 4096 < 272" using that k(1) by linarith+
      moreover have "256 \<le> x \<Longrightarrow> x < 272 \<Longrightarrow> x mod 64 < 16" for x :: nat by presburger
      ultimately show ?thesis by blast
    qed
    ultimately show ?thesis
      using e 4 b c [of k] c [of "k div 64"] c [of "k div 4096"] by (simp add: utf8_size.simps second_ok_def)
  qed
qed

lemma ValidString_EncodeRune: "ValidString s \<Longrightarrow> ValidString (EncodeRune r @ s)"
  using ValidString_rune EncodeRune_size by blast

lemma utf8_size_prefix: "utf8_size s \<noteq> 0 \<Longrightarrow> utf8_size (take (utf8_size s) s) = length (take (utf8_size s) s)"
  using utf8_size_take [of s "[]"] utf8_size_le [of s] by simp

lemma jstring_step:
  assumes "jstring s = Some (x, t)"
  shows "(x = [] \<and> (\<exists>c. s = c # t)) \<or> (\<exists>u a y. length u < length s \<and> jstring u = Some (y, t) \<and> x = a @ y \<and> utf8_size a = length a \<and> a \<noteq> [])"
proof (cases s)
  case Nil
  then show ?thesis using assms by (simp add: jstring.simps [of "[]"])
next
  case (Cons c cs)
  note J = assms [unfolded jstring.simps [of s]]
  have one: "utf8_size [z] = 1" if "unescape e = Some z" for e z
    using that by (auto simp: unescape_def utf8_size.simps split: if_splits)
  show ?thesis
  proof (cases "c = backslash")
    case True
    show ?thesis
    proof (cases "getu4 s")
      case None
      obtain e ds where e: "cs = e # ds" using J True None Cons by (cases cs) auto
      obtain z y where z: "unescape e = Some z" "jstring ds = Some (y, t)" "x = [z] @ y"
        using J True None Cons e by (auto split: option.splits)
      show ?thesis using z one [OF z(1)] e Cons by (intro disjI2 exI [of _ ds] exI [of _ "[z]"] exI [of _ y]) simp
    next
      case (Some a)
      obtain r u where a: "a = (r, u)" by (cases a)
      have u: "length u < length s" using getu4_shrinks Some a by blast
      have fin: ?thesis if "map_option (apfst (append (EncodeRune k))) (jstring v) = Some (x, t)" "length v < length s" for k v
        using that EncodeRune_size [of k] by auto
      show ?thesis
      proof (cases "if surrogate r then getu4 u else None")
        case None
        then show ?thesis using J True Some a Cons fin [OF _ u] by (simp split: if_splits)
      next
        case b: (Some b)
        obtain r2 u2 where b2: "b = (r2, u2)" by (cases b)
        have "length u2 < length u" using getu4_shrinks [of u r2 u2] b b2 by (simp split: if_splits)
        then have "length u2 < length s" using u by simp
        from fin [OF _ this] fin [OF _ u] show ?thesis using J True Some a b b2 Cons by (simp split: if_splits)
      qed
    qed
  next
    case False
    have d: "utf8_size s \<noteq> 0 \<Longrightarrow> length (drop (utf8_size s) s) < length s" using Cons by simp
    have tk: "utf8_size s \<noteq> 0 \<Longrightarrow> take (utf8_size s) s \<noteq> []" using Cons by simp
    show ?thesis
    proof (cases "utf8_size s = 0")
      case True
      then show ?thesis using J False Cons EncodeRune_size [of 65533] by (auto split: if_splits)
    next
      case n: False
      then have "(x = [] \<and> (\<exists>c. s = c # t)) \<or> (\<exists>y. jstring (drop (utf8_size s) s) = Some (y, t) \<and> x = take (utf8_size s) s @ y)"
        using J False Cons by (auto split: if_splits)
      then show ?thesis using d [OF n] tk [OF n] utf8_size_prefix [OF n] by blast
    qed
  qed
qed

lemma jstring_shrinks: "jstring s = Some (x, t) \<Longrightarrow> length t < length s"
proof (induction "length s" arbitrary: s x rule: less_induct)
  case less
  show ?case using jstring_step [OF less.prems] less.hyps by fastforce
qed

lemma jstring_valid: "jstring s = Some (x, t) \<Longrightarrow> ValidString x"
proof (induction "length s" arbitrary: s x rule: less_induct)
  case less
  show ?case using jstring_step [OF less.prems] less.hyps ValidString_rune by fastforce
qed

end
