(* ===== verification/GoJson.thy ===== *)
theory GoJson
  imports GoUtf8
begin

text \<open>
  \<open>encoding/json\<close>, as far as the program uses it: the values, the text the encoder writes for
  them, and the decoder's grammar. A number is kept as its literal, because the decoder converts it
  only when it knows the type of the target.
\<close>

section \<open>Values and their text\<close>

datatype json =
    JNull
  | JBool bool
  | JNum string
  | JStr string
  | JArr "json list"
  | JObj "(string \<times> json) list"

definition jquote :: "string \<Rightarrow> string" where
  "jquote s = quote # quote_body s @ [quote]"

text \<open>A nonempty comma-separated list, in front of the closing bracket.\<close>

fun commas :: "string list \<Rightarrow> string" where
  "commas [] = []"
| "commas [x] = x"
| "commas (x # y # ys) = x @ CHR '','' # commas (y # ys)"

fun print_json :: "json \<Rightarrow> string" where
  "print_json JNull = ''null''"
| "print_json (JBool b) = (if b then ''true'' else ''false'')"
| "print_json (JNum n) = n"
| "print_json (JStr s) = jquote s"
| "print_json (JArr vs) = CHR ''['' # commas (map print_json vs) @ '']''"
| "print_json (JObj kvs) = CHR ''{'' # commas (map (\<lambda>(k, v). jquote k @ CHR '':'' # print_json v) kvs) @ ''}''"

section \<open>Scanning\<close>

definition is_ws :: "char \<Rightarrow> bool" where
  "is_ws c \<longleftrightarrow> code c \<in> {32, 9, 13, 10}"

definition skip_ws :: "string \<Rightarrow> string" where
  "skip_ws s = dropWhile is_ws s"

definition is_digit :: "char \<Rightarrow> bool" where
  "is_digit c \<longleftrightarrow> 48 \<le> code c \<and> code c \<le> 57"

text \<open>The parts of a number: sign, integer part, fraction, exponent; each with what follows it.\<close>

definition num_sign :: "string \<Rightarrow> string \<times> string" where
  "num_sign s = (case s of c # cs \<Rightarrow> if c = CHR ''-'' then ([c], cs) else ([], s) | [] \<Rightarrow> ([], s))"

definition num_int :: "string \<Rightarrow> (string \<times> string) option" where
  "num_int s = (case s of
      [] \<Rightarrow> None
    | c # cs \<Rightarrow>
        if c = CHR ''0'' then Some ([c], cs)
        else if is_digit c then Some (takeWhile is_digit s, dropWhile is_digit s)
        else None)"

definition num_digits :: "string \<Rightarrow> (string \<times> string) option" where
  "num_digits s =
     (if takeWhile is_digit s = [] then None else Some (takeWhile is_digit s, dropWhile is_digit s))"

definition num_frac :: "string \<Rightarrow> (string \<times> string) option" where
  "num_frac s = (case s of
      c # cs \<Rightarrow> if c = CHR ''.'' then map_option (apfst (Cons c)) (num_digits cs) else Some ([], s)
    | [] \<Rightarrow> Some ([], s))"

definition num_exp :: "string \<Rightarrow> (string \<times> string) option" where
  "num_exp s = (case s of
      c # cs \<Rightarrow>
        if c = CHR ''e'' \<or> c = CHR ''E'' then
          (case cs of
             d # ds \<Rightarrow> if d = CHR ''+'' \<or> d = CHR ''-''
                       then map_option (apfst (\<lambda>x. c # d # x)) (num_digits ds)
                       else map_option (apfst (Cons c)) (num_digits cs)
           | [] \<Rightarrow> None)
        else Some ([], s)
    | [] \<Rightarrow> Some ([], s))"

definition jnumber :: "string \<Rightarrow> (string \<times> string) option" where
  "jnumber s =
     (case num_sign s of (sg, s1) \<Rightarrow>
      case num_int s1 of None \<Rightarrow> None | Some (ip, s2) \<Rightarrow>
      case num_frac s2 of None \<Rightarrow> None | Some (fr, s3) \<Rightarrow>
      case num_exp s3 of None \<Rightarrow> None | Some (ex, s4) \<Rightarrow> Some (sg @ ip @ fr @ ex, s4))"

definition literal :: "string \<Rightarrow> json \<Rightarrow> string \<Rightarrow> (json \<times> string) option" where
  "literal w v s = (if take (length w) s = w then Some (v, drop (length w) s) else None)"

text \<open>
  The grammar. The first argument is fuel: of two nested calls one consumes a character, so twice
  the length of the text is enough (\<open>jvalue_fuel\<close> below: more fuel changes nothing). The
  second is the nesting the scanner still allows; it starts at \<open>maxNestingDepth\<close>.
\<close>

definition maxNestingDepth :: nat where "maxNestingDepth = 10000"

fun jvalue :: "nat \<Rightarrow> nat \<Rightarrow> string \<Rightarrow> (json \<times> string) option"
  and jmembers :: "nat \<Rightarrow> nat \<Rightarrow> string \<Rightarrow> ((string \<times> json) list \<times> string) option"
  and jelems :: "nat \<Rightarrow> nat \<Rightarrow> string \<Rightarrow> (json list \<times> string) option" where
  "jvalue 0 d s = None"
| "jvalue (Suc f) d s =
     (case skip_ws s of
        [] \<Rightarrow> None
      | c # cs \<Rightarrow>
          if c = quote then map_option (apfst JStr) (jstring cs)
          else if c = CHR ''{'' then
            (if d = 0 then None
             else case skip_ws cs of
                 [] \<Rightarrow> None
               | x # xs \<Rightarrow> if x = CHR ''}'' then Some (JObj [], xs)
                            else map_option (apfst JObj) (jmembers f (d - 1) (x # xs)))
          else if c = CHR ''['' then
            (if d = 0 then None
             else case skip_ws cs of
                 [] \<Rightarrow> None
               | x # xs \<Rightarrow> if x = CHR '']'' then Some (JArr [], xs)
                            else map_option (apfst JArr) (jelems f (d - 1) (x # xs)))
          else if c = CHR ''t'' then literal ''true'' (JBool True) (c # cs)
          else if c = CHR ''f'' then literal ''false'' (JBool False) (c # cs)
          else if c = CHR ''n'' then literal ''null'' JNull (c # cs)
          else map_option (apfst JNum) (jnumber (c # cs)))"
| "jmembers 0 d s = None"
| "jmembers (Suc f) d s =
     (case skip_ws s of
        [] \<Rightarrow> None
      | c # cs \<Rightarrow>
          if c \<noteq> quote then None
          else case jstring cs of None \<Rightarrow> None | Some (k, s1) \<Rightarrow>
            (case skip_ws s1 of
               [] \<Rightarrow> None
             | c1 # s2 \<Rightarrow>
                 if c1 \<noteq> CHR '':'' then None
                 else case jvalue f d s2 of None \<Rightarrow> None | Some (v, s3) \<Rightarrow>
                   (case skip_ws s3 of
                      [] \<Rightarrow> None
                    | c3 # s4 \<Rightarrow>
                        if c3 = CHR ''}'' then Some ([(k, v)], s4)
                        else if c3 = CHR '','' then map_option (apfst (Cons (k, v))) (jmembers f d s4)
                        else None)))"
| "jelems 0 d s = None"
| "jelems (Suc f) d s =
     (case jvalue f d s of None \<Rightarrow> None | Some (v, s1) \<Rightarrow>
        (case skip_ws s1 of
           [] \<Rightarrow> None
         | c # s2 \<Rightarrow>
             if c = CHR '']'' then Some ([v], s2)
             else if c = CHR '','' then map_option (apfst (Cons v)) (jelems f d s2)
             else None))"

definition next_value :: "string \<Rightarrow> (json \<times> string) option" where
  "next_value s = jvalue (2 * length s + 1) maxNestingDepth s"

text \<open>\<open>json.Unmarshal\<close> refuses text behind the value; the first \<open>Decode\<close> of a \<open>json.Decoder\<close> does not look at it.\<close>

definition parse_json :: "string \<Rightarrow> json option" where
  "parse_json s =
     (case next_value s of None \<Rightarrow> None | Some (v, t) \<Rightarrow> if skip_ws t = [] then Some v else None)"

section \<open>The parser reads what the printer wrote\<close>

definition show_int :: "int \<Rightarrow> string" where
  "show_int z = (if z < 0 then CHR ''-'' # show_nat (nat (- z)) else show_nat (nat z))"

text \<open>Values whose strings are UTF-8, whose numbers are integers and whose nesting is at most \<open>d\<close>.\<close>

fun json_ok :: "nat \<Rightarrow> json \<Rightarrow> bool" where
  "json_ok d JNull = True"
| "json_ok d (JBool b) = True"
| "json_ok d (JNum n) = (\<exists>z. n = show_int z)"
| "json_ok d (JStr s) = ValidString s"
| "json_ok d (JArr vs) = (0 < d \<and> (\<forall>v \<in> set vs. json_ok (d - 1) v))"
| "json_ok d (JObj kvs) = (0 < d \<and> (\<forall>(k, v) \<in> set kvs. ValidString k \<and> json_ok (d - 1) v))"

lemma show_nat_digits: "\<forall>c \<in> set (show_nat n). is_digit c"
proof (induction n rule: show_nat.induct)
  case (1 n)
  have "is_digit (digit k)" if "k < 10" for k using that by (simp add: is_digit_def digit_def)
  then show ?case using 1 by (subst show_nat.simps) simp
qed

lemma show_nat_zero: "hd (show_nat n) = CHR ''0'' \<Longrightarrow> n = 0"
proof (induction n rule: show_nat.induct)
  case (1 n)
  show ?case
  proof (cases "n < 10")
    case True
    then have "char_of (48 + n) = CHR ''0''" using "1.prems" by (simp add: show_nat.simps [of n] digit_def)
    then have "code (char_of (48 + n)) = 48" by simp
    then show ?thesis using True by (simp only: of_char_of) simp
  next
    case False
    then have "hd (show_nat (n div 10)) = CHR ''0''" using "1.prems" by (simp add: show_nat.simps [of n])
    then show ?thesis using 1 False by simp
  qed
qed

text \<open>What may follow a number.\<close>

definition ends_num :: "string \<Rightarrow> bool" where
  "ends_num t \<longleftrightarrow> (case t of [] \<Rightarrow> True | c # cs \<Rightarrow> \<not> is_digit c \<and> c \<notin> {CHR ''.'', CHR ''e'', CHR ''E''})"

lemma ends_num_simps [simp]:
  "ends_num []" "ends_num (CHR '','' # t)" "ends_num (CHR '']'' # t)" "ends_num (CHR ''}'' # t)"
  by (simp_all add: ends_num_def is_digit_def)

lemma num_int_nat: "ends_num t \<Longrightarrow> num_int (show_nat n @ t) = Some (show_nat n, t)"
proof -
  assume t: "ends_num t"
  obtain c cs where s: "show_nat n = c # cs" by (cases "show_nat n") simp_all
  have "takeWhile is_digit (show_nat n @ t) = show_nat n" "dropWhile is_digit (show_nat n @ t) = t"
    using show_nat_digits [of n] t by (auto simp: ends_num_def takeWhile_append dropWhile_append split: list.splits)
  moreover have "c = CHR ''0'' \<Longrightarrow> cs = []" using show_nat_zero [of n] s by (auto simp: show_nat.simps [of 0])
  ultimately show ?thesis using s show_nat_digits [of n] by (auto simp: num_int_def)
qed

lemma jnumber_int: "ends_num t \<Longrightarrow> jnumber (show_int z @ t) = Some (show_int z, t)"
proof -
  assume t: "ends_num t"
  then have tail: "num_frac t = Some ([], t)" "num_exp t = Some ([], t)"
    by (auto simp: num_frac_def num_exp_def ends_num_def split: list.splits)
  obtain c cs where s: "show_nat (nat z) = c # cs" by (cases "show_nat (nat z)") simp_all
  then have "c \<noteq> CHR ''-''" using show_nat_digits [of "nat z"] by (auto simp: is_digit_def)
  then show ?thesis
    using tail num_int_nat [OF t, of "nat (- z)"] num_int_nat [OF t, of "nat z", unfolded s] s
    by (auto simp: jnumber_def show_int_def num_sign_def)
qed

lemma skip_ws_head [simp]: "\<not> is_ws c \<Longrightarrow> skip_ws (c # cs) = c # cs"
  by (simp add: skip_ws_def)

lemma is_ws_simps [simp]:
  "\<not> is_ws quote" "\<not> is_ws (CHR '','')" "\<not> is_ws (CHR '':'')" "\<not> is_ws (CHR '']'')" "\<not> is_ws (CHR ''}'')"
  "\<not> is_ws (CHR ''['')" "\<not> is_ws (CHR ''{'')" "\<not> is_ws (CHR ''t'')" "\<not> is_ws (CHR ''f'')" "\<not> is_ws (CHR ''n'')"
  by (simp_all add: is_ws_def)

lemma show_int_head: "\<exists>c cs. show_int z = c # cs \<and> (c = CHR ''-'' \<or> is_digit c)"
  using show_nat_digits [of "nat z"] by (cases "show_nat (nat z)") (auto simp: show_int_def)

lemma print_head:
  assumes "json_ok d v"
  obtains c cs where "print_json v = c # cs" "\<not> is_ws c" "c \<noteq> CHR '']''" "c \<noteq> CHR ''}''"
proof (cases v)
  case (JNum n)
  then obtain z where "n = show_int z" using assms by auto
  then show ?thesis using that show_int_head [of z] JNum by (fastforce simp: is_digit_def is_ws_def)
next
  case (JBool b)
  then show ?thesis using that by (cases b) (auto simp: is_ws_def)
qed (use that in \<open>auto simp: jquote_def is_ws_def split: if_splits\<close>)

lemma jstring_jquote: "ValidString s \<Longrightarrow> jstring (quote_body s @ quote # t) = Some (s, t)"
  by (rule jstring_quote)

definition reads :: "json \<Rightarrow> bool" where
  "reads v \<longleftrightarrow> (\<forall>f d t. json_ok d v \<longrightarrow> length (print_json v) \<le> f \<longrightarrow> ends_num t \<longrightarrow>
     jvalue f d (print_json v @ t) = Some (v, t))"

lemma readsD: "reads v \<Longrightarrow> json_ok d v \<Longrightarrow> length (print_json v) \<le> f \<Longrightarrow> ends_num t \<Longrightarrow>
    jvalue f d (print_json v @ t) = Some (v, t)"
  by (simp add: reads_def)

lemma readsI:
  assumes "\<And>f d t. json_ok d v \<Longrightarrow> length (print_json v) \<le> Suc f \<Longrightarrow> ends_num t \<Longrightarrow>
    jvalue (Suc f) d (print_json v @ t) = Some (v, t)"
  shows "reads v"
proof (unfold reads_def, intro allI impI)
  fix f d t assume a: "json_ok d v" "length (print_json v) \<le> f" "ends_num t"
  obtain c cs where "print_json v = c # cs" using a(1) by (rule print_head)
  then obtain g where "f = Suc g" using a(2) by (cases f) auto
  then show "jvalue f d (print_json v @ t) = Some (v, t)" using assms a by simp
qed

lemma jelems_reads:
  "vs \<noteq> [] \<Longrightarrow> \<forall>v \<in> set vs. reads v \<and> json_ok d v \<Longrightarrow> length (commas (map print_json vs)) < f \<Longrightarrow>
     jelems f d (commas (map print_json vs) @ CHR '']'' # t) = Some (vs, t)"
proof (induction vs arbitrary: f)
  case (Cons v vs)
  then obtain g where f: "f = Suc g" by (cases f) auto
  show ?case
  proof (cases vs)
    case Nil
    then show ?thesis using Cons.prems f by (simp add: readsD)
  next
    case (Cons w ws)
    note eq = this
    have "jvalue g d (print_json v @ CHR '','' # commas (map print_json vs) @ CHR '']'' # t) =
        Some (v, CHR '','' # commas (map print_json vs) @ CHR '']'' # t)"
      using Cons.prems f eq by (intro readsD) auto
    then show ?thesis using Cons.IH [of g] Cons.prems f eq by simp
  qed
qed simp

abbreviation print_member :: "string \<times> json \<Rightarrow> string" where
  "print_member \<equiv> \<lambda>(k, v). jquote k @ CHR '':'' # print_json v"

lemma jmembers_reads:
  "kvs \<noteq> [] \<Longrightarrow> \<forall>(k, v) \<in> set kvs. reads v \<and> ValidString k \<and> json_ok d v \<Longrightarrow>
     length (commas (map print_member kvs)) < f \<Longrightarrow>
     jmembers f d (commas (map print_member kvs) @ CHR ''}'' # t) = Some (kvs, t)"
proof (induction kvs arbitrary: f)
  case (Cons kv kvs)
  obtain k v where kv: "kv = (k, v)" by (cases kv)
  from Cons.prems obtain g where f: "f = Suc g" by (cases f) auto
  have k: "jstring (quote_body k @ quote # r) = Some (k, r)" for r
    using Cons.prems kv by (intro jstring_quote) auto
  show ?case
  proof (cases kvs)
    case Nil
    have "jvalue g d (print_json v @ CHR ''}'' # t) = Some (v, CHR ''}'' # t)"
      using Cons.prems f kv Nil by (intro readsD) (auto simp: jquote_def)
    then show ?thesis using f k by (simp add: Nil kv jquote_def)
  next
    case (Cons w ws)
    note eq = this
    let ?r = "CHR '','' # commas (map print_member kvs) @ CHR ''}'' # t"
    have "jvalue g d (print_json v @ ?r) = Some (v, ?r)"
      using Cons.prems f kv eq by (intro readsD) (auto simp: jquote_def)
    moreover have "jmembers g d (commas (map print_member kvs) @ CHR ''}'' # t) = Some (kvs, t)"
      using Cons.prems f kv eq by (intro Cons.IH) (auto simp: jquote_def)
    ultimately show ?thesis using f k by (simp add: eq kv jquote_def)
  qed
qed simp

lemma commas_ne: "xs \<noteq> [] \<Longrightarrow> hd xs \<noteq> [] \<Longrightarrow> commas xs \<noteq> [] \<and> hd (commas xs) = hd (hd xs)"
  by (cases xs rule: commas.cases) auto

lemma all_reads: "reads v"
proof (induction v)
  case JNull
  show ?case by (rule readsI) (simp add: literal_def)
next
  case (JBool b)
  show ?case by (rule readsI) (cases b; simp add: literal_def)
next
  case (JNum n)
  show ?case
  proof (rule readsI)
    fix f d t assume a: "json_ok d (JNum n)" "length (print_json (JNum n)) \<le> Suc f" "ends_num t"
    then obtain z where z: "n = show_int z" by auto
    obtain c cs where c: "show_int z = c # cs" "c = CHR ''-'' \<or> is_digit c" using show_int_head by blast
    then have "\<not> is_ws c" "c \<notin> {quote, CHR ''{'', CHR ''['', CHR ''t'', CHR ''f'', CHR ''n''}"
      by (auto simp: is_ws_def is_digit_def)
    then show "jvalue (Suc f) d (print_json (JNum n) @ t) = Some (JNum n, t)"
      using jnumber_int [OF a(3), of z] c(1) z by simp
  qed
next
  case (JStr s)
  show ?case by (rule readsI) (simp add: jquote_def jstring_quote)
next
  case (JArr vs)
  show ?case
  proof (rule readsI)
    fix g d t assume a: "json_ok d (JArr vs)" "length (print_json (JArr vs)) \<le> Suc g" "ends_num t"
    show "jvalue (Suc g) d (print_json (JArr vs) @ t) = Some (JArr vs, t)"
    proof (cases vs)
      case Nil
      then show ?thesis using a by simp
    next
      case (Cons w ws)
      obtain c cs where h: "print_json w = c # cs" "\<not> is_ws c" "c \<noteq> CHR '']''"
        using a(1) Cons by (auto elim: print_head)
      have ne: "commas (map print_json vs) \<noteq> [] \<and> hd (commas (map print_json vs)) = c"
        using commas_ne [of "map print_json vs"] h Cons by simp
      then obtain r where r: "commas (map print_json vs) = c # r" by (cases "commas (map print_json vs)") auto
      have "jelems g (d - 1) (commas (map print_json vs) @ CHR '']'' # t) = Some (vs, t)"
        using a JArr Cons by (intro jelems_reads) auto
      then show ?thesis using a(1) h(2,3) r by simp
    qed
  qed
next
  case (JObj kvs)
  show ?case
  proof (rule readsI)
    fix g d t assume a: "json_ok d (JObj kvs)" "length (print_json (JObj kvs)) \<le> Suc g" "ends_num t"
    show "jvalue (Suc g) d (print_json (JObj kvs) @ t) = Some (JObj kvs, t)"
    proof (cases kvs)
      case Nil
      then show ?thesis using a by simp
    next
      case (Cons w ws)
      have ne: "commas (map print_member kvs) \<noteq> [] \<and> hd (commas (map print_member kvs)) = quote"
        using commas_ne [of "map print_member kvs"] Cons by (cases w) (simp add: jquote_def)
      then obtain r where r: "commas (map print_member kvs) = quote # r"
        by (cases "commas (map print_member kvs)") auto
      have "\<forall>(k, v) \<in> set kvs. reads v \<and> ValidString k \<and> json_ok (d - 1) v"
        using a(1) JObj by fastforce
      then have "jmembers g (d - 1) (commas (map print_member kvs) @ CHR ''}'' # t) = Some (kvs, t)"
        using a Cons by (intro jmembers_reads) auto
      then show ?thesis using a(1) r by simp
    qed
  qed
qed

lemma next_value_print: "json_ok maxNestingDepth v \<Longrightarrow> next_value (print_json v) = Some (v, [])"
  using readsD [OF all_reads, of maxNestingDepth v "2 * length (print_json v) + 1" "[]"] by (simp add: next_value_def)

lemma parse_print: "json_ok maxNestingDepth v \<Longrightarrow> parse_json (print_json v) = Some v"
  by (simp add: parse_json_def next_value_print skip_ws_def)

section \<open>The fuel is enough\<close>

lemma skip_ws_le: "length (skip_ws s) \<le> length s"
  by (simp add: skip_ws_def length_dropWhile_le)

lemma jnumber_shrinks: "jnumber s = Some (x, t) \<Longrightarrow> length t < length s"
proof -
  assume a: "jnumber s = Some (x, t)"
  obtain sg s1 where s1: "num_sign s = (sg, s1)" by fastforce
  obtain ip s2 fr s3 ex where n: "num_int s1 = Some (ip, s2)" "num_frac s2 = Some (fr, s3)" "num_exp s3 = Some (ex, t)"
    using a s1 by (auto simp: jnumber_def split: option.splits)
  have dig: "length r \<le> length u" if "num_digits u = Some (y, r)" for u y r
    using that by (auto simp: num_digits_def length_dropWhile_le split: if_splits)
  have "length s1 \<le> length s" using s1 by (auto simp: num_sign_def split: list.splits if_splits)
  moreover have "length s2 < length s1"
    using n(1) by (auto simp: num_int_def le_imp_less_Suc length_dropWhile_le split: list.splits if_splits)
  moreover have "length s3 \<le> length s2"
    using n(2) dig by (fastforce simp: num_frac_def split: list.splits if_splits)
  moreover have "length t \<le> length s3"
    using n(3) dig by (fastforce simp: num_exp_def split: list.splits if_splits)
  ultimately show ?thesis by simp
qed

lemma literal_shrinks: "literal w v s = Some (x, t) \<Longrightarrow> w \<noteq> [] \<Longrightarrow> s \<noteq> [] \<Longrightarrow> length t < length s"
  by (auto simp: literal_def split: if_splits)

lemma skip_ws_Cons: "skip_ws s = c # cs \<Longrightarrow> length cs < length s"
  using skip_ws_le [of s] by simp

lemma json_shrinks:
  "jvalue f d s = Some (v, t) \<Longrightarrow> length t < length s"
  "jmembers f d s = Some (kvs, t) \<Longrightarrow> length t < length s"
  "jelems f d s = Some (vs, t) \<Longrightarrow> length t < length s"
proof (induction f d s and f d s and f d s arbitrary: v t and kvs t and vs t rule: jvalue_jmembers_jelems.induct)
  case (2 f d s)
  obtain c cs where c: "skip_ws s = c # cs" using "2.prems" by (cases "skip_ws s") auto
  note l = skip_ws_Cons [OF c]
  consider "c = quote" | "c = CHR ''{''" | "c = CHR ''[''" | "c = CHR ''t'' \<or> c = CHR ''f'' \<or> c = CHR ''n''"
    | "c \<notin> {quote, CHR ''{'', CHR ''['', CHR ''t'', CHR ''f'', CHR ''n''}" by blast
  then show ?case
  proof cases
    case 1
    then show ?thesis using "2.prems" c l jstring_shrinks [of cs] by fastforce
  next
    case 2
    then obtain x xs where x: "skip_ws cs = x # xs" and d: "d \<noteq> 0"
      using "2.prems" c by (cases "skip_ws cs") (auto split: if_splits)
    show ?thesis
      using "2.prems" "2.IH"(1) [OF c _ _ d x] 2 c x d l skip_ws_le [of cs] by (fastforce split: if_splits)
  next
    case 3
    then obtain x xs where x: "skip_ws cs = x # xs" and d: "d \<noteq> 0"
      using "2.prems" c by (cases "skip_ws cs") (auto split: if_splits)
    show ?thesis
      using "2.prems" "2.IH"(2) [OF c _ _ _ d x] 3 c x d l skip_ws_le [of cs] by (fastforce split: if_splits)
  next
    case 4
    then show ?thesis
      using "2.prems" c literal_shrinks [of _ _ "c # cs" v t] skip_ws_le [of s] by fastforce
  next
    case 5
    then obtain x where "jnumber (c # cs) = Some (x, t)" using "2.prems" c by auto
    then show ?thesis using c jnumber_shrinks [of "c # cs"] skip_ws_le [of s] by fastforce
  qed
next
  case (4 f d s)
  obtain cs k s1 where c: "skip_ws s = quote # cs" "jstring cs = Some (k, s1)"
    using "4.prems" by (auto split: list.splits if_splits option.splits)
  obtain s2 w s3 where v: "skip_ws s1 = CHR '':'' # s2" "jvalue f d s2 = Some (w, s3)"
    using "4.prems" c by (auto split: list.splits if_splits option.splits)
  obtain c3 s4 where x: "skip_ws s3 = c3 # s4" using "4.prems" c v by (auto split: list.splits)
  have "length s3 < length s2" using "4.IH"(1) [OF c(1) _ c(2) refl v(1) _ v(2)] by simp
  then have l: "length s4 < length s"
    using skip_ws_Cons [OF c(1)] jstring_shrinks [OF c(2)] skip_ws_Cons [OF v(1)] skip_ws_Cons [OF x] by simp
  show ?case
  proof (cases "c3 = CHR ''}''")
    case True
    then show ?thesis using "4.prems" c v x l by simp
  next
    case False
    then obtain r where r: "jmembers f d s4 = Some (r, t)" "c3 = CHR '',''"
      using "4.prems" c v x by (auto split: if_splits)
    have "length t < length s4"
      by (rule "4.IH"(2) [OF c(1) _ c(2) refl v(1) _ v(2) refl x False]) (use r in simp_all)
    then show ?thesis using l by simp
  qed
next
  case (6 f d s)
  obtain w s1 where v: "jvalue f d s = Some (w, s1)" using "6.prems" by (auto split: option.splits)
  obtain c s2 where x: "skip_ws s1 = c # s2" using "6.prems" v by (auto split: list.splits)
  have "length s1 < length s" using "6.IH"(1) [OF v] .
  then have l: "length s2 < length s" using skip_ws_Cons [OF x] by simp
  show ?case
  proof (cases "c = CHR '']''")
    case True
    then show ?thesis using "6.prems" v x l by simp
  next
    case False
    then obtain r where r: "jelems f d s2 = Some (r, t)" "c = CHR '',''"
      using "6.prems" v x by (auto split: if_splits)
    have "length t < length s2" by (rule "6.IH"(2) [OF v refl x False]) (use r in simp_all)
    then show ?thesis using l by simp
  qed
qed simp_all

lemma json_fuel:
  "2 * length s < f \<Longrightarrow> 2 * length s < g \<Longrightarrow> jvalue f d s = jvalue g d s"
  "2 * length s < f \<Longrightarrow> 2 * length s < g \<Longrightarrow> jmembers f d s = jmembers g d s"
  "2 * length s + 1 < f \<Longrightarrow> 2 * length s + 1 < g \<Longrightarrow> jelems f d s = jelems g d s"
proof (induction f d s and f d s and f d s arbitrary: g and g and g rule: jvalue_jmembers_jelems.induct)
  case (2 f d s)
  obtain g' where g: "g = Suc g'" using "2.prems"(2) by (cases g) auto
  show ?case
  proof (cases "skip_ws s")
    case (Cons c cs)
    note l = skip_ws_Cons [OF Cons]
    have "jmembers f (d - 1) (x # xs) = jmembers g' (d - 1) (x # xs)"
      if "c = CHR ''{''" "d \<noteq> 0" "skip_ws cs = x # xs" "x \<noteq> CHR ''}''" for x xs
      using "2.IH"(1) [OF Cons _ that] "2.prems" g l skip_ws_le [of cs] that by simp
    moreover have "jelems f (d - 1) (x # xs) = jelems g' (d - 1) (x # xs)"
      if "c = CHR ''[''" "d \<noteq> 0" "skip_ws cs = x # xs" "x \<noteq> CHR '']''" for x xs
      using "2.IH"(2) [OF Cons _ _ that] "2.prems" g l skip_ws_le [of cs] that by simp
    ultimately show ?thesis unfolding g jvalue.simps Cons by (simp split: list.split)
  qed (simp add: g)
next
  case (4 f d s)
  obtain g' where g: "g = Suc g'" using "4.prems"(2) by (cases g) auto
  show ?case
  proof (cases "\<exists>cs k s1 s2. skip_ws s = quote # cs \<and> jstring cs = Some (k, s1) \<and> skip_ws s1 = CHR '':'' # s2")
    case True
    then obtain cs k s1 s2 where c: "skip_ws s = quote # cs" "jstring cs = Some (k, s1)" "skip_ws s1 = CHR '':'' # s2"
      by blast
    have l: "length s2 < length s"
      using skip_ws_Cons [OF c(1)] jstring_shrinks [OF c(2)] skip_ws_Cons [OF c(3)] by simp
    have v: "jvalue f d s2 = jvalue g' d s2" using "4.IH"(1) [OF c(1) _ c(2) refl c(3)] "4.prems" g l by simp
    have "jmembers f d s4 = jmembers g' d s4"
      if w: "jvalue f d s2 = Some (w, s3)" "skip_ws s3 = CHR '','' # s4" for w s3 s4
    proof -
      have "length s4 < length s2" using json_shrinks(1) [OF w(1)] skip_ws_Cons [OF w(2)] by simp
      then show ?thesis using "4.IH"(2) [OF c(1) _ c(2) refl c(3) _ w(1) refl w(2)] "4.prems" g l by simp
    qed
    then show ?thesis
      unfolding g jmembers.simps c list.case option.case prod.case v [symmetric]
      by (cases "jvalue f d s2") (auto split: list.split)
  next
    case False
    have "jmembers (Suc h) d s = None" for h
    proof (rule ccontr)
      assume "jmembers (Suc h) d s \<noteq> None"
      then show False using False by (auto split: option.splits list.splits if_splits)
    qed
    then show ?thesis by (simp only: g)
  qed
next
  case (6 f d s)
  obtain g' where g: "g = Suc g'" using "6.prems"(2) by (cases g) auto
  have v: "jvalue f d s = jvalue g' d s" using "6.IH"(1) [of g'] "6.prems" g by simp
  have "jelems f d s2 = jelems g' d s2"
    if w: "jvalue f d s = Some (w, s1)" "skip_ws s1 = CHR '','' # s2" for w s1 s2
  proof -
    have "length s2 < length s" using json_shrinks(1) [OF w(1)] skip_ws_Cons [OF w(2)] by simp
    then show ?thesis using "6.IH"(2) [OF w(1) refl w(2)] "6.prems" g by simp
  qed
  then show ?case unfolding g jelems.simps by (simp add: v [symmetric] split: option.split list.split)
qed simp_all

lemma jvalue_fuel: "2 * length s < f \<Longrightarrow> jvalue f maxNestingDepth s = next_value s"
  unfolding next_value_def by (rule json_fuel(1)) simp_all

section \<open>Parsed strings are UTF-8\<close>

fun json_utf8 :: "json \<Rightarrow> bool" where
  "json_utf8 (JStr s) = ValidString s"
| "json_utf8 (JArr vs) = (\<forall>v \<in> set vs. json_utf8 v)"
| "json_utf8 (JObj kvs) = (\<forall>(k, v) \<in> set kvs. ValidString k \<and> json_utf8 v)"
| "json_utf8 _ = True"

lemma json_parse_utf8:
  "jvalue f d s = Some (v, t) \<Longrightarrow> json_utf8 v"
  "jmembers f d s = Some (kvs, t) \<Longrightarrow> json_utf8 (JObj kvs)"
  "jelems f d s = Some (vs, t) \<Longrightarrow> json_utf8 (JArr vs)"
proof (induction f d s and f d s and f d s arbitrary: v t and kvs t and vs t rule: jvalue_jmembers_jelems.induct)
  case (2 f d s)
  obtain c cs where c: "skip_ws s = c # cs" using "2.prems" by (cases "skip_ws s") auto
  show ?case
  proof (cases "c = CHR ''{'' \<or> c = CHR ''[''")
    case True
    then obtain x xs where x: "skip_ws cs = x # xs" and d: "d \<noteq> 0"
      using "2.prems" c by (cases "skip_ws cs") (auto split: if_splits)
    show ?thesis
      using "2.prems" "2.IH"(1) [OF c _ _ d x] "2.IH"(2) [OF c _ _ _ d x] True c x d by (auto split: if_splits)
  next
    case False
    then show ?thesis
      using "2.prems" c jstring_valid [of cs] by (auto simp: literal_def split: if_splits)
  qed
next
  case (4 f d s)
  obtain cs k s1 where c: "skip_ws s = quote # cs" "jstring cs = Some (k, s1)"
    using "4.prems" by (auto split: list.splits if_splits option.splits)
  obtain s2 w s3 where v: "skip_ws s1 = CHR '':'' # s2" "jvalue f d s2 = Some (w, s3)"
    using "4.prems" c by (auto split: list.splits if_splits option.splits)
  obtain c3 s4 where x: "skip_ws s3 = c3 # s4" using "4.prems" c v by (auto split: list.splits)
  have w: "json_utf8 w" "ValidString k"
    using "4.IH"(1) [OF c(1) _ c(2) refl v(1) _ v(2)] jstring_valid [OF c(2)] by simp_all
  show ?case
  proof (cases "c3 = CHR ''}''")
    case True
    then show ?thesis using "4.prems" c v x w by auto
  next
    case False
    then obtain r where r: "jmembers f d s4 = Some (r, t)" "c3 = CHR '',''" "kvs = (k, w) # r"
      using "4.prems" c v x by (auto split: if_splits)
    have "json_utf8 (JObj r)"
      by (rule "4.IH"(2) [OF c(1) _ c(2) refl v(1) _ v(2) refl x False]) (use r in simp_all)
    then show ?thesis using r(3) w by simp
  qed
next
  case (6 f d s)
  obtain w s1 where v: "jvalue f d s = Some (w, s1)" using "6.prems" by (auto split: option.splits)
  obtain c s2 where x: "skip_ws s1 = c # s2" using "6.prems" v by (auto split: list.splits)
  have w: "json_utf8 w" using "6.IH"(1) [OF v] .
  show ?case
  proof (cases "c = CHR '']''")
    case True
    then show ?thesis using "6.prems" v x w by auto
  next
    case False
    then obtain r where r: "jelems f d s2 = Some (r, t)" "c = CHR '',''" "vs = w # r"
      using "6.prems" v x by (auto split: if_splits)
    have "json_utf8 (JArr r)" by (rule "6.IH"(2) [OF v refl x False]) (use r in simp_all)
    then show ?thesis using r(3) w by simp
  qed
qed simp_all

lemma next_value_utf8: "next_value s = Some (v, t) \<Longrightarrow> json_utf8 v"
  unfolding next_value_def by (rule json_parse_utf8(1))

end
