(* ===== verification/GoStruct.thy ===== *)
theory GoStruct
  imports GoJson "HOL-Library.Monad_Syntax"
begin

text \<open>
  How \<open>encoding/json\<close> fills a Go value from a JSON value. A decoder gets the value the target has
  so far: \<open>null\<close> leaves a string, a number or a bool as it is and empties a slice, and a repeated
  key decodes into what the first one left. A key that names no field is skipped, unless the caller
  asked for \<open>DisallowUnknownFields\<close>. A mismatch of types is an error (\<^const>\<open>None\<close>). The elements of a
  slice are decoded into zero values. A nil slice and an empty one are not told apart.
\<close>

section \<open>Base64\<close>

definition b64_char :: "nat \<Rightarrow> char" where
  "b64_char n =
     (if n < 26 then char_of (65 + n) else if n < 52 then char_of (71 + n)
      else if n < 62 then char_of (n - 4) else if n = 62 then CHR ''+'' else CHR ''/'')"

definition b64_val :: "char \<Rightarrow> nat option" where
  "b64_val c =
     (let n = code c in
      if 65 \<le> n \<and> n \<le> 90 then Some (n - 65)
      else if 97 \<le> n \<and> n \<le> 122 then Some (n - 71)
      else if 48 \<le> n \<and> n \<le> 57 then Some (n + 4)
      else if c = CHR ''+'' then Some 62
      else if c = CHR ''/'' then Some 63
      else None)"

fun b64_encode :: "byte list \<Rightarrow> string" where
  "b64_encode [] = []"
| "b64_encode [a] = (let a = unat a in
     [b64_char (a div 4), b64_char (a mod 4 * 16), CHR ''='', CHR ''=''])"
| "b64_encode [a, b] = (let a = unat a; b = unat b in
     [b64_char (a div 4), b64_char (a mod 4 * 16 + b div 16), b64_char (b mod 16 * 4), CHR ''=''])"
| "b64_encode (a # b # c # bs) = (let a = unat a; b = unat b; c = unat c in
     [b64_char (a div 4), b64_char (a mod 4 * 16 + b div 16), b64_char (b mod 16 * 4 + c div 64),
      b64_char (c mod 64)]) @ b64_encode bs"

definition byte_of :: "nat \<Rightarrow> byte" where "byte_of n = of_nat n"

text \<open>Padding is required and ends the text; unused bits of the last digit are not looked at.\<close>

fun b64_quads :: "string \<Rightarrow> byte list option" where
  "b64_quads [] = Some []"
| "b64_quads (w # x # y # z # rest) =
     do {
       a \<leftarrow> b64_val w;
       b \<leftarrow> b64_val x;
       if y = CHR ''='' then
         (if z = CHR ''='' \<and> rest = [] then Some [byte_of (a * 4 + b div 16)] else None)
       else do {
         c \<leftarrow> b64_val y;
         if z = CHR ''='' then
           (if rest = [] then Some [byte_of (a * 4 + b div 16), byte_of (b mod 16 * 16 + c div 4)] else None)
         else do {
           d \<leftarrow> b64_val z;
           bs \<leftarrow> b64_quads rest;
           Some (byte_of (a * 4 + b div 16) # byte_of (b mod 16 * 16 + c div 4) # byte_of (c mod 4 * 64 + d) # bs)
         }
       }
     }"
| "b64_quads _ = None"

definition b64_decode :: "string \<Rightarrow> byte list option" where
  "b64_decode s = b64_quads (filter (\<lambda>c. code c \<noteq> 10 \<and> code c \<noteq> 13) s)"

lemma b64_val_char [simp]: "n < 64 \<Longrightarrow> b64_val (b64_char n) = Some n"
  by (auto simp: b64_val_def b64_char_def Let_def)

lemma b64_char_ascii [simp]: "n < 64 \<Longrightarrow> code (b64_char n) < 128 \<and> 13 < code (b64_char n) \<and> b64_char n \<noteq> CHR ''=''"
proof -
  assume "n < 64"
  moreover have "b64_val (CHR ''='') = None" by (simp add: b64_val_def)
  ultimately have "b64_char n \<noteq> CHR ''=''" using b64_val_char [of n] by fastforce
  then show ?thesis using \<open>n < 64\<close> by (auto simp: b64_char_def)
qed

lemma unat_byte [simp]: "unat b < 256" for b :: byte
  by (rule order_less_le_trans [OF unsigned_less]) simp

lemma b64_pair: "x div 16 < 16 \<Longrightarrow> (a mod 4 * 16 + x div 16) div 16 = a mod 4 \<and> (a mod 4 * 16 + x div 16) mod 16 = x div 16"
  "y div 64 < 4 \<Longrightarrow> (b mod 16 * 4 + y div 64) div 4 = b mod 16 \<and> (b mod 16 * 4 + y div 64) mod 4 = y div 64"
  for a b x y :: nat
  by simp_all

lemma b64_parts [simp]: "b < 256 \<Longrightarrow> b div 16 < (16 :: nat)" "b < 256 \<Longrightarrow> b div 64 < (4 :: nat)" "b < 256 \<Longrightarrow> b div 4 < (64 :: nat)"
  by simp_all

lemma b64_bounds [simp]:
  "a mod 4 * 16 < (64 :: nat)" "b < 256 \<Longrightarrow> a mod 4 * 16 + b div 16 < (64 :: nat)"
  "b mod 16 * 4 < (64 :: nat)" "c < 256 \<Longrightarrow> b mod 16 * 4 + c div 64 < (64 :: nat)"
proof -
  have "a mod 4 \<le> 3" "b mod 16 \<le> 15" by (simp_all add: less_Suc_eq_le [symmetric])
  moreover have "b < 256 \<Longrightarrow> b div 16 < 16" "c < 256 \<Longrightarrow> c div 64 < 4" by simp_all
  ultimately show "a mod 4 * 16 < (64 :: nat)" "b < 256 \<Longrightarrow> a mod 4 * 16 + b div 16 < (64 :: nat)"
      "b mod 16 * 4 < (64 :: nat)" "c < 256 \<Longrightarrow> b mod 16 * 4 + c div 64 < (64 :: nat)"
    by linarith+
qed

lemma byte_of_unat [simp]: "byte_of (unat b) = b"
  by (simp add: byte_of_def)

lemma b64_quads_encode: "b64_quads (b64_encode bs) = Some bs"
  by (induction bs rule: b64_encode.induct) (simp_all add: Let_def b64_pair)

lemma b64_encode_chars: "c \<in> set (b64_encode bs) \<Longrightarrow> code c < 128 \<and> 13 < code c"
  by (induction bs rule: b64_encode.induct) (auto simp: Let_def)

lemma b64_roundtrip [simp]: "b64_decode (b64_encode bs) = Some bs"
proof -
  have "filter (\<lambda>c. code c \<noteq> 10 \<and> code c \<noteq> 13) (b64_encode bs) = b64_encode bs"
    using b64_encode_chars [of _ bs] by (fastforce simp: filter_id_conv)
  then show ?thesis by (simp add: b64_decode_def b64_quads_encode)
qed

lemma b64_encode_valid [simp]: "ValidString (b64_encode bs)"
  using b64_encode_chars by (intro ValidString_ascii) blast

section \<open>Numbers\<close>

text \<open>\<open>strconv.ParseInt(s, 10, 64)\<close> on a number literal, which never starts with a plus sign.\<close>

definition ParseInt :: "string \<Rightarrow> int option" where
  "ParseInt s =
     (case s of
        [] \<Rightarrow> None
      | c # cs \<Rightarrow>
          if c = CHR ''-'' then
            (if cs = [] then None
             else do { n \<leftarrow> parse_digits cs 0; if in_i64 (- int n) then Some (- int n) else None })
          else do { n \<leftarrow> parse_digits s 0; if in_i64 (int n) then Some (int n) else None })"

lemma show_nat_head: "\<exists>c cs. show_nat n = c # cs \<and> c \<noteq> CHR ''-''"
proof -
  obtain c cs where s: "show_nat n = c # cs" by (cases "show_nat n") simp_all
  then have "is_digit c" using show_nat_digits [of n] by simp
  then show ?thesis using s by (auto simp: is_digit_def)
qed

lemma ParseInt_show [simp]: "in_i64 z \<Longrightarrow> ParseInt (show_int z) = Some z"
proof (cases "z < 0")
  case True
  then show "in_i64 z \<Longrightarrow> ParseInt (show_int z) = Some z" by (simp add: ParseInt_def show_int_def parse_show_nat)
next
  case False
  obtain c cs where "show_nat (nat z) = c # cs" "c \<noteq> CHR ''-''" using show_nat_head by blast
  then show "in_i64 z \<Longrightarrow> ParseInt (show_int z) = Some z"
    using False parse_show_nat [of "nat z"] by (simp add: ParseInt_def show_int_def del: parse_digits.simps)
qed

lemma ParseUint_show [simp]: "ParseUint (show_int (uint w)) = Some w" for w :: u64
proof -
  have "nat (uint w) < 2 ^ 64" using unsigned_less [of w] by (simp add: nat_less_iff)
  moreover have "of_nat (nat (uint w)) = w" by simp
  ultimately show ?thesis by (simp add: ParseUint_def show_int_def parse_show_nat)
qed

section \<open>Decoders\<close>

type_synonym 'a decoder = "json \<Rightarrow> 'a \<Rightarrow> 'a option"

fun dec_string :: "string decoder" where
  "dec_string (JStr s) cur = Some s"
| "dec_string JNull cur = Some cur"
| "dec_string _ cur = None"

fun dec_bool :: "bool decoder" where
  "dec_bool (JBool b) cur = Some b"
| "dec_bool JNull cur = Some cur"
| "dec_bool _ cur = None"

fun dec_int :: "int decoder" where
  "dec_int (JNum n) cur = ParseInt n"
| "dec_int JNull cur = Some cur"
| "dec_int _ cur = None"

fun dec_u64 :: "u64 decoder" where
  "dec_u64 (JNum n) cur = ParseUint n"
| "dec_u64 JNull cur = Some cur"
| "dec_u64 _ cur = None"

text \<open>An element of a byte slice that was written as an array of numbers.\<close>

fun dec_byte :: "byte decoder" where
  "dec_byte (JNum n) cur = (case ParseUint n of Some k \<Rightarrow> if k < 256 then Some (byte_of (unat k)) else None | None \<Rightarrow> None)"
| "dec_byte JNull cur = Some cur"
| "dec_byte _ cur = None"

fun each :: "'a decoder \<Rightarrow> 'a \<Rightarrow> json list \<Rightarrow> 'a list option" where
  "each dec zero [] = Some []"
| "each dec zero (v # vs) = do { x \<leftarrow> dec v zero; xs \<leftarrow> each dec zero vs; Some (x # xs) }"

fun dec_slice :: "'a decoder \<Rightarrow> 'a \<Rightarrow> 'a list decoder" where
  "dec_slice dec zero (JArr vs) cur = each dec zero vs"
| "dec_slice dec zero JNull cur = Some []"
| "dec_slice dec zero _ cur = None"

fun dec_bytes :: "byte list decoder" where
  "dec_bytes (JStr s) cur = b64_decode s"
| "dec_bytes v cur = dec_slice dec_byte 0 v cur"

lemma each_map: "(\<And>x. x \<in> set xs \<Longrightarrow> dec (enc x) zero = Some x) \<Longrightarrow> each dec zero (map enc xs) = Some xs"
  by (induction xs) simp_all

section \<open>Fields\<close>

text \<open>
  \<open>foldName\<close>: keys are compared without regard to case. Of the runes beyond ASCII only the long s
  (U+017F) and the Kelvin sign (U+212A) fold to a letter of a field name.
\<close>

definition upper :: "char \<Rightarrow> char" where
  "upper c = (if 97 \<le> code c \<and> code c \<le> 122 then char_of (code c - 32) else c)"

function foldName :: "string \<Rightarrow> string" where
  "foldName s =
     (case s of
        [] \<Rightarrow> []
      | c # cs \<Rightarrow>
          if take 2 s = EncodeRune 0x17F then CHR ''S'' # foldName (drop 2 s)
          else if take 3 s = EncodeRune 0x212A then CHR ''K'' # foldName (drop 3 s)
          else upper c # foldName cs)"
  by pat_completeness auto
termination
  by (relation "measure length") auto

declare foldName.simps [simp del]

fun field :: "string \<Rightarrow> 'a decoder \<Rightarrow> (string \<times> json) list \<Rightarrow> 'a \<Rightarrow> 'a option" where
  "field name dec [] cur = Some cur"
| "field name dec ((k, v) # kvs) cur =
     (if foldName k = foldName name then do { x \<leftarrow> dec v cur; field name dec kvs x }
      else field name dec kvs cur)"

fun members :: "json \<Rightarrow> (string \<times> json) list option" where
  "members (JObj kvs) = Some kvs"
| "members JNull = Some []"
| "members _ = None"

definition known :: "string list \<Rightarrow> (string \<times> json) list \<Rightarrow> bool" where
  "known names kvs \<longleftrightarrow> (\<forall>(k, v) \<in> set kvs. \<exists>n \<in> set names. foldName k = foldName n)"

lemma foldName_ascii: "\<forall>c \<in> set s. code c < 128 \<Longrightarrow> foldName s = map upper s"
proof (induction s)
  case (Cons c cs)
  have "take 2 (c # cs) \<noteq> EncodeRune 0x17F" "take 3 (c # cs) \<noteq> EncodeRune 0x212A"
    using Cons.prems by (auto simp: EncodeRune_def take_Cons')
  then show ?case using Cons by (simp add: foldName.simps [of "c # cs"])
qed (simp add: foldName.simps [of "[]"])

lemma field_append: "field name dec (xs @ ys) cur = Option.bind (field name dec xs cur) (field name dec ys)"
proof (induction xs arbitrary: cur)
  case (Cons x xs)
  then show ?case by (cases x) (auto split: bind_splits)
qed simp

end
