(* ===== verification/PayloadJson.thy ===== *)
theory PayloadJson
  imports Payload GoStruct
begin

text \<open>
  The JSON of the records of \<open>internal/queue/record.go\<close>: what \<open>json.Marshal\<close> writes for each payload
  struct, following its field tags, and what \<open>json.Unmarshal\<close> makes of a record's bytes. The log
  holds no other text.
\<close>

section \<open>Encoding\<close>

abbreviation jint :: "int \<Rightarrow> json" where "jint z \<equiv> JNum (show_int z)"
abbreviation juint :: "u64 \<Rightarrow> json" where "juint w \<equiv> JNum (show_int (uint w))"

definition enc_config :: "config \<Rightarrow> json" where
  "enc_config c = JObj [(''name'', JStr (c_Name c)), (''mode'', JStr (c_Mode c)),
     (''priority'', JBool (c_Priority c)), (''delay'', JBool (c_Delay c)),
     (''visibility_timeout_ms'', jint (c_VisibilityTimeoutMS c)),
     (''max_attempts'', jint (c_MaxAttempts c)), (''dlq'', JBool (c_DLQ c))]"

definition enc_enqueue :: "enqueuePayload \<Rightarrow> json" where
  "enc_enqueue p = JObj ([(''q'', JStr (ep_Queue p)), (''id'', JStr (ep_ID p)),
     (''body'', JStr (b64_encode (ep_Body p)))] @
     (if ep_Priority p = 0 then [] else [(''prio'', jint (ep_Priority p))]) @
     [(''seq'', juint (ep_Seq p)), (''enq_at'', jint (ep_EnqueuedAt p)), (''vis_at'', jint (ep_VisibleAt p))] @
     (if ep_DedupKey p = [] then [] else [(''dedup'', JStr (ep_DedupKey p))]))"

definition enc_leaseItem :: "leaseItem \<Rightarrow> json" where
  "enc_leaseItem it = JObj [(''id'', JStr (li_ID it)), (''token'', JStr (li_Token it)),
     (''attempts'', jint (li_Attempts it))]"

definition enc_lease :: "leasePayload \<Rightarrow> json" where
  "enc_lease p = JObj [(''q'', JStr (lp_Queue p)), (''exp'', jint (lp_ExpiresAt p)),
     (''items'', JArr (map enc_leaseItem (lp_Items p)))]"

definition enc_ack :: "ackPayload \<Rightarrow> json" where
  "enc_ack p = JObj [(''q'', JStr (ap_Queue p)), (''id'', JStr (ap_ID p))]"

definition enc_nack :: "nackPayload \<Rightarrow> json" where
  "enc_nack p = JObj [(''q'', JStr (np_Queue p)), (''id'', JStr (np_ID p)), (''vis_at'', jint (np_VisibleAt p))]"

definition enc_expireItem :: "expireItem \<Rightarrow> json" where
  "enc_expireItem it = JObj [(''id'', JStr (xi_ID it)), (''vis_at'', jint (xi_VisibleAt it))]"

definition enc_expire :: "expirePayload \<Rightarrow> json" where
  "enc_expire p = JObj [(''q'', JStr (xp_Queue p)), (''items'', JArr (map enc_expireItem (xp_Items p)))]"

definition enc_dlq :: "dlqPayload \<Rightarrow> json" where
  "enc_dlq p = JObj [(''q'', JStr (dp_Queue p)), (''ids'', JArr (map JStr (dp_IDs p))),
     (''reason'', JStr (dp_Reason p))]"

fun enc_payload :: "payload \<Rightarrow> json" where
  "enc_payload (PQueueCreate p) = JObj [(''config'', enc_config (qp_Config p))]"
| "enc_payload (PEnqueue p) = enc_enqueue p"
| "enc_payload (PLease p) = enc_lease p"
| "enc_payload (PAck p) = enc_ack p"
| "enc_payload (PNack p) = enc_nack p"
| "enc_payload (PLeaseExpire p) = enc_expire p"
| "enc_payload (PDLQMove p) = enc_dlq p"

definition Marshal :: "payload \<Rightarrow> byte list" where
  "Marshal p = to_bytes (print_json (enc_payload p))"

section \<open>Decoding\<close>

definition zero_config :: config where
  "zero_config = \<lparr>c_Name = [], c_Mode = [], c_Priority = False, c_Delay = False,
     c_VisibilityTimeoutMS = 0, c_MaxAttempts = 0, c_DLQ = False\<rparr>"

definition dec_config :: "config decoder" where
  "dec_config v c = do {
     kvs \<leftarrow> members v;
     n \<leftarrow> field ''name'' dec_string kvs (c_Name c);
     m \<leftarrow> field ''mode'' dec_string kvs (c_Mode c);
     p \<leftarrow> field ''priority'' dec_bool kvs (c_Priority c);
     d \<leftarrow> field ''delay'' dec_bool kvs (c_Delay c);
     t \<leftarrow> field ''visibility_timeout_ms'' dec_int kvs (c_VisibilityTimeoutMS c);
     a \<leftarrow> field ''max_attempts'' dec_int kvs (c_MaxAttempts c);
     q \<leftarrow> field ''dlq'' dec_bool kvs (c_DLQ c);
     Some \<lparr>c_Name = n, c_Mode = m, c_Priority = p, c_Delay = d, c_VisibilityTimeoutMS = t,
       c_MaxAttempts = a, c_DLQ = q\<rparr>
   }"

definition dec_create :: "json \<Rightarrow> queueCreatePayload option" where
  "dec_create v = do {
     kvs \<leftarrow> members v;
     c \<leftarrow> field ''config'' dec_config kvs zero_config;
     Some \<lparr>qp_Config = c\<rparr>
   }"

definition dec_enqueue :: "json \<Rightarrow> enqueuePayload option" where
  "dec_enqueue v = do {
     kvs \<leftarrow> members v;
     q \<leftarrow> field ''q'' dec_string kvs [];
     i \<leftarrow> field ''id'' dec_string kvs [];
     b \<leftarrow> field ''body'' dec_bytes kvs [];
     p \<leftarrow> field ''prio'' dec_int kvs 0;
     s \<leftarrow> field ''seq'' dec_u64 kvs 0;
     e \<leftarrow> field ''enq_at'' dec_int kvs 0;
     t \<leftarrow> field ''vis_at'' dec_int kvs 0;
     k \<leftarrow> field ''dedup'' dec_string kvs [];
     Some \<lparr>ep_Queue = q, ep_ID = i, ep_Body = b, ep_Priority = p, ep_Seq = s, ep_EnqueuedAt = e,
       ep_VisibleAt = t, ep_DedupKey = k\<rparr>
   }"

definition dec_leaseItem :: "leaseItem decoder" where
  "dec_leaseItem v it = do {
     kvs \<leftarrow> members v;
     i \<leftarrow> field ''id'' dec_string kvs (li_ID it);
     t \<leftarrow> field ''token'' dec_string kvs (li_Token it);
     a \<leftarrow> field ''attempts'' dec_int kvs (li_Attempts it);
     Some \<lparr>li_ID = i, li_Token = t, li_Attempts = a\<rparr>
   }"

definition dec_lease :: "json \<Rightarrow> leasePayload option" where
  "dec_lease v = do {
     kvs \<leftarrow> members v;
     q \<leftarrow> field ''q'' dec_string kvs [];
     e \<leftarrow> field ''exp'' dec_int kvs 0;
     is \<leftarrow> field ''items'' (dec_slice dec_leaseItem \<lparr>li_ID = [], li_Token = [], li_Attempts = 0\<rparr>) kvs [];
     Some \<lparr>lp_Queue = q, lp_ExpiresAt = e, lp_Items = is\<rparr>
   }"

definition dec_ack :: "json \<Rightarrow> ackPayload option" where
  "dec_ack v = do {
     kvs \<leftarrow> members v;
     q \<leftarrow> field ''q'' dec_string kvs [];
     i \<leftarrow> field ''id'' dec_string kvs [];
     Some \<lparr>ap_Queue = q, ap_ID = i\<rparr>
   }"

definition dec_nack :: "json \<Rightarrow> nackPayload option" where
  "dec_nack v = do {
     kvs \<leftarrow> members v;
     q \<leftarrow> field ''q'' dec_string kvs [];
     i \<leftarrow> field ''id'' dec_string kvs [];
     t \<leftarrow> field ''vis_at'' dec_int kvs 0;
     Some \<lparr>np_Queue = q, np_ID = i, np_VisibleAt = t\<rparr>
   }"

definition dec_expireItem :: "expireItem decoder" where
  "dec_expireItem v it = do {
     kvs \<leftarrow> members v;
     i \<leftarrow> field ''id'' dec_string kvs (xi_ID it);
     t \<leftarrow> field ''vis_at'' dec_int kvs (xi_VisibleAt it);
     Some \<lparr>xi_ID = i, xi_VisibleAt = t\<rparr>
   }"

definition dec_expire :: "json \<Rightarrow> expirePayload option" where
  "dec_expire v = do {
     kvs \<leftarrow> members v;
     q \<leftarrow> field ''q'' dec_string kvs [];
     is \<leftarrow> field ''items'' (dec_slice dec_expireItem \<lparr>xi_ID = [], xi_VisibleAt = 0\<rparr>) kvs [];
     Some \<lparr>xp_Queue = q, xp_Items = is\<rparr>
   }"

definition dec_dlq :: "json \<Rightarrow> dlqPayload option" where
  "dec_dlq v = do {
     kvs \<leftarrow> members v;
     q \<leftarrow> field ''q'' dec_string kvs [];
     is \<leftarrow> field ''ids'' (dec_slice dec_string []) kvs [];
     r \<leftarrow> field ''reason'' dec_string kvs [];
     Some \<lparr>dp_Queue = q, dp_IDs = is, dp_Reason = r\<rparr>
   }"

text \<open>
  The bytes of a record of the given type; \<^const>\<open>None\<close> is an error of \<open>json.Unmarshal\<close> (and an
  unknown type, which the switch that calls this handles before).
\<close>

definition Unmarshal :: "recordType \<Rightarrow> byte list \<Rightarrow> payload option" where
  "Unmarshal t bs = do {
     v \<leftarrow> parse_json (to_string bs);
     if t = RecordQueueCreate then map_option PQueueCreate (dec_create v)
     else if t = RecordEnqueue then map_option PEnqueue (dec_enqueue v)
     else if t = RecordLease then map_option PLease (dec_lease v)
     else if t = RecordAck then map_option PAck (dec_ack v)
     else if t = RecordNack then map_option PNack (dec_nack v)
     else if t = RecordLeaseExpire then map_option PLeaseExpire (dec_expire v)
     else if t = RecordDLQMove then map_option PDLQMove (dec_dlq v)
     else None
   }"

section \<open>Round trip\<close>

text \<open>
  Payloads the encoding is faithful on: integers in the range of their type, which holds of every
  Go value, and strings that are UTF-8. Anything else in a string is written as U+FFFD.
\<close>

fun config_ok :: "config \<Rightarrow> bool" where
  "config_ok c \<longleftrightarrow> ValidString (c_Name c) \<and> ValidString (c_Mode c) \<and>
     in_i64 (c_VisibilityTimeoutMS c) \<and> in_i64 (c_MaxAttempts c)"

fun payload_ok :: "payload \<Rightarrow> bool" where
  "payload_ok (PQueueCreate p) \<longleftrightarrow> config_ok (qp_Config p)"
| "payload_ok (PEnqueue p) \<longleftrightarrow> ValidString (ep_Queue p) \<and> ValidString (ep_ID p) \<and> ValidString (ep_DedupKey p) \<and>
     in_i64 (ep_Priority p) \<and> in_i64 (ep_EnqueuedAt p) \<and> in_i64 (ep_VisibleAt p)"
| "payload_ok (PLease p) \<longleftrightarrow> ValidString (lp_Queue p) \<and> in_i64 (lp_ExpiresAt p) \<and>
     (\<forall>it \<in> set (lp_Items p). ValidString (li_ID it) \<and> ValidString (li_Token it) \<and> in_i64 (li_Attempts it))"
| "payload_ok (PAck p) \<longleftrightarrow> ValidString (ap_Queue p) \<and> ValidString (ap_ID p)"
| "payload_ok (PNack p) \<longleftrightarrow> ValidString (np_Queue p) \<and> ValidString (np_ID p) \<and> in_i64 (np_VisibleAt p)"
| "payload_ok (PLeaseExpire p) \<longleftrightarrow> ValidString (xp_Queue p) \<and>
     (\<forall>it \<in> set (xp_Items p). ValidString (xi_ID it) \<and> in_i64 (xi_VisibleAt it))"
| "payload_ok (PDLQMove p) \<longleftrightarrow> ValidString (dp_Queue p) \<and> (\<forall>i \<in> set (dp_IDs p). ValidString i) \<and>
     ValidString (dp_Reason p)"

lemma field_names [simp]:
  "foldName ''name'' = ''NAME''" "foldName ''mode'' = ''MODE''" "foldName ''priority'' = ''PRIORITY''"
  "foldName ''delay'' = ''DELAY''" "foldName ''visibility_timeout_ms'' = ''VISIBILITY_TIMEOUT_MS''"
  "foldName ''max_attempts'' = ''MAX_ATTEMPTS''" "foldName ''dlq'' = ''DLQ''" "foldName ''config'' = ''CONFIG''"
  "foldName ''q'' = ''Q''" "foldName ''id'' = ''ID''" "foldName ''body'' = ''BODY''" "foldName ''prio'' = ''PRIO''"
  "foldName ''seq'' = ''SEQ''" "foldName ''enq_at'' = ''ENQ_AT''" "foldName ''vis_at'' = ''VIS_AT''"
  "foldName ''dedup'' = ''DEDUP''" "foldName ''token'' = ''TOKEN''" "foldName ''attempts'' = ''ATTEMPTS''"
  "foldName ''exp'' = ''EXP''" "foldName ''items'' = ''ITEMS''" "foldName ''ids'' = ''IDS''" "foldName ''reason'' = ''REASON''"
  by (simp_all add: foldName_ascii upper_def char_of_def bit_numeral_rec bit_0)

lemma names_valid [simp]:
  "ValidString ''name''" "ValidString ''mode''" "ValidString ''priority''" "ValidString ''delay''"
  "ValidString ''visibility_timeout_ms''" "ValidString ''max_attempts''" "ValidString ''dlq''" "ValidString ''config''"
  "ValidString ''q''" "ValidString ''id''" "ValidString ''body''" "ValidString ''prio''" "ValidString ''seq''"
  "ValidString ''enq_at''" "ValidString ''vis_at''" "ValidString ''dedup''" "ValidString ''token''"
  "ValidString ''attempts''" "ValidString ''exp''" "ValidString ''items''" "ValidString ''ids''" "ValidString ''reason''"
  by (rule ValidString_ascii; simp)+

lemma dec_config_enc [simp]: "config_ok c \<Longrightarrow> dec_config (enc_config c) c0 = Some c"
  by (simp add: dec_config_def enc_config_def)

lemma dec_leaseItem_enc: "in_i64 (li_Attempts it) \<Longrightarrow> dec_leaseItem (enc_leaseItem it) z = Some it"
  by (simp add: dec_leaseItem_def enc_leaseItem_def)

lemma dec_expireItem_enc: "in_i64 (xi_VisibleAt it) \<Longrightarrow> dec_expireItem (enc_expireItem it) z = Some it"
  by (simp add: dec_expireItem_def enc_expireItem_def)

lemmas record_defs = dec_create_def dec_enqueue_def enc_enqueue_def dec_lease_def enc_lease_def dec_ack_def enc_ack_def
  dec_nack_def enc_nack_def dec_expire_def enc_expire_def dec_dlq_def enc_dlq_def

lemma payload_json_ok: "payload_ok p \<Longrightarrow> json_ok maxNestingDepth (enc_payload p)"
  by (cases p)
    (auto simp: maxNestingDepth_def record_defs enc_config_def enc_leaseItem_def enc_expireItem_def)

lemma Marshal_parse: "payload_ok p \<Longrightarrow> parse_json (to_string (Marshal p)) = Some (enc_payload p)"
  using parse_print [OF payload_json_ok] by (simp add: Marshal_def)

lemma Unmarshal_Marshal: "payload_ok p \<Longrightarrow> Unmarshal (payload_type p) (Marshal p) = Some p"
proof -
  assume ok: "payload_ok p"
  note M = Marshal_parse [OF ok]
  show ?thesis
  proof (cases p)
    case (PLease x)
    then have "each dec_leaseItem z (map enc_leaseItem (lp_Items x)) = Some (lp_Items x)" for z
      using ok by (intro each_map dec_leaseItem_enc) simp
    then show ?thesis using M ok PLease by (simp add: Unmarshal_def record_type_defs record_defs)
  next
    case (PLeaseExpire x)
    then have "each dec_expireItem z (map enc_expireItem (xp_Items x)) = Some (xp_Items x)" for z
      using ok by (intro each_map dec_expireItem_enc) simp
    then show ?thesis using M ok PLeaseExpire by (simp add: Unmarshal_def record_type_defs record_defs)
  next
    case (PDLQMove x)
    have "each dec_string z (map JStr (dp_IDs x)) = Some (dp_IDs x)" for z by (intro each_map) simp
    then show ?thesis using M ok PDLQMove by (simp add: Unmarshal_def record_type_defs record_defs)
  qed (use M ok in \<open>auto simp: Unmarshal_def record_type_defs record_defs\<close>)
qed

text \<open>C8: Every record reads back. For each of the seven payload types the bytes that \<open>json.Marshal\<close>
  writes are decoded by \<open>json.Unmarshal\<close> to the same payload, whatever bytes the body holds and
  whatever characters need escaping in the strings.\<close>

theorem record_json_roundtrip:
  assumes "payload_ok p"
  shows "Unmarshal (payload_type p) (Marshal p) = Some p"
  using assms by (rule Unmarshal_Marshal)

theorem record_json_roundtrip_witness:
  "\<exists>x. ep_Body x = [0, 255] \<and> ep_DedupKey x = [quote, CHR ''<'', CHR 0x0A] \<and> ep_Priority x = -3 \<and>
     Unmarshal RecordEnqueue (Marshal (PEnqueue x)) = Some (PEnqueue x)"
proof -
  let ?x = "\<lparr>ep_Queue = ''q'', ep_ID = ''aa'', ep_Body = [0, 255], ep_Priority = -3, ep_Seq = 7,
     ep_EnqueuedAt = 5, ep_VisibleAt = 5, ep_DedupKey = [quote, CHR ''<'', CHR 0x0A]\<rparr>"
  have "ValidString ''q''" "ValidString ''aa''" "ValidString [quote, CHR ''<'', CHR 0x0A]"
    by (rule ValidString_ascii; simp)+
  then have "payload_ok (PEnqueue ?x)" by (simp add: in_i64_def)
  from record_json_roundtrip [OF this] show ?thesis by - (rule exI [of _ ?x], simp)
qed

end
