(* ===== verification/WalSegment.thy ===== *)
theory WalSegment
  imports WalRecord Message "HOL-Library.Sublist"
begin

text \<open>
  \<open>internal/wal/segment.go\<close> and \<open>internal/wal/recovery.go\<close>: segment files, their listing and
  creation, and the replay of the log on boot.

  The directory is a map from file names to files. A file has its bytes and the length of the
  prefix that a completed \<open>fsync\<close> made durable; a name is durable once the directory was
  synced. Every system call can fail: which ones do is an argument of the operation
  (\<open>Some e\<close> is a failure with error \<open>e\<close>).
\<close>

section \<open>Files\<close>

record segFile =
  f_data :: "byte list"
  f_synced :: nat

record fsys =
  fs_files :: "(string, segFile) gomap"
  fs_subdirs :: "string list"
  fs_linked :: "string list"

section \<open>Segment names\<close>

definition segmentSuffix :: string where
  "segmentSuffix = ''.log''"

text \<open>\<open>fmt.Sprintf("%08d%s", index, segmentSuffix)\<close>\<close>

definition segmentName :: "u64 \<Rightarrow> string" where
  "segmentName index =
     (let s = show_nat (unat index) in replicate (8 - length s) (CHR ''0'') @ s) @ segmentSuffix"

definition HasSuffix :: "string \<Rightarrow> string \<Rightarrow> bool" where
  "HasSuffix s x \<longleftrightarrow> length x \<le> length s \<and> drop (length s - length x) s = x"

definition TrimSuffix :: "string \<Rightarrow> string \<Rightarrow> string" where
  "TrimSuffix s x = (if HasSuffix s x then take (length s - length x) s else s)"

definition segmentIndex :: "string \<Rightarrow> u64 option" where
  "segmentIndex name =
     (if \<not> HasSuffix name segmentSuffix then None
      else ParseUint (TrimSuffix name segmentSuffix))"

text \<open>Directories are skipped, as are names that are not a number before the suffix.\<close>

definition listSegments :: "nat option \<Rightarrow> fsys \<Rightarrow> nat + u64 list" where
  "listSegments readdir fs =
     (case readdir of Some e \<Rightarrow> Inl e
      | None \<Rightarrow> Inr (sort (List.map_filter segmentIndex (map fst (fs_files fs)))))"

section \<open>Creating and truncating\<close>

text \<open>
  \<open>createSegment\<close> fails when the file exists (\<open>O_EXCL\<close>, error 17), when the open fails, or when
  the directory sync fails; in the last case the new, empty file stays behind.
\<close>

definition EEXIST :: nat where "EEXIST = 17"

definition createSegment ::
    "nat option \<Rightarrow> nat option \<Rightarrow> u64 \<Rightarrow> fsys \<Rightarrow> fsys \<times> (nat + string)" where
  "createSegment openErr syncDirErr index fs =
     (let path = segmentName index in
      case openErr of Some e \<Rightarrow> (fs, Inl e)
      | None \<Rightarrow>
        if gget (fs_files fs) path \<noteq> None \<or> path \<in> set (fs_subdirs fs) then (fs, Inl EEXIST)
        else let fs1 = fs\<lparr>fs_files := gput path \<lparr>f_data = [], f_synced = 0\<rparr> (fs_files fs)\<rparr> in
          case syncDirErr of Some e \<Rightarrow> (fs1, Inl e)
          | None \<Rightarrow> (fs1\<lparr>fs_linked := map fst (fs_files fs1)\<rparr>, Inr path))"

definition truncateSegment ::
    "nat option \<Rightarrow> nat option \<Rightarrow> string \<Rightarrow> nat \<Rightarrow> fsys \<Rightarrow> fsys \<times> nat option" where
  "truncateSegment truncErr syncErr path sz fs =
     (case truncErr of Some e \<Rightarrow> (fs, Some e)
      | None \<Rightarrow>
        (case gget (fs_files fs) path of
           None \<Rightarrow> (fs, Some 2)
         | Some f \<Rightarrow>
            let d = take sz (f_data f);
                f' = (case syncErr of None \<Rightarrow> \<lparr>f_data = d, f_synced = length d\<rparr>
                      | Some e \<Rightarrow> \<lparr>f_data = d, f_synced = min (f_synced f) (length d)\<rparr>)
            in (fs\<lparr>fs_files := gput path f' (fs_files fs)\<rparr>, syncErr)))"

section \<open>Replay\<close>

record recoveryInfo =
  ri_Segments :: nat
  ri_Records :: nat
  ri_Truncated :: bool
  ri_TruncatedAt :: nat

datatype 'e replay_error =
    ReplayIO nat
  | ReplayCorrupt u64 nat
  | ReplayApply recordType u64 nat 'e

record replay_io =
  rio_readdir :: "nat option"
  rio_read :: "u64 \<Rightarrow> nat option"
  rio_trunc :: "nat option"
  rio_sync :: "nat option"

definition no_faults :: replay_io where
  "no_faults = \<lparr>rio_readdir = None, rio_read = (\<lambda>_. None), rio_trunc = None, rio_sync = None\<rparr>"

lemma decodeRecord_pos: "decodeRecord buf = Some (r, n) \<Longrightarrow> 0 < n"
  using decodeRecord_sound(2) by (fastforce simp: length_frame headerSize_def)

text \<open>
  The loop over the bytes of one segment: the state folded so far, the number of records, the
  offset, and whether the loop left at a frame that does not decode. An error of \<open>apply\<close> comes
  back with the record's type and offset.
\<close>

function replay_loop :: "(walRecord \<Rightarrow> 's \<Rightarrow> 'e + 's) \<Rightarrow> byte list \<Rightarrow> nat \<Rightarrow> 's \<Rightarrow> nat \<Rightarrow>
    (recordType \<times> nat \<times> 'e) + ('s \<times> nat \<times> nat \<times> bool)" where
  "replay_loop ap data off st n =
     (if off < length data then
        (case decodeRecord (drop off data) of
           None \<Rightarrow> Inr (st, n, off, True)
         | Some (rec, k) \<Rightarrow>
             (case ap rec st of
                Inl e \<Rightarrow> Inl (r_Type rec, off, e)
              | Inr st' \<Rightarrow> replay_loop ap data (off + k) st' (n + 1)))
      else Inr (st, n, off, False))"
  by pat_completeness auto
termination
  by (relation "measure (\<lambda>(ap, data, off, st, n). length data - off)")
     (auto dest: decodeRecord_pos)

declare replay_loop.simps [simp del]

fun replay_segments :: "replay_io \<Rightarrow> (walRecord \<Rightarrow> 's \<Rightarrow> 'e + 's) \<Rightarrow> u64 list \<Rightarrow> fsys \<Rightarrow> 's \<Rightarrow>
    recoveryInfo \<Rightarrow> u64 \<Rightarrow> nat \<Rightarrow>
    fsys \<times> ('e replay_error + ('s \<times> recoveryInfo \<times> u64 \<times> nat))" where
  "replay_segments io ap [] fs st info lastIndex lastSize =
     (fs, Inr (st, info, lastIndex, lastSize))"
| "replay_segments io ap (idx # rest) fs st info lastIndex lastSize =
     (let path = segmentName idx in
      case rio_read io idx of Some e \<Rightarrow> (fs, Inl (ReplayIO e))
      | None \<Rightarrow>
        (case gget (fs_files fs) path of
           None \<Rightarrow> (fs, Inl (ReplayIO 2))
         | Some f \<Rightarrow>
            (case replay_loop ap (f_data f) 0 st (ri_Records info) of
               Inl (typ, off, e) \<Rightarrow> (fs, Inl (ReplayApply typ idx off e))
             | Inr (st', n, off, torn) \<Rightarrow>
                 let info1 = info\<lparr>ri_Records := n\<rparr> in
                 if torn then
                   if rest \<noteq> [] then (fs, Inl (ReplayCorrupt idx off))
                   else (case truncateSegment (rio_trunc io) (rio_sync io) path off fs of
                           (fs', Some e) \<Rightarrow> (fs', Inl (ReplayIO e))
                         | (fs', None) \<Rightarrow>
                             replay_segments io ap rest fs' st'
                               (info1\<lparr>ri_Truncated := True, ri_TruncatedAt := off\<rparr>) idx off)
                 else replay_segments io ap rest fs st' info1 idx (length (f_data f)))))"

definition replay :: "replay_io \<Rightarrow> (walRecord \<Rightarrow> 's \<Rightarrow> 'e + 's) \<Rightarrow> fsys \<Rightarrow> 's \<Rightarrow>
    fsys \<times> ('e replay_error + ('s \<times> recoveryInfo \<times> u64 \<times> nat))" where
  "replay io ap fs st =
     (case listSegments (rio_readdir io) fs of
        Inl e \<Rightarrow> (fs, Inl (ReplayIO e))
      | Inr indexes \<Rightarrow>
          replay_segments io ap indexes fs st
            \<lparr>ri_Segments = length indexes, ri_Records = 0, ri_Truncated = False, ri_TruncatedAt = 0\<rparr>
            0 0)"

section \<open>Segment names\<close>

lemma HasSuffix_append [simp]: "HasSuffix (s @ x) x"
  by (simp add: HasSuffix_def)

lemma TrimSuffix_append [simp]: "TrimSuffix (s @ x) x = s"
  by (simp add: TrimSuffix_def)

lemma segmentIndex_segmentName [simp]: "segmentIndex (segmentName i) = Some i"
proof -
  have "unat i < 2 ^ 64" using unsigned_less [of i] by simp
  then have "ParseUint (replicate k (CHR ''0'') @ show_nat (unat i)) = Some i" for k
    by (simp add: ParseUint_def parse_digits_zeros parse_show_nat)
  then show ?thesis
    unfolding segmentIndex_def segmentName_def Let_def HasSuffix_append TrimSuffix_append
    by (simp only: HasSuffix_append not_True_eq_False if_False)
qed

lemma segmentName_inj: "segmentName i = segmentName j \<Longrightarrow> i = j"
  by (metis option.inject segmentIndex_segmentName)

section \<open>The loop over one segment\<close>

text \<open>The loop is the scan of the frames followed by a fold of \<open>apply\<close>.\<close>

lemma replay_loop_frames:
  assumes "\<forall>r \<in> set rs. rec_ok r" "fold_err ap rs st = Inr st'"
  shows "replay_loop ap (pre @ concat (map frame rs) @ rest) (length pre) st n =
    replay_loop ap (pre @ concat (map frame rs) @ rest)
      (length pre + length (concat (map frame rs))) st' (n + length rs)"
  using assms
proof (induction rs arbitrary: pre st n)
  case (Cons r rs)
  let ?d = "pre @ concat (map frame (r # rs)) @ rest"
  obtain t where t: "ap r st = Inr t" "fold_err ap rs t = Inr st'"
    using Cons.prems(2) by (auto split: sum.splits)
  have step: "replay_loop ap ?d (length pre) st n =
      replay_loop ap ?d (length pre + length (frame r)) t (n + 1)"
    using decodeRecord_frame [of r "concat (map frame rs) @ rest"] Cons.prems(1) t(1)
      wal_frames.enc_ne [of r]
    by (subst replay_loop.simps) simp
  have "replay_loop ap ?d (length (pre @ frame r)) t (n + 1) =
      replay_loop ap ?d (length (pre @ frame r) + length (concat (map frame rs))) st' (n + 1 + length rs)"
    using Cons.IH [OF _ t(2), of "pre @ frame r" "n + 1"] Cons.prems(1) by simp
  with step show ?case by (simp add: add.assoc)
qed simp

lemma replay_loop_end: "replay_loop ap data (length data) st n = Inr (st, n, length data, False)"
  by (simp add: replay_loop.simps)

lemma replay_loop_whole:
  assumes "\<forall>r \<in> set rs. rec_ok r" "fold_err ap rs st = Inr st'"
  shows "replay_loop ap (concat (map frame rs)) 0 st n =
    Inr (st', n + length rs, length (concat (map frame rs)), False)"
  using replay_loop_frames [OF assms, of "[]" "[]" n]
    replay_loop_end [of ap "concat (map frame rs)"] by simp

lemma replay_loop_cut:
  assumes "\<forall>r \<in> set rs. rec_ok r" "fold_err ap rs st = Inr st'"
    and "rec_ok r" "0 < k" "k < length (frame r)"
  shows "replay_loop ap (concat (map frame rs) @ take k (frame r)) 0 st n =
    Inr (st', n + length rs, length (concat (map frame rs)), True)"
proof -
  have "frame r \<noteq> []" using assms(5) by auto
  then have "replay_loop ap (concat (map frame rs) @ take k (frame r))
      (length (concat (map frame rs))) st' (n + length rs) =
      Inr (st', n + length rs, length (concat (map frame rs)), True)"
    using decodeRecord_cut [OF assms(3,5)] assms(4) by (subst replay_loop.simps) simp
  then show ?thesis
    using replay_loop_frames [OF assms(1,2), of "[]" "take k (frame r)" n] by simp
qed

text \<open>
  On any prefix of the frames of \<open>rs\<close> the loop folds the records whose frames are complete, and
  reports a torn tail exactly when bytes are left over.
\<close>

lemma replay_loop_prefix:
  assumes ok: "\<forall>r \<in> set rs. rec_ok r" and k: "k \<le> length (concat (map frame rs))"
    and ap: "\<And>j. \<exists>st'. fold_err ap (take j rs) st = Inr st'"
  obtains j st' where "j \<le> length rs" "fold_err ap (take j rs) st = Inr st'"
    "replay_loop ap (take k (concat (map frame rs))) 0 st n =
       Inr (st', n + j, length (concat (map frame (take j rs))),
            length (concat (map frame (take j rs))) < k)"
    "length (concat (map frame (take j rs))) \<le> k"
    "\<And>i. i \<le> length rs \<Longrightarrow> length (concat (map frame (take i rs))) \<le> k \<Longrightarrow> i \<le> j"
proof -
  obtain j where j: "j \<le> length rs"
    "length (concat (map frame (take j rs))) \<le> k"
    "\<forall>i \<le> length rs. length (concat (map frame (take i rs))) \<le> k \<longrightarrow> i \<le> j"
    using wal_frames.scan_prefix [OF ok k] by blast
  obtain st' where st': "fold_err ap (take j rs) st = Inr st'" using ap by blast
  have okj: "\<forall>r \<in> set (take j rs). rec_ok r" using ok by (meson in_set_takeD)
  define m where "m = k - length (concat (map frame (take j rs)))"
  have split: "concat (map frame rs) = concat (map frame (take j rs)) @ concat (map frame (drop j rs))"
    by (metis append_take_drop_id concat_append map_append)
  have pre: "take k (concat (map frame rs)) =
      concat (map frame (take j rs)) @ take m (concat (map frame (drop j rs)))"
    unfolding split m_def using j(2) by simp
  have "replay_loop ap (take k (concat (map frame rs))) 0 st n =
      Inr (st', n + j, length (concat (map frame (take j rs))), 0 < m)"
  proof (cases "0 < m")
    case False
    then show ?thesis using replay_loop_whole [OF okj st', of n] j(1) by (simp add: pre)
  next
    case True
    then have jl: "j < length rs" using k j(1,2) by (cases "j = length rs") (auto simp: m_def)
    have dr: "drop j rs = rs ! j # drop (Suc j) rs" using jl by (simp add: Cons_nth_drop_Suc)
    have "length (concat (map frame (take (Suc j) rs))) > k"
      using j(3) jl by (metis Suc_leI Suc_n_not_le_n linorder_not_le)
    then have m: "m < length (frame (rs ! j))"
      using jl j(2) by (auto simp: m_def take_Suc_conv_app_nth)
    have "take m (concat (map frame (drop j rs))) = take m (frame (rs ! j))"
      using m by (simp add: dr)
    then show ?thesis
      using replay_loop_cut [OF okj st' _ True m, of n] ok nth_mem [OF jl] j(1) True by (simp add: pre)
  qed
  moreover have "0 < m \<longleftrightarrow> length (concat (map frame (take j rs))) < k"
    using j(2) by (auto simp: m_def)
  ultimately show ?thesis using that [OF j(1) st'] j(2,3) by simp
qed

section \<open>The loop over the segments\<close>

lemma no_faults_simps [simp]:
  "rio_readdir no_faults = None" "rio_read no_faults i = None"
  "rio_trunc no_faults = None" "rio_sync no_faults = None"
  by (simp_all add: no_faults_def)

text \<open>Segments that hold whole frames are folded one after the other.\<close>

lemma replay_segments_whole:
  assumes "\<forall>(idx, rs) \<in> set ps. (\<forall>r \<in> set rs. rec_ok r) \<and>
      (\<exists>f. gget (fs_files fs) (segmentName idx) = Some f \<and> f_data f = concat (map frame rs))"
    and "fold_err ap (concat (map snd ps)) st = Inr st'"
  shows "\<exists>li ls. replay_segments no_faults ap (map fst ps @ ys) fs st info l0 s0 =
    replay_segments no_faults ap ys fs st'
      (info\<lparr>ri_Records := ri_Records info + length (concat (map snd ps))\<rparr>) li ls"
  using assms
proof (induction ps arbitrary: st info l0 s0)
  case (Cons p ps)
  obtain idx rs where p: "p = (idx, rs)" by (cases p)
  obtain f where f: "gget (fs_files fs) (segmentName idx) = Some f" "f_data f = concat (map frame rs)"
    and ok: "\<forall>r \<in> set rs. rec_ok r" using Cons.prems(1) p by auto
  obtain t where t: "fold_err ap rs st = Inr t" "fold_err ap (concat (map snd ps)) t = Inr st'"
    using Cons.prems(2) p by (auto simp: fold_err_append split: sum.splits)
  have step: "replay_segments no_faults ap (map fst (p # ps) @ ys) fs st info l0 s0 =
     replay_segments no_faults ap (map fst ps @ ys) fs t
       (info\<lparr>ri_Records := ri_Records info + length rs\<rparr>) idx (length (f_data f))"
    using replay_loop_whole [OF ok t(1), of "ri_Records info"] f p by simp
  have "\<forall>(idx, rs) \<in> set ps. (\<forall>r \<in> set rs. rec_ok r) \<and>
      (\<exists>f. gget (fs_files fs) (segmentName idx) = Some f \<and> f_data f = concat (map frame rs))"
    using Cons.prems(1) by simp
  from Cons.IH [OF this t(2), of "info\<lparr>ri_Records := ri_Records info + length rs\<rparr>" idx "length (f_data f)"]
  show ?case using step p by (simp add: add.assoc)
qed auto

section \<open>A log directory\<close>

text \<open>
  \<open>disk fs segs k\<close>: the directory holds the segments 0, 1, ..., the records of all but the last
  one are complete, and the last one holds the first \<open>k\<close> bytes of the frames of its records.
\<close>

definition seg_idx :: "nat \<Rightarrow> u64" where
  "seg_idx i = of_nat i"

definition disk :: "fsys \<Rightarrow> walRecord list list \<Rightarrow> nat \<Rightarrow> bool" where
  "disk fs segs k \<longleftrightarrow>
     gwf (fs_files fs) \<and> segs \<noteq> [] \<and> length segs \<le> 2 ^ 64 \<and>
     gkeys (fs_files fs) = (\<lambda>i. segmentName (seg_idx i)) ` {..<length segs} \<and>
     (\<forall>rs \<in> set segs. \<forall>r \<in> set rs. rec_ok r) \<and>
     k \<le> length (concat (map frame (last segs))) \<and>
     (\<forall>i < length segs. \<exists>f. gget (fs_files fs) (segmentName (seg_idx i)) = Some f \<and>
        f_data f = (if Suc i < length segs then concat (map frame (segs ! i))
                    else take k (concat (map frame (segs ! i)))))"

lemma unat_seg_idx: "i < 2 ^ 64 \<Longrightarrow> unat (seg_idx i) = i"
  by (simp add: seg_idx_def unat_of_nat take_bit_nat_eq_self)

lemma seg_idx_inj: "i < 2 ^ 64 \<Longrightarrow> j < 2 ^ 64 \<Longrightarrow> seg_idx i = seg_idx j \<Longrightarrow> i = j"
  by (metis unat_seg_idx)

lemma seg_idx_less: "i < j \<Longrightarrow> j < 2 ^ 64 \<Longrightarrow> seg_idx i < seg_idx j"
  unfolding seg_idx_def by (simp add: word_less_nat_alt unat_of_nat take_bit_nat_eq_self)

lemma set_map_filter_image:
  "set xs = f ` A \<Longrightarrow> (\<And>a. a \<in> A \<Longrightarrow> g (f a) = Some (h a)) \<Longrightarrow> set (List.map_filter g xs) = h ` A"
  by (force simp: List.map_filter_def image_iff)

lemma listSegments_disk:
  assumes "disk fs segs k"
  shows "listSegments None fs = Inr (map seg_idx [0..<length segs])"
proof -
  let ?xs = "map fst (fs_files fs)"
  let ?A = "{..<length segs}"
  have keys: "set ?xs = (\<lambda>i. segmentName (seg_idx i)) ` ?A" and d: "distinct ?xs"
    and len: "length segs \<le> 2 ^ 64"
    using assms by (auto simp: disk_def gkeys_def gwf_def)
  have setm: "set (List.map_filter segmentIndex ?xs) = seg_idx ` ?A"
    by (rule set_map_filter_image [OF keys]) simp
  have inj: "inj_on (\<lambda>n. the (segmentIndex n)) (set ?xs)"
    unfolding keys by (auto simp: inj_on_def)
  have "List.map_filter segmentIndex ?xs = map (\<lambda>n. the (segmentIndex n)) ?xs"
    unfolding List.map_filter_def using keys by (subst filter_True) auto
  then have dm: "distinct (List.map_filter segmentIndex ?xs)"
    using d inj by (simp add: distinct_map inj_on_def)
  have "sorted_wrt (<) (map seg_idx [0..<length segs])"
    using len by (auto simp: sorted_wrt_iff_nth_less intro!: seg_idx_less)
  then have ss: "sorted (map seg_idx [0..<length segs])" "distinct (map seg_idx [0..<length segs])"
    by (metis strict_sorted_iff)+
  have "sort (List.map_filter segmentIndex ?xs) = map seg_idx [0..<length segs]"
    by (rule sorted_distinct_set_unique) (use dm setm ss in \<open>simp_all add: atLeast0LessThan\<close>)
  then show ?thesis by (simp add: listSegments_def)
qed

text \<open>
  Replay of such a directory: the fold over every record of the earlier segments and over the
  records of the last segment whose frames are complete; what is left over is cut off.
\<close>

lemma replay_disk:
  assumes d: "disk fs segs k"
    and ap: "\<And>j. \<exists>st'. fold_err ap (take j (concat segs)) st = Inr st'"
  obtains j st' fs' info where
    "j \<le> length (last segs)"
    "fold_err ap (concat (butlast segs) @ take j (last segs)) st = Inr st'"
    "replay no_faults ap fs st = (fs', Inr (st', info, seg_idx (length segs - 1),
        length (concat (map frame (take j (last segs))))))"
    "ri_Records info = length (concat (butlast segs)) + j"
    "ri_Segments info = length segs"
    "\<And>i. i \<le> length (last segs) \<Longrightarrow> length (concat (map frame (take i (last segs)))) \<le> k \<Longrightarrow> i \<le> j"
    "disk fs' (butlast segs @ [take j (last segs)]) (length (concat (map frame (take j (last segs)))))"
proof -
  let ?n = "length segs"
  let ?L = "last segs"
  let ?last = "segmentName (seg_idx (?n - 1))"
  have ne: "segs \<noteq> []" and k: "k \<le> length (concat (map frame ?L))" and len: "?n \<le> 2 ^ 64"
    and oks: "\<forall>rs \<in> set segs. \<forall>r \<in> set rs. rec_ok r"
    and files: "\<And>i. i < ?n \<Longrightarrow> \<exists>f. gget (fs_files fs) (segmentName (seg_idx i)) = Some f \<and>
        f_data f = (if Suc i < ?n then concat (map frame (segs ! i)) else take k (concat (map frame (segs ! i))))"
    using d by (auto simp: disk_def)
  have okL: "\<forall>r \<in> set ?L. rec_ok r" using oks last_in_set [OF ne] by blast
  have cat: "concat segs = concat (butlast segs) @ ?L"
    using ne by (metis append_butlast_last_id concat.simps concat_append append_Nil2)
  have apj: "\<exists>st'. fold_err ap (concat (butlast segs) @ take j ?L) st = Inr st'" for j
    using ap [of "length (concat (butlast segs)) + j"] by (simp add: cat)
  obtain st1 where st1: "fold_err ap (concat (butlast segs)) st = Inr st1"
    using apj [of 0] by auto
  have apL: "\<exists>st'. fold_err ap (take j ?L) st1 = Inr st'" for j
    using apj [of j] st1 by (simp add: fold_err_append)
  define n1 where "n1 = length (concat (butlast segs))"
  obtain j st' where j: "j \<le> length ?L" "fold_err ap (take j ?L) st1 = Inr st'"
    "replay_loop ap (take k (concat (map frame ?L))) 0 st1 n1 =
       Inr (st', n1 + j, length (concat (map frame (take j ?L))),
            length (concat (map frame (take j ?L))) < k)"
    "length (concat (map frame (take j ?L))) \<le> k"
    "\<And>i. i \<le> length ?L \<Longrightarrow> length (concat (map frame (take i ?L))) \<le> k \<Longrightarrow> i \<le> j"
    by (rule replay_loop_prefix [OF okL k apL, where n = n1]) blast
  define off where "off = length (concat (map frame (take j ?L)))"
  define ps where "ps = zip (map seg_idx [0..<?n - 1]) (butlast segs)"
  have ps: "map fst ps = map seg_idx [0..<?n - 1]" "map snd ps = butlast segs"
    by (simp_all add: ps_def)
  have psok: "\<forall>(idx, rs) \<in> set ps. (\<forall>r \<in> set rs. rec_ok r) \<and>
      (\<exists>f. gget (fs_files fs) (segmentName idx) = Some f \<and> f_data f = concat (map frame rs))"
  proof (clarify)
    fix idx rs assume "(idx, rs) \<in> set ps"
    then obtain i where i: "i < ?n - 1" "idx = seg_idx i" "rs = segs ! i"
      by (auto simp: ps_def set_zip nth_butlast)
    then show "(\<forall>r \<in> set rs. rec_ok r) \<and>
      (\<exists>f. gget (fs_files fs) (segmentName idx) = Some f \<and> f_data f = concat (map frame rs))"
    proof -
      have "i < ?n" "Suc i < ?n" using i(1) by simp_all
      then show ?thesis using files [of i] oks nth_mem [of i segs] i by auto
    qed
  qed
  have idxs: "map seg_idx [0..<?n] = map fst ps @ [seg_idx (?n - 1)]"
    using ne ps(1) by (metis (no_types, lifting) Suc_pred' length_greater_0_conv list.simps(8,9)
        map_append upt_Suc_append zero_le)
  let ?i0 = "\<lparr>ri_Segments = ?n, ri_Records = 0, ri_Truncated = False, ri_TruncatedAt = 0\<rparr>"
  have pre: "fold_err ap (concat (map snd ps)) st = Inr st1" using st1 ps(2) by simp
  from replay_segments_whole [OF psok pre, of "[seg_idx (?n - 1)]" ?i0 0 0]
  obtain li ls where "replay_segments no_faults ap (map fst ps @ [seg_idx (?n - 1)]) fs st ?i0 0 0 =
      replay_segments no_faults ap [seg_idx (?n - 1)] fs st1
        (?i0\<lparr>ri_Records := ri_Records ?i0 + length (concat (map snd ps))\<rparr>) li ls"
    by blast
  then have seg: "replay no_faults ap fs st =
      replay_segments no_faults ap [seg_idx (?n - 1)] fs st1 (?i0\<lparr>ri_Records := n1\<rparr>) li ls"
    unfolding idxs [symmetric]
    by (simp add: replay_def listSegments_disk [OF d] ps(2) n1_def
        del: replay_segments.simps)
  obtain f where f: "gget (fs_files fs) ?last = Some f" "f_data f = take k (concat (map frame ?L))"
    using files [of "?n - 1"] ne by (auto simp: last_conv_nth)
  define fs' where "fs' = (if off < k
     then fs\<lparr>fs_files := gput ?last \<lparr>f_data = take off (f_data f), f_synced = off\<rparr> (fs_files fs)\<rparr> else fs)"
  have tk: "take off (f_data f) = concat (map frame (take j ?L))"
  proof -
    have "concat (map frame ?L) = concat (map frame (take j ?L)) @ concat (map frame (drop j ?L))"
      by (metis append_take_drop_id concat_append map_append)
    then show ?thesis using j(4) f(2) by (simp add: off_def min_absorb1)
  qed
  have lk: "length (f_data f) = k" using f(2) k by simp
  have "\<exists>info. replay no_faults ap fs st = (fs', Inr (st', info, seg_idx (?n - 1), off)) \<and>
      ri_Records info = n1 + j \<and> ri_Segments info = ?n"
    using j(3) j(4) f lk tk unfolding seg fs'_def
    by (auto simp: truncateSegment_def off_def Let_def split: if_splits)
  moreover have "fold_err ap (concat (butlast segs) @ take j ?L) st = Inr st'"
    using st1 j(2) by (simp add: fold_err_append)
  moreover have "disk fs' (butlast segs @ [take j ?L]) off"
  proof -
    have other: "segmentName (seg_idx i) \<noteq> ?last" if "i < ?n - 1" for i
      using that len seg_idx_inj [of i "?n - 1"] segmentName_inj by fastforce
    have filesA: "\<exists>g. gget (fs_files fs') (segmentName (seg_idx i)) = Some g \<and>
        f_data g = (if Suc i < ?n then concat (map frame ((butlast segs @ [take j ?L]) ! i))
                    else take off (concat (map frame ((butlast segs @ [take j ?L]) ! i))))"
      if i: "i < ?n" for i
    proof (cases "Suc i < ?n")
      case True
      then show ?thesis using files [OF i] other [of i]
        by (auto simp: fs'_def nth_append nth_butlast)
    next
      case False
      then have "i = ?n - 1" using i by simp
      moreover have "f_data f = concat (map frame (take j ?L))" if "\<not> off < k"
        using tk lk j(4) that by (simp add: off_def)
      ultimately show ?thesis using f tk ne by (auto simp: fs'_def nth_append off_def)
    qed
    have keysA: "gkeys (fs_files fs') = gkeys (fs_files fs)"
      using f(1) by (auto simp: fs'_def gkeys_iff)
    have wfA: "gwf (fs_files fs')" using d by (auto simp: fs'_def disk_def)
    have okA: "\<forall>rs \<in> set (butlast segs @ [take j ?L]). \<forall>r \<in> set rs. rec_ok r"
      using oks okL by (auto dest: in_set_butlastD in_set_takeD)
    have L: "length (butlast segs @ [take j ?L]) = ?n" using ne by simp
    have keys: "gkeys (fs_files fs) = (\<lambda>i. segmentName (seg_idx i)) ` {..<?n}"
      using d by (simp add: disk_def)
    show ?thesis
      unfolding disk_def L keysA last_snoc using filesA okA wfA keys len by (auto simp: off_def)
  qed
  ultimately show ?thesis using that j(1,5) unfolding off_def n1_def by blast
qed

lemma replay_loop_junk:
  assumes "\<forall>r \<in> set rs. rec_ok r" "fold_err ap rs st = Inr st'"
    and "junk \<noteq> []" "decodeRecord junk = None"
  shows "replay_loop ap (concat (map frame rs) @ junk) 0 st n =
    Inr (st', n + length rs, length (concat (map frame rs)), True)"
proof -
  have "replay_loop ap (concat (map frame rs) @ junk) (length (concat (map frame rs))) st' (n + length rs) =
      Inr (st', n + length rs, length (concat (map frame rs)), True)"
    using assms(3,4) by (subst replay_loop.simps) simp
  then show ?thesis using replay_loop_frames [OF assms(1,2), of "[]" junk n] by simp
qed

section \<open>Properties\<close>

text \<open>C35: the name of a segment determines its index and listing finds the index again: distinct
  indexes have distinct file names and \<open>listSegments\<close>'s parse of a name written by
  \<open>segmentName\<close> returns the index.\<close>

theorem segmentName_roundtrip:
  "segmentIndex (segmentName i) = Some i \<and> (segmentName i = segmentName j \<longleftrightarrow> i = j)"
  using segmentName_inj by auto

text \<open>C30: a frame that does not decode in a segment that is not the last one stops the replay with
  an error that names the segment and the offset, after folding exactly the records before it,
  and leaves every file as it was: nothing is truncated and no later record is applied.\<close>

theorem replay_refuses_corruption:
  assumes list: "listSegments None fs = Inr (map fst ps @ bad # rest)" and rest: "rest \<noteq> []"
    and ps: "\<forall>(idx, rs) \<in> set ps. (\<forall>r \<in> set rs. rec_ok r) \<and>
      (\<exists>f. gget (fs_files fs) (segmentName idx) = Some f \<and> f_data f = concat (map frame rs))"
    and ap: "fold_err ap (concat (map snd ps) @ good) st = Inr st'"
    and f: "gget (fs_files fs) (segmentName bad) = Some f" "f_data f = concat (map frame good) @ junk"
    and good: "\<forall>r \<in> set good. rec_ok r"
    and junk: "junk \<noteq> []" "decodeRecord junk = None"
  shows "replay no_faults ap fs st =
    (fs, Inl (ReplayCorrupt bad (length (concat (map frame good)))))"
proof -
  obtain t where t: "fold_err ap (concat (map snd ps)) st = Inr t" "fold_err ap good t = Inr st'"
    using ap by (auto simp: fold_err_append split: sum.splits)
  let ?i0 = "\<lparr>ri_Segments = length (map fst ps @ bad # rest), ri_Records = 0, ri_Truncated = False,
     ri_TruncatedAt = 0\<rparr>"
  obtain info li ls where "replay_segments no_faults ap (map fst ps @ bad # rest) fs st ?i0 0 0 =
      replay_segments no_faults ap (bad # rest) fs t info li ls"
    using replay_segments_whole [OF ps t(1), of "bad # rest" ?i0 0 0] by blast
  then show ?thesis
    using replay_loop_junk [OF good t(2) junk] f rest
    by (simp add: replay_def list)
qed

definition demo_fs :: fsys where
  "demo_fs = \<lparr>fs_files = [(segmentName 0, \<lparr>f_data = [1, 2, 3], f_synced = 3\<rparr>),
       (segmentName 1, \<lparr>f_data = [], f_synced = 0\<rparr>)], fs_subdirs = [], fs_linked = []\<rparr>"

theorem replay_refuses_corruption_witness:
  "replay no_faults (\<lambda>r n. Inr (n + 1) :: unit + nat) demo_fs 0 = (demo_fs, Inl (ReplayCorrupt 0 0))"
proof -
  have l: "listSegments None demo_fs = Inr (map fst [] @ 0 # [1])"
    by (simp add: listSegments_def demo_fs_def List.map_filter_def)
  have f: "gget (fs_files demo_fs) (segmentName 0) = Some \<lparr>f_data = [1, 2, 3], f_synced = 3\<rparr>"
    by (simp add: demo_fs_def gget_def)
  have d: "decodeRecord [1, 2, 3] = None" by (simp add: decodeRecord_def headerSize_def)
  have a: "fold_err (\<lambda>r n. Inr (n + 1) :: unit + nat) (concat (map snd []) @ []) 0 = Inr 0" by simp
  show ?thesis
    using replay_refuses_corruption [OF l _ _ a f, of "[1, 2, 3]"] d by simp
qed

end
