(* ===== verification/WalLog.thy ===== *)
theory WalLog
  imports WalSegment "HOL-Library.Sublist"
begin

text \<open>
  \<open>internal/wal/wal.go\<close>: the append path. Callers put requests into a channel; one writer takes
  a batch, rotates the segment when it is full, writes the frames in one call, syncs once and
  only then answers the callers. The state is the log, the directory and the answers given so
  far; the step relation interleaves callers, the writer and \<open>Close\<close> in any order.

  The system calls of a commit can fail at each point, and a failed write may have written any
  prefix of the buffer, so the directory after a failed commit is also what a crash in the
  middle of that commit leaves behind. \<open>crash\<close> is what may survive a power failure: of every
  file at least its synced prefix, and every name that a directory sync covered.
\<close>

section \<open>Options and state\<close>

definition SyncAlways :: string where "SyncAlways = ''always''"
definition SyncGroup :: string where "SyncGroup = ''group''"
definition DefaultSegmentSize :: int where "DefaultSegmentSize = 64 * 2 ^ 20"
definition DefaultBatchMax :: int where "DefaultBatchMax = 256"

record walOptions =
  wo_Dir :: string
  wo_Sync :: string
  wo_SegmentSize :: int
  wo_BatchMax :: int

definition withDefaults :: "walOptions \<Rightarrow> walOptions" where
  "withDefaults o0 =
     (let o1 = (if wo_Sync o0 = [] then o0\<lparr>wo_Sync := SyncGroup\<rparr> else o0);
          o2 = (if wo_SegmentSize o1 \<le> 0 then o1\<lparr>wo_SegmentSize := DefaultSegmentSize\<rparr> else o1)
      in (if wo_BatchMax o2 \<le> 0 then o2\<lparr>wo_BatchMax := DefaultBatchMax\<rparr> else o2))"

text \<open>A request carries the identity of its reply channel.\<close>

record appendReq =
  rq_id :: nat
  rq_typ :: recordType
  rq_payload :: "byte list"

record walStats =
  ws_Appends :: u64
  ws_Batches :: u64
  ws_Bytes :: u64

record walLog =
  l_opts :: walOptions
  l_reqs :: "appendReq list"
  l_closed :: bool
  l_f :: string
  l_index :: u64
  l_size :: nat
  l_fatal :: "wal_error option"
  l_stats :: walStats

section \<open>The writer\<close>

record commit_io =
  io_close :: "nat option"
  io_open :: "nat option"
  io_syncDir :: "nat option"
  io_write :: "(nat \<times> nat) option"
  io_sync :: "nat option"

definition rotate :: "commit_io \<Rightarrow> walLog \<Rightarrow> fsys \<Rightarrow> walLog \<times> fsys \<times> nat option" where
  "rotate io l fs =
     (case io_close io of Some e \<Rightarrow> (l, fs, Some e)
      | None \<Rightarrow>
        (case createSegment (io_open io) (io_syncDir io) (l_index l + 1) fs of
           (fs', Inl e) \<Rightarrow> (l, fs', Some e)
         | (fs', Inr f) \<Rightarrow> (l\<lparr>l_f := f, l_index := l_index l + 1, l_size := 0\<rparr>, fs', None)))"

definition fs_write :: "string \<Rightarrow> byte list \<Rightarrow> fsys \<Rightarrow> fsys" where
  "fs_write path bs fs =
     (case gget (fs_files fs) path of None \<Rightarrow> fs
      | Some f \<Rightarrow> fs\<lparr>fs_files := gput path (f\<lparr>f_data := f_data f @ bs\<rparr>) (fs_files fs)\<rparr>)"

definition fs_sync :: "string \<Rightarrow> fsys \<Rightarrow> fsys" where
  "fs_sync path fs =
     (case gget (fs_files fs) path of None \<Rightarrow> fs
      | Some f \<Rightarrow> fs\<lparr>fs_files := gput path (f\<lparr>f_synced := length (f_data f)\<rparr>) (fs_files fs)\<rparr>)"

definition reply :: "appendReq list \<Rightarrow> wal_error option \<Rightarrow> (nat \<times> wal_error option) list" where
  "reply batch err = map (\<lambda>req. (rq_id req, err)) batch"

definition batch_buf :: "appendReq list \<Rightarrow> byte list" where
  "batch_buf batch = fold (\<lambda>req buf. appendRecord buf (rq_typ req) (rq_payload req)) batch []"

definition commit :: "commit_io \<Rightarrow> appendReq list \<Rightarrow> walLog \<Rightarrow> fsys \<Rightarrow>
    walLog \<times> fsys \<times> (nat \<times> wal_error option) list" where
  "commit io batch l fs =
     (case l_fatal l of Some e \<Rightarrow> (l, fs, reply batch (Some e))
      | None \<Rightarrow>
        let total = sum_list (map (\<lambda>req. encodedSize (rq_payload req)) batch);
            (l1, fs1, rerr) =
              (if l_size l > 0 \<and> int (l_size l + total) > wo_SegmentSize (l_opts l)
               then rotate io l fs else (l, fs, None))
        in case rerr of
             Some e \<Rightarrow> (l1\<lparr>l_fatal := Some (WalIO e)\<rparr>, fs1, reply batch (Some (WalIO e)))
           | None \<Rightarrow>
             let buf = batch_buf batch in
             (case io_write io of
                Some (e, n) \<Rightarrow>
                  (l1\<lparr>l_fatal := Some (WalIO e)\<rparr>, fs_write (l_f l1) (take n buf) fs1,
                   reply batch (Some (WalIO e)))
              | None \<Rightarrow>
                  let fs2 = fs_write (l_f l1) buf fs1 in
                  (case io_sync io of
                     Some e \<Rightarrow> (l1\<lparr>l_fatal := Some (WalIO e)\<rparr>, fs2, reply batch (Some (WalIO e)))
                   | None \<Rightarrow>
                      (l1\<lparr>l_size := l_size l1 + total,
                          l_stats := \<lparr>ws_Appends = ws_Appends (l_stats l1) + of_nat (length batch),
                            ws_Batches = ws_Batches (l_stats l1) + 1,
                            ws_Bytes = ws_Bytes (l_stats l1) + of_nat total\<rparr>\<rparr>,
                       fs_sync (l_f l1) fs2, reply batch None))))"

text \<open>
  The batch the writer takes: the first request and, in group mode, whatever is queued behind
  it, up to \<open>BatchMax\<close> requests in all. \<open>batch_len\<close> counts the batch filled so far.
\<close>

fun drain :: "nat \<Rightarrow> nat \<Rightarrow> appendReq list \<Rightarrow> appendReq list \<times> appendReq list" where
  "drain bmax blen [] = ([], [])"
| "drain bmax blen (r # rs) =
     (if blen < bmax then let (b, q) = drain bmax (Suc blen) rs in (r # b, q) else ([], r # rs))"

definition next_batch :: "walOptions \<Rightarrow> appendReq list \<Rightarrow> (appendReq list \<times> appendReq list) option" where
  "next_batch opts reqs =
     (case reqs of [] \<Rightarrow> None
      | first # rest \<Rightarrow>
          Some (if wo_Sync opts = SyncGroup
                then let (b, q) = drain (nat (wo_BatchMax opts)) 1 rest in (first # b, q)
                else ([first], rest)))"

text \<open>One round of the writer's loop; \<^const>\<open>None\<close> while the channel is empty.\<close>

definition run_once :: "commit_io \<Rightarrow> walLog \<Rightarrow> fsys \<Rightarrow>
    (walLog \<times> fsys \<times> (nat \<times> wal_error option) list) option" where
  "run_once io l fs =
     (case next_batch (l_opts l) (l_reqs l) of None \<Rightarrow> None
      | Some (batch, rest) \<Rightarrow> Some (commit io batch (l\<lparr>l_reqs := rest\<rparr>) fs))"

section \<open>The callers\<close>

text \<open>
  \<open>Append\<close> up to the send: an error returned at once, or the log with the request queued. The
  channel holds \<open>BatchMax\<close> requests; a full channel blocks the sender, which the step relation
  expresses by a guard.
\<close>

definition Append_send :: "nat \<Rightarrow> recordType \<Rightarrow> byte list \<Rightarrow> walLog \<Rightarrow> wal_error + walLog" where
  "Append_send rid typ payload l =
     (if \<not> valid_type typ then Inl WalInvalidType
      else if length payload > maxRecordSize then Inl ErrRecordTooLarge
      else if l_closed l then Inl WalErrClosed
      else Inr (l\<lparr>l_reqs := l_reqs l @ [\<lparr>rq_id = rid, rq_typ = typ, rq_payload = payload\<rparr>]\<rparr>))"

text \<open>
  \<open>Close\<close> marks the log, or returns at once when it is marked already (\<^const>\<open>None\<close>); the writer
  drains the channel; the result is the sticky error, if any, else that of closing the file.
\<close>

definition Close_begin :: "walLog \<Rightarrow> walLog option" where
  "Close_begin l = (if l_closed l then None else Some (l\<lparr>l_closed := True\<rparr>))"

definition Close_result :: "nat option \<Rightarrow> walLog \<Rightarrow> wal_error option" where
  "Close_result closeErr l =
     (case l_fatal l of Some e \<Rightarrow> Some e | None \<Rightarrow> map_option WalIO closeErr)"

definition wal_Stats :: "walLog \<Rightarrow> walStats" where
  "wal_Stats l = \<lparr>ws_Appends = ws_Appends (l_stats l), ws_Batches = ws_Batches (l_stats l),
     ws_Bytes = ws_Bytes (l_stats l)\<rparr>"

section \<open>Opening\<close>

datatype 'e open_error = OpenNoDir | OpenIO nat | OpenReplay "'e replay_error"

record open_io =
  oio_mkdir :: "nat option"
  oio_replay :: replay_io
  oio_create :: "nat option"
  oio_syncDir :: "nat option"
  oio_open :: "nat option"

definition Open :: "open_io \<Rightarrow> walOptions \<Rightarrow> (walRecord \<Rightarrow> 's \<Rightarrow> 'e + 's) \<Rightarrow> fsys \<Rightarrow> 's \<Rightarrow>
    fsys \<times> ('e open_error + (walLog \<times> recoveryInfo \<times> 's))" where
  "Open io opts0 ap fs st =
     (let opts = withDefaults opts0 in
      if wo_Dir opts = [] then (fs, Inl OpenNoDir)
      else case oio_mkdir io of Some e \<Rightarrow> (fs, Inl (OpenIO e))
      | None \<Rightarrow>
        (case replay (oio_replay io) ap fs st of
           (fs1, Inl e) \<Rightarrow> (fs1, Inl (OpenReplay e))
         | (fs1, Inr (st', info, lastIndex, lastSize)) \<Rightarrow>
             let l = \<lparr>l_opts = opts, l_reqs = [], l_closed = False, l_f = segmentName lastIndex,
                      l_index = lastIndex, l_size = lastSize, l_fatal = None,
                      l_stats = \<lparr>ws_Appends = 0, ws_Batches = 0, ws_Bytes = 0\<rparr>\<rparr> in
             if ri_Segments info = 0 then
               (case createSegment (oio_create io) (oio_syncDir io) 0 fs1 of
                  (fs2, Inl e) \<Rightarrow> (fs2, Inl (OpenIO e))
                | (fs2, Inr f) \<Rightarrow> (fs2, Inr (l\<lparr>l_f := f\<rparr>, info, st')))
             else (case oio_open io of Some e \<Rightarrow> (fs1, Inl (OpenIO e))
                   | None \<Rightarrow> (fs1, Inr (l, info, st')))))"

section \<open>The log as a state machine\<close>

record walSys =
  sy_log :: walLog
  sy_fs :: fsys
  sy_sent :: "appendReq list"
  sy_done :: "(nat \<times> wal_error option) list"

text \<open>
  \<open>sy_sent\<close> and \<open>sy_done\<close> record every request sent and every answer given; reply channels are
  fresh, so a request's identity is not reused.
\<close>

inductive wal_step :: "walSys \<Rightarrow> walSys \<Rightarrow> bool" where
  send: "\<lbrakk>Append_send rid typ payload (sy_log s) = Inr l';
      rid \<notin> rq_id ` set (sy_sent s);
      int (length (l_reqs (sy_log s))) < wo_BatchMax (l_opts (sy_log s))\<rbrakk> \<Longrightarrow>
    wal_step s (s\<lparr>sy_log := l',
      sy_sent := sy_sent s @ [\<lparr>rq_id = rid, rq_typ = typ, rq_payload = payload\<rparr>]\<rparr>)"
| writer: "run_once io (sy_log s) (sy_fs s) = Some (l', fs', rep) \<Longrightarrow>
    wal_step s (s\<lparr>sy_log := l', sy_fs := fs', sy_done := sy_done s @ rep\<rparr>)"
| closing: "Close_begin (sy_log s) = Some l' \<Longrightarrow> wal_step s (s\<lparr>sy_log := l'\<rparr>)"

inductive wal_reach :: "walSys \<Rightarrow> walSys \<Rightarrow> bool" for s0 where
  reach_start: "wal_reach s0 s0"
| reach_step: "wal_reach s0 s \<Longrightarrow> wal_step s s' \<Longrightarrow> wal_reach s0 s'"

text \<open>
  What a power failure may leave: of every file that survives a prefix that is no shorter than
  what was synced, and at least the names that a directory sync covered. What is found after the
  failure is on the medium, hence durable.
\<close>

definition durable :: "fsys \<Rightarrow> bool" where
  "durable fs \<longleftrightarrow> gkeys (fs_files fs) \<subseteq> set (fs_linked fs) \<and>
     (\<forall>p f. gget (fs_files fs) p = Some f \<longrightarrow> f_synced f = length (f_data f))"

definition crash :: "fsys \<Rightarrow> fsys \<Rightarrow> bool" where
  "crash fs fs' \<longleftrightarrow> gwf (fs_files fs') \<and> durable fs' \<and>
     (\<forall>p f'. gget (fs_files fs') p = Some f' \<longrightarrow>
        (\<exists>f k. gget (fs_files fs) p = Some f \<and> f_synced f \<le> k \<and> k \<le> length (f_data f) \<and>
           f_data f' = take k (f_data f))) \<and>
     (\<forall>p \<in> set (fs_linked fs). gget (fs_files fs) p \<noteq> None \<longrightarrow> gget (fs_files fs') p \<noteq> None)"

section \<open>What is on disk\<close>

text \<open>
  \<open>wal_disk fs segs tail extra k\<close>: the synced records of every segment are \<open>segs\<close>; behind those of
  the last segment there are \<open>k\<close> bytes of the frames of a batch \<open>tail\<close> whose commit failed; \<open>extra\<close>
  says that a rotation failed after it created the next, empty segment.
\<close>

abbreviation frames :: "walRecord list \<Rightarrow> byte list" where
  "frames rs \<equiv> concat (map frame rs)"

definition req_rec :: "appendReq \<Rightarrow> walRecord" where
  "req_rec q = \<lparr>r_Type = rq_typ q, r_Payload = rq_payload q\<rparr>"

definition wal_disk :: "fsys \<Rightarrow> walRecord list list \<Rightarrow> walRecord list \<Rightarrow> bool \<Rightarrow> nat \<Rightarrow> bool" where
  "wal_disk fs segs tail extra k \<longleftrightarrow>
     gwf (fs_files fs) \<and> segs \<noteq> [] \<and> length segs + of_bool extra \<le> 2 ^ 64 \<and>
     gkeys (fs_files fs) = (\<lambda>i. segmentName (seg_idx i)) ` {..<length segs + of_bool extra} \<and>
     (\<lambda>i. segmentName (seg_idx i)) ` {..<length segs} \<subseteq> set (fs_linked fs) \<and>
     (\<forall>rs \<in> set segs. \<forall>r \<in> set rs. rec_ok r) \<and> (\<forall>r \<in> set tail. rec_ok r) \<and>
     (\<forall>i < length segs. \<exists>f. gget (fs_files fs) (segmentName (seg_idx i)) = Some f \<and>
        f_synced f = length (frames (segs ! i)) \<and>
        f_data f = frames (segs ! i) @ (if Suc i < length segs then [] else take k (frames tail))) \<and>
     (extra \<longrightarrow> tail = [] \<and>
        (\<exists>f. gget (fs_files fs) (segmentName (seg_idx (length segs))) = Some f \<and> f_data f = []))"

definition clean_disk :: "walLog \<Rightarrow> fsys \<Rightarrow> walRecord list list \<Rightarrow> bool" where
  "clean_disk l fs segs \<longleftrightarrow> wal_disk fs segs [] False 0 \<and>
     l_index l = seg_idx (length segs - 1) \<and> l_f l = segmentName (l_index l) \<and>
     l_size l = length (frames (last segs))"

lemma batch_buf_frames: "batch_buf batch = frames (map req_rec batch)"
proof -
  have "fold (\<lambda>req buf. appendRecord buf (rq_typ req) (rq_payload req)) batch b =
      b @ frames (map req_rec batch)" for b
    by (induction batch arbitrary: b) (simp_all add: appendRecord_frame req_rec_def)
  then show ?thesis by (simp add: batch_buf_def)
qed

lemma total_frames:
  "sum_list (map (\<lambda>req. encodedSize (rq_payload req)) batch) = length (frames (map req_rec batch))"
  by (induction batch) (simp_all add: req_rec_def length_frame encodedSize_def)

lemma seg_name_eq:
  "i < 2 ^ 64 \<Longrightarrow> j < 2 ^ 64 \<Longrightarrow> segmentName (seg_idx i) = segmentName (seg_idx j) \<longleftrightarrow> i = j"
  using segmentName_inj seg_idx_inj by blast

lemma wal_diskD:
  assumes "wal_disk fs segs tail extra k"
  shows "gwf (fs_files fs)" "segs \<noteq> []" "length segs + of_bool extra \<le> 2 ^ 64"
    "gkeys (fs_files fs) = (\<lambda>i. segmentName (seg_idx i)) ` {..<length segs + of_bool extra}"
    "(\<lambda>i. segmentName (seg_idx i)) ` {..<length segs} \<subseteq> set (fs_linked fs)"
    "\<forall>rs \<in> set segs. \<forall>r \<in> set rs. rec_ok r" "\<forall>r \<in> set tail. rec_ok r"
    "\<forall>i < length segs. \<exists>f. gget (fs_files fs) (segmentName (seg_idx i)) = Some f \<and>
        f_synced f = length (frames (segs ! i)) \<and>
        f_data f = frames (segs ! i) @ (if Suc i < length segs then [] else take k (frames tail))"
    "extra \<longrightarrow> tail = [] \<and>
        (\<exists>f. gget (fs_files fs) (segmentName (seg_idx (length segs))) = Some f \<and> f_data f = [])"
  using assms unfolding wal_disk_def by - (elim conjE; assumption)+

text \<open>Replacing the last segment's file: the common step of writing and syncing.\<close>

lemma wal_disk_upd:
  assumes d: "wal_disk fs segs tail0 False k0"
    and segs': "length segs' = length segs" "\<And>i. Suc i < length segs \<Longrightarrow> segs' ! i = segs ! i"
    and ok: "\<forall>r \<in> set (last segs'). rec_ok r" "\<forall>r \<in> set tail. rec_ok r"
    and f: "f_synced f = length (frames (last segs'))"
      "f_data f = frames (last segs') @ take k (frames tail)"
  shows "wal_disk (fs\<lparr>fs_files := gput (segmentName (seg_idx (length segs - 1))) f (fs_files fs)\<rparr>)
    segs' tail False k"
proof -
  let ?n = "length segs"
  let ?p = "segmentName (seg_idx (?n - 1))"
  let ?fs = "fs\<lparr>fs_files := gput ?p f (fs_files fs)\<rparr>"
  note D = wal_diskD [OF d]
  have n: "0 < ?n" "?n \<le> 2 ^ 64"
    and keys: "gkeys (fs_files fs) = (\<lambda>i. segmentName (seg_idx i)) ` {..<?n}"
    using D(2-4) by simp_all
  note files = D(8) [rule_format]
  have ne: "segs' \<noteq> []" "last segs' = segs' ! (?n - 1)" using n segs'(1) by (metis length_greater_0_conv, metis last_conv_nth length_greater_0_conv)
  have same: "segmentName (seg_idx i) = ?p \<longleftrightarrow> Suc i = ?n" if "i < ?n" for i
    using seg_name_eq [of i "?n - 1"] that n by auto
  have "?p \<in> gkeys (fs_files fs)" unfolding keys using n by auto
  then have keys': "gkeys (fs_files ?fs) = (\<lambda>i. segmentName (seg_idx i)) ` {..<?n}"
    using keys by (simp add: insert_absorb)
  have oks: "\<forall>rs \<in> set segs'. \<forall>r \<in> set rs. rec_ok r"
  proof
    fix rs assume "rs \<in> set segs'"
    then obtain i where i: "i < ?n" "rs = segs' ! i" using segs'(1) by (metis in_set_conv_nth)
    show "\<forall>r \<in> set rs. rec_ok r"
    proof (cases "Suc i < ?n")
      case True
      then show ?thesis using i segs'(2) [of i] D(6) nth_mem [OF i(1)] by auto
    next
      case False
      then have "i = ?n - 1" using i(1) by simp
      then show ?thesis using ok(1) ne(2) i(2) by simp
    qed
  qed
  have files': "\<exists>g. gget (fs_files ?fs) (segmentName (seg_idx i)) = Some g \<and>
        f_synced g = length (frames (segs' ! i)) \<and>
        f_data g = frames (segs' ! i) @ (if Suc i < ?n then [] else take k (frames tail))"
    if i: "i < ?n" for i
  proof (cases "Suc i < ?n")
    case True
    then show ?thesis using files [OF i] same [OF i] segs'(2) by auto
  next
    case False
    then have "i = ?n - 1" using i by simp
    then show ?thesis using f ne(2) False by simp
  qed
  have wf: "gwf (fs_files ?fs)" and lk: "(\<lambda>i. segmentName (seg_idx i)) ` {..<?n} \<subseteq> set (fs_linked ?fs)"
    using D(1,5) by simp_all
  show ?thesis
    unfolding wal_disk_def segs'(1) of_bool_eq add_0_right
    using wf ne(1) n(2) keys' lk oks ok(2) files' by blast
qed

lemma wal_disk_last:
  assumes "wal_disk fs segs tail extra k"
  shows "\<exists>f. gget (fs_files fs) (segmentName (seg_idx (length segs - 1))) = Some f \<and>
    f_synced f = length (frames (last segs)) \<and> f_data f = frames (last segs) @ take k (frames tail)"
proof -
  have "segs \<noteq> []" using wal_diskD(2) [OF assms] .
  then have "length segs - 1 < length segs" "\<not> Suc (length segs - 1) < length segs"
    "last segs = segs ! (length segs - 1)" by (simp_all add: last_conv_nth)
  then show ?thesis using wal_diskD(8) [OF assms, rule_format, of "length segs - 1"] by simp
qed

text \<open>Writing bytes behind the last segment, and syncing them.\<close>

lemma wal_disk_write:
  assumes d: "wal_disk fs segs [] False 0" and ok: "\<forall>r \<in> set tail. rec_ok r"
  shows "wal_disk (fs_write (segmentName (seg_idx (length segs - 1))) (take k (frames tail)) fs)
    segs tail False k"
proof -
  obtain f where f: "gget (fs_files fs) (segmentName (seg_idx (length segs - 1))) = Some f"
    "f_synced f = length (frames (last segs))" "f_data f = frames (last segs)"
    using wal_disk_last [OF d] by auto
  have "\<forall>r \<in> set (last segs). rec_ok r" using d last_in_set by (auto simp: wal_disk_def)
  from wal_disk_upd [OF d refl refl this ok, of "f\<lparr>f_data := f_data f @ take k (frames tail)\<rparr>" k]
  show ?thesis using f by (simp add: fs_write_def)
qed

lemma wal_disk_sync:
  assumes d: "wal_disk fs segs tail False k" and k: "length (frames tail) \<le> k"
  shows "wal_disk (fs_sync (segmentName (seg_idx (length segs - 1))) fs)
    (butlast segs @ [last segs @ tail]) [] False 0"
proof -
  have ne: "segs \<noteq> []" using d by (simp add: wal_disk_def)
  obtain f where f: "gget (fs_files fs) (segmentName (seg_idx (length segs - 1))) = Some f"
    "f_data f = frames (last segs) @ frames tail"
    using wal_disk_last [OF d] k by auto
  let ?segs = "butlast segs @ [last segs @ tail]"
  have ok: "\<forall>r \<in> set (last ?segs). rec_ok r" "\<forall>r \<in> set []. rec_ok r"
    using wal_diskD(6,7) [OF d] last_in_set [OF ne] by auto
  have l: "length ?segs = length segs" using ne by simp
  have i: "\<And>i. Suc i < length segs \<Longrightarrow> ?segs ! i = segs ! i"
    by (simp add: nth_append nth_butlast less_diff_conv)
  have "f_synced (f\<lparr>f_synced := length (f_data f)\<rparr>) = length (frames (last ?segs))"
    "f_data (f\<lparr>f_synced := length (f_data f)\<rparr>) = frames (last ?segs) @ take 0 (frames [])"
    using f(2) by simp_all
  from wal_disk_upd [OF d l i ok this] show ?thesis using f(1) by (simp add: fs_sync_def)
qed

section \<open>One commit\<close>

lemma createSegment_next:
  assumes d: "wal_disk fs segs [] False 0"
    and c: "createSegment oe se (seg_idx (length segs - 1) + 1) fs = (fs', r)"
  shows "case r of Inl e \<Rightarrow> \<exists>extra. wal_disk fs' segs [] extra 0
    | Inr p \<Rightarrow> p = segmentName (seg_idx (length segs)) \<and> wal_disk fs' (segs @ [[]]) [] False 0 \<and>
        seg_idx (length segs - 1) + 1 = seg_idx (length segs)"
proof -
  let ?n = "length segs"
  let ?p = "segmentName (seg_idx ?n)"
  note D = wal_diskD [OF d]
  have n: "0 < ?n" "?n \<le> 2 ^ 64" using D(2,3) by simp_all
  have idx: "seg_idx (?n - 1) + 1 = seg_idx ?n"
    using n by (cases ?n) (simp_all add: seg_idx_def add.commute)
  note c' = c [unfolded idx createSegment_def Let_def]
  note files = D(8) [rule_format]
  show ?thesis
  proof (cases "oe = None \<and> gget (fs_files fs) ?p = None \<and> ?p \<notin> set (fs_subdirs fs)")
    case False
    then have "fs' = fs" "\<exists>e. r = Inl e"
      using c' by (auto split: option.splits if_splits)
    then show ?thesis using d by auto
  next
    case True
    have lt: "?n < 2 ^ 64"
    proof (rule ccontr)
      assume "\<not> ?n < 2 ^ 64"
      then have "?n = 2 ^ 64" using n by simp
      then have "seg_idx ?n = seg_idx 0" by (simp add: seg_idx_def)
      then show False using True files [of 0] n by auto
    qed
    define g where "g = gput ?p \<lparr>f_data = [], f_synced = 0\<rparr> (fs_files fs)"
    have g: "gwf g" "gkeys g = (\<lambda>i. segmentName (seg_idx i)) ` {..<Suc ?n}"
        "gget g ?p = Some \<lparr>f_data = [], f_synced = 0\<rparr>"
      using D(1,4) by (simp_all add: lessThan_Suc g_def)
    have old: "\<exists>f. gget g (segmentName (seg_idx i)) = Some f \<and>
        f_synced f = length (frames (segs ! i)) \<and> f_data f = frames (segs ! i)" if "i < ?n" for i
      using files [OF that] seg_name_eq [of i ?n] that lt by (auto simp: g_def)
    show ?thesis
    proof (cases se)
      case None
      have fs': "fs' = fs\<lparr>fs_files := g, fs_linked := map fst g\<rparr>" "r = Inr ?p"
        using c' True None by (simp_all add: g_def)
      have "\<exists>f. gget g (segmentName (seg_idx i)) = Some f \<and>
          f_synced f = length (frames ((segs @ [[]]) ! i)) \<and> f_data f = frames ((segs @ [[]]) ! i)"
        if "i < Suc ?n" for i
        using that old [of i] g(3) by (cases "i < ?n") (auto simp: nth_append less_Suc_eq)
      moreover have "(\<lambda>i. segmentName (seg_idx i)) ` {..<Suc ?n} \<subseteq> set (map fst g)"
        using g(2) by (simp add: gkeys_def)
      ultimately have "wal_disk fs' (segs @ [[]]) [] False 0"
        using g(1,2) D(6) lt by (simp add: wal_disk_def fs'(1))
      then show ?thesis using fs'(2) idx by simp
    next
      case (Some e)
      have fs': "fs' = fs\<lparr>fs_files := g\<rparr>" "r = Inl e"
        using c' True Some by (simp_all add: g_def)
      have "wal_disk fs' segs [] True 0"
        using g D(2,5,6) lt old by (simp add: wal_disk_def fs'(1))
      then show ?thesis using fs'(2) by auto
    qed
  qed
qed

lemma rotate_clean:
  assumes d: "clean_disk l fs segs" and r: "rotate io l fs = (l', fs', e)"
  shows "if e = None then clean_disk l' fs' (segs @ [[]]) \<and>
      (\<exists>f i. l' = l\<lparr>l_f := f, l_index := i, l_size := 0\<rparr>)
    else l' = l \<and> (\<exists>extra. wal_disk fs' segs [] extra 0)"
proof -
  have w: "wal_disk fs segs [] False 0" and i: "l_index l = seg_idx (length segs - 1)"
    using d by (simp_all add: clean_disk_def)
  show ?thesis
  proof (cases "io_close io")
    case (Some a)
    then show ?thesis using r w by (auto simp: rotate_def)
  next
    case None
    obtain fs1 res where c: "createSegment (io_open io) (io_syncDir io) (l_index l + 1) fs = (fs1, res)"
      by fastforce
    show ?thesis
    proof (cases res)
      case (Inl a)
      then have "l' = l" "fs' = fs1" "e = Some a" using r None c by (simp_all add: rotate_def)
      then show ?thesis using createSegment_next [OF w c [unfolded i]] Inl by simp
    next
      case (Inr p)
      then have "l' = l\<lparr>l_f := p, l_index := l_index l + 1, l_size := 0\<rparr>" "fs' = fs1" "e = None"
        using r None c by (simp_all add: rotate_def)
      then show ?thesis
        using createSegment_next [OF w c [unfolded i]] Inr i by (auto simp: clean_disk_def)
    qed
  qed
qed

text \<open>
  A commit that starts on a clean directory either appends the whole batch durably and answers
  every caller with success, or answers every caller with an error, poisons the log and leaves a
  prefix of the batch's bytes behind the synced records.
\<close>

definition commit_ok :: "appendReq list \<Rightarrow> walRecord list list \<Rightarrow>
    walLog \<times> fsys \<times> (nat \<times> wal_error option) list \<Rightarrow> bool" where
  "commit_ok batch segs = (\<lambda>(l', fs', rep). l_fatal l' = None \<and> rep = reply batch None \<and>
     (\<exists>segs'. clean_disk l' fs' segs' \<and> concat segs' = concat segs @ map req_rec batch))"

definition commit_failed :: "appendReq list \<Rightarrow> walRecord list list \<Rightarrow>
    walLog \<times> fsys \<times> (nat \<times> wal_error option) list \<Rightarrow> bool" where
  "commit_failed batch segs = (\<lambda>(l', fs', rep).
     (\<exists>e. l_fatal l' = Some e \<and> rep = reply batch (Some e)) \<and>
     (\<exists>segs' tail extra k. wal_disk fs' segs' tail extra k \<and> concat segs' = concat segs \<and>
        tail \<in> {[], map req_rec batch}))"

lemma commit_write:
  assumes d: "clean_disk l fs segs" and f: "l_fatal l = None"
    and ok: "\<forall>q \<in> set batch. rec_ok (req_rec q)"
  shows "commit_failed batch segs
      (l\<lparr>l_fatal := Some e\<rparr>, fs_write (l_f l) (take n (batch_buf batch)) fs, reply batch (Some e))"
    and "commit_failed batch segs
      (l\<lparr>l_fatal := Some e\<rparr>, fs_write (l_f l) (batch_buf batch) fs, reply batch (Some e))"
    and "commit_ok batch segs
      (l\<lparr>l_size := l_size l + length (frames (map req_rec batch)), l_stats := st\<rparr>,
       fs_sync (l_f l) (fs_write (l_f l) (batch_buf batch) fs), reply batch None)"
proof -
  let ?t = "map req_rec batch"
  have w: "wal_disk fs segs [] False 0" and lf: "l_f l = segmentName (seg_idx (length segs - 1))"
    and li: "l_index l = seg_idx (length segs - 1)" and sz: "l_size l = length (frames (last segs))"
    using d by (simp_all add: clean_disk_def)
  have okt: "\<forall>r \<in> set ?t. rec_ok r" using ok by auto
  note wr = wal_disk_write [OF w okt, folded lf batch_buf_frames]
  show "commit_failed batch segs
      (l\<lparr>l_fatal := Some e\<rparr>, fs_write (l_f l) (take n (batch_buf batch)) fs, reply batch (Some e))"
    using wr [of n] by (auto simp: commit_failed_def)
  have all: "wal_disk (fs_write (l_f l) (batch_buf batch) fs) segs ?t False (length (batch_buf batch))"
    using wr [of "length (batch_buf batch)"] by simp
  then show "commit_failed batch segs
      (l\<lparr>l_fatal := Some e\<rparr>, fs_write (l_f l) (batch_buf batch) fs, reply batch (Some e))"
    by (auto simp: commit_failed_def)
  have ne: "segs \<noteq> []" using wal_diskD(2) [OF w] .
  have "concat (butlast segs @ [last segs @ ?t]) = concat segs @ ?t"
    using ne by (metis append_assoc append_butlast_last_id concat.simps concat_append append_Nil2)
  moreover have "clean_disk (l\<lparr>l_size := l_size l + length (frames ?t), l_stats := st\<rparr>)
      (fs_sync (l_f l) (fs_write (l_f l) (batch_buf batch) fs)) (butlast segs @ [last segs @ ?t])"
    using wal_disk_sync [OF all, folded lf] ne sz li lf
    by (simp add: clean_disk_def batch_buf_frames)
  ultimately show "commit_ok batch segs
      (l\<lparr>l_size := l_size l + length (frames (map req_rec batch)), l_stats := st\<rparr>,
       fs_sync (l_f l) (fs_write (l_f l) (batch_buf batch) fs), reply batch None)"
    using f unfolding commit_ok_def by auto
qed

lemma commit_cases:
  assumes d: "clean_disk l fs segs" and f: "l_fatal l = None"
    and ok: "\<forall>q \<in> set batch. rec_ok (req_rec q)"
  shows "commit_ok batch segs (commit io batch l fs) \<or> commit_failed batch segs (commit io batch l fs)"
proof -
  define total where "total = length (frames (map req_rec batch))"
  obtain l1 fs1 rerr where r: "(if l_size l > 0 \<and> int (l_size l + total) > wo_SegmentSize (l_opts l)
               then rotate io l fs else (l, fs, None)) = (l1, fs1, rerr)"
    by (metis prod_cases3)
  have r': "if rerr = None then l_fatal l1 = None \<and>
        (\<exists>segs1. clean_disk l1 fs1 segs1 \<and> concat segs1 = concat segs)
      else \<exists>extra. wal_disk fs1 segs [] extra 0"
  proof (cases "l_size l > 0 \<and> int (l_size l + total) > wo_SegmentSize (l_opts l)")
    case True
    then have "rotate io l fs = (l1, fs1, rerr)" using r by simp
    from rotate_clean [OF d this] show ?thesis using f by (auto split: if_splits)
  next
    case False
    then show ?thesis using r d f by auto
  qed
  note commit_eq = commit_def [of io batch l fs, unfolded f option.case total_frames
      Let_def, folded total_def, unfolded r prod.case]
  show ?thesis
  proof (cases rerr)
    case (Some e)
    then have "commit io batch l fs =
        (l1\<lparr>l_fatal := Some (WalIO e)\<rparr>, fs1, reply batch (Some (WalIO e)))"
      by (simp only: commit_eq option.case)
    moreover have "\<exists>extra. wal_disk fs1 segs [] extra 0" using r' Some by simp
    ultimately show ?thesis by (auto simp: commit_failed_def)
  next
    case None
    then obtain segs1 where s: "clean_disk l1 fs1 segs1" "l_fatal l1 = None" "concat segs1 = concat segs"
      using r' by auto
    note w = commit_write [OF s(1,2) ok, unfolded commit_ok_def commit_failed_def s(3),
        folded commit_ok_def commit_failed_def total_def]
    show ?thesis
      unfolding commit_eq None option.case
      by (cases "io_write io"; cases "io_sync io") (auto simp only: option.case prod.case w split: prod.split)
  qed
qed

section \<open>Crash and recovery\<close>

lemma crash_file:
  assumes c: "crash fs fs'" and p: "p \<in> set (fs_linked fs)" "gget (fs_files fs) p = Some f"
  shows "\<exists>f' k. gget (fs_files fs') p = Some f' \<and> f_synced f \<le> k \<and> k \<le> length (f_data f) \<and>
    f_data f' = take k (f_data f)"
proof -
  obtain f' where f': "gget (fs_files fs') p = Some f'" using c p by (auto simp: crash_def)
  then show ?thesis using c p(2) unfolding crash_def by fastforce
qed

lemma crash_keys: "crash fs fs' \<Longrightarrow> gkeys (fs_files fs') \<subseteq> gkeys (fs_files fs)"
  by (fastforce simp: crash_def gkeys_iff)

text \<open>
  After a power failure the directory is again a sequence of segments of which only the last may
  be cut; its records are the synced ones, followed by those of the failed batch.
\<close>

lemma crash_disk:
  assumes d: "wal_disk fs segs tail extra k" and c: "crash fs fs'"
  shows "\<exists>segs' k' m. disk fs' segs' k' \<and> concat segs' = concat segs @ tail \<and>
    m \<le> length (last segs') \<and> length (frames (take m (last segs'))) \<le> k' \<and>
    concat (butlast segs') @ take m (last segs') = concat segs"
proof -
  let ?n = "length segs"
  let ?p = "\<lambda>i. segmentName (seg_idx i)"
  note D = wal_diskD [OF d]
  have n: "0 < ?n" using D(2) by simp
  have wf: "gwf (fs_files fs')" using c by (simp add: crash_def)
  have surv: "\<exists>f f' k'. gget (fs_files fs) (?p i) = Some f \<and> gget (fs_files fs') (?p i) = Some f' \<and>
      f_synced f \<le> k' \<and> k' \<le> length (f_data f) \<and> f_data f' = take k' (f_data f) \<and>
      f_synced f = length (frames (segs ! i)) \<and>
      f_data f = frames (segs ! i) @ (if Suc i < ?n then [] else take k (frames tail))"
    if i: "i < ?n" for i
    using crash_file [OF c, of "?p i"] D(5) D(8) [rule_format, OF i] i by blast
  have early: "\<exists>f'. gget (fs_files fs') (?p i) = Some f' \<and> f_data f' = frames (segs ! i)"
    if "Suc i < ?n" for i
    using surv [of i] that by auto
  obtain f' k1 where f': "gget (fs_files fs') (?p (?n - 1)) = Some f'"
      "f_data f' = take k1 (frames (last segs) @ take k (frames tail))"
      "length (frames (last segs)) \<le> k1"
  proof -
    have i: "?n - 1 < ?n" "\<not> Suc (?n - 1) < ?n" using n by simp_all
    show ?thesis
      using surv [OF i(1), unfolded if_not_P [OF i(2)], folded last_conv_nth [OF D(2)]] that by metis
  qed
  define k' where "k' = length (f_data f')"
  have pre: "f_data f' = frames (last segs) @ take (k1 - length (frames (last segs))) (take k (frames tail))"
    using f'(2,3) by simp
  then have len: "length (frames (last segs)) \<le> k'" by (simp add: k'_def)
  have k': "f_data f' = take k' (frames (last segs @ tail))" "k' \<le> length (frames (last segs @ tail))"
    using pre by (simp_all add: k'_def min_def)
  have keys: "gkeys (fs_files fs') = ?p ` {..<?n} \<or>
      (extra \<and> gkeys (fs_files fs') = ?p ` {..<Suc ?n})"
  proof -
    have "?p ` {..<?n} \<subseteq> gkeys (fs_files fs')" using surv by (fastforce simp: gkeys_iff)
    moreover have "gkeys (fs_files fs') \<subseteq> ?p ` {..<?n + of_bool extra}"
      using crash_keys [OF c] D(4) by simp
    ultimately show ?thesis by (cases extra) (auto simp: lessThan_Suc)
  qed
  from keys show ?thesis
  proof
    assume keys: "gkeys (fs_files fs') = ?p ` {..<?n}"
    let ?segs = "butlast segs @ [last segs @ tail]"
    have "\<exists>f. gget (fs_files fs') (?p i) = Some f \<and> f_data f =
        (if Suc i < ?n then frames (?segs ! i) else take k' (frames (?segs ! i)))" if "i < ?n" for i
    proof (cases "Suc i < ?n")
      case True
      then show ?thesis using early [OF True] by (auto simp: nth_append nth_butlast)
    next
      case False
      then have "i = ?n - 1" using that by simp
      then show ?thesis using f'(1) k'(1) by (simp add: nth_append)
    qed
    moreover have "\<forall>rs \<in> set ?segs. \<forall>r \<in> set rs. rec_ok r"
      using D(2,6,7) by (auto dest: in_set_butlastD)
    ultimately have "disk fs' ?segs k'"
      using wf keys D(3) n k'(2) by (simp add: disk_def)
    moreover have "concat ?segs = concat segs @ tail" "concat (butlast ?segs) @ last segs = concat segs"
      using D(2) by (metis append_assoc append_butlast_last_id concat.simps concat_append append_Nil2,
          metis append_butlast_last_id butlast_snoc concat.simps concat_append append_Nil2)
    ultimately show ?thesis
      using len by (intro exI [of _ ?segs] exI [of _ k'] exI [of _ "length (last segs)"]) simp
  next
    assume ex: "extra \<and> gkeys (fs_files fs') = ?p ` {..<Suc ?n}"
    then have t: "tail = []" and last: "\<exists>f. gget (fs_files fs) (?p ?n) = Some f \<and> f_data f = []"
      using D(9) by auto
    have "?p ?n \<in> gkeys (fs_files fs')" using ex by auto
    then obtain g where g: "gget (fs_files fs') (?p ?n) = Some g" by (auto simp: gkeys_iff)
    have "\<exists>f k. gget (fs_files fs) (?p ?n) = Some f \<and> f_data g = take k (f_data f)"
      using c g unfolding crash_def by blast
    then have "f_data g = []" using last by auto
    moreover have "\<exists>f. gget (fs_files fs') (?p i) = Some f \<and> f_data f = frames (segs ! i)"
      if "i < ?n" for i
      using early [of i] f'(1) pre t that
      by (cases "Suc i < ?n") (auto simp: last_conv_nth [OF D(2)] intro!: exI [of _ f'] dest: less_antisym)
    ultimately have "disk fs' (segs @ [[]]) 0"
      using wf ex D(3,6) g by (auto simp: disk_def nth_append less_Suc_eq)
    then show ?thesis using t by (intro exI [of _ "segs @ [[]]"] exI [of _ 0]) simp
  qed
qed

section \<open>The invariant of the log\<close>

text \<open>
  The requests sent are those committed, those answered with an error and those still queued, in
  this order. The synced records are what the log held when it was opened and the committed ones;
  a log that is not poisoned has answered nobody with an error and its directory is clean.
\<close>

definition wal_inv :: "walRecord list \<Rightarrow> walSys \<Rightarrow> bool" where
  "wal_inv base s \<longleftrightarrow> distinct (map rq_id (sy_sent s)) \<and> (\<forall>q \<in> set (sy_sent s). rec_ok (req_rec q)) \<and>
     (\<exists>okq badq bad segs n extra k.
        sy_sent s = okq @ badq @ l_reqs (sy_log s) \<and>
        sy_done s = reply okq None @ bad \<and> map fst bad = map rq_id badq \<and> None \<notin> snd ` set bad \<and>
        concat segs = base @ map req_rec okq \<and>
        wal_disk (sy_fs s) segs (take n (map req_rec badq)) extra k \<and>
        (l_fatal (sy_log s) = None \<longrightarrow> badq = [] \<and> clean_disk (sy_log s) (sy_fs s) segs))"

lemma wal_invE:
  assumes "wal_inv base s"
  obtains okq badq bad segs n extra k where
    "sy_sent s = okq @ badq @ l_reqs (sy_log s)" "sy_done s = reply okq None @ bad"
    "map fst bad = map rq_id badq" "None \<notin> snd ` set bad"
    "concat segs = base @ map req_rec okq"
    "wal_disk (sy_fs s) segs (take n (map req_rec badq)) extra k"
    "l_fatal (sy_log s) = None \<longrightarrow> badq = [] \<and> clean_disk (sy_log s) (sy_fs s) segs"
    "distinct (map rq_id (sy_sent s))" "\<forall>q \<in> set (sy_sent s). rec_ok (req_rec q)"
  using assms unfolding wal_inv_def by (elim conjE exE) (rule that; assumption)

lemma drain_spec:
  "drain bmax blen q = (b, rest) \<Longrightarrow> q = b @ rest \<and> length b \<le> bmax - blen \<and>
     (rest \<noteq> [] \<longrightarrow> length b = bmax - blen)"
  by (induction bmax blen q arbitrary: b rule: drain.induct) (auto split: if_splits prod.splits)

lemma next_batch_split:
  "next_batch opts q = Some (b, rest) \<Longrightarrow> q = b @ rest \<and> b \<noteq> []"
  by (auto simp: next_batch_def Let_def dest!: drain_spec split: list.splits if_splits prod.splits)

lemma commit_keeps:
  "commit io batch l fs = (l', fs', rep) \<Longrightarrow>
     l_reqs l' = l_reqs l \<and> l_opts l' = l_opts l \<and> l_closed l' = l_closed l"
  by (auto simp: commit_def rotate_def Let_def split: option.splits if_splits prod.splits sum.splits)

lemma map_fst_reply [simp]: "map fst (reply b e) = map rq_id b"
  by (simp add: reply_def)

lemma reply_append: "reply (a @ b) e = reply a e @ reply b e"
  by (simp add: reply_def)

lemma snd_reply: "None \<notin> snd ` set (reply b (Some e))"
  by (auto simp: reply_def)

lemma wal_inv_writer:
  assumes inv: "wal_inv base s" and r: "run_once io (sy_log s) (sy_fs s) = Some (l', fs', rep)"
  shows "wal_inv base (s\<lparr>sy_log := l', sy_fs := fs', sy_done := sy_done s @ rep\<rparr>)"
proof -
  obtain okq badq bad segs n extra k where I:
    "sy_sent s = okq @ badq @ l_reqs (sy_log s)" "sy_done s = reply okq None @ bad"
    "map fst bad = map rq_id badq" "None \<notin> snd ` set bad"
    "concat segs = base @ map req_rec okq"
    "wal_disk (sy_fs s) segs (take n (map req_rec badq)) extra k"
    "l_fatal (sy_log s) = None \<longrightarrow> badq = [] \<and> clean_disk (sy_log s) (sy_fs s) segs"
    and ids: "distinct (map rq_id (sy_sent s))" and ok: "\<forall>q \<in> set (sy_sent s). rec_ok (req_rec q)"
    using inv by (rule wal_invE)
  obtain batch rest where nb: "next_batch (l_opts (sy_log s)) (l_reqs (sy_log s)) = Some (batch, rest)"
    and c: "commit io batch (sy_log s\<lparr>l_reqs := rest\<rparr>) (sy_fs s) = (l', fs', rep)"
    using r by (auto simp: run_once_def split: option.splits)
  have q: "l_reqs (sy_log s) = batch @ rest" using next_batch_split [OF nb] by simp
  have rest: "l_reqs l' = rest" using commit_keeps [OF c] by simp
  have okb: "\<forall>q \<in> set batch. rec_ok (req_rec q)" using ok I(1) q by auto
  show ?thesis
  proof (cases "l_fatal (sy_log s)")
    case (Some e)
    then have c': "l' = sy_log s\<lparr>l_reqs := rest\<rparr>" "fs' = sy_fs s" "rep = reply batch (Some e)"
      using c by (simp_all add: commit_def)
    have "take (min n (length badq)) (map req_rec (badq @ batch)) = take n (map req_rec badq)"
      by (simp add: min_def)
    then have "wal_disk fs' segs (take (min n (length badq)) (map req_rec (badq @ batch))) extra k"
      using I(6) c'(2) by simp
    moreover have "None \<notin> snd ` set (bad @ reply batch (Some e))"
      using I(4) snd_reply [of batch e] by auto
    moreover have "map fst (bad @ reply batch (Some e)) = map rq_id (badq @ batch)"
      using I(3) by simp
    ultimately show ?thesis
      unfolding wal_inv_def using ids ok I(1,2,5) q rest c' Some
      by (intro conjI exI [of _ okq] exI [of _ "badq @ batch"] exI [of _ "bad @ reply batch (Some e)"]
          exI [of _ segs] exI [of _ "min n (length badq)"] exI [of _ extra] exI [of _ k])
        (simp_all del: map_append)
  next
    case None
    then have badq: "badq = []" "bad = []" and cd: "clean_disk (sy_log s\<lparr>l_reqs := rest\<rparr>) (sy_fs s) segs"
      using I(3) I(7) None by (auto simp: clean_disk_def)
    have fatal: "l_fatal (sy_log s\<lparr>l_reqs := rest\<rparr>) = None" using None by simp
    from commit_cases [OF cd fatal okb, of io, unfolded c] show ?thesis
    proof
      assume "commit_ok batch segs (l', fs', rep)"
      then obtain segs' where S: "l_fatal l' = None" "rep = reply batch None" "clean_disk l' fs' segs'"
          "concat segs' = base @ map req_rec (okq @ batch)"
        using I(5) by (auto simp: commit_ok_def)
      then have "wal_disk fs' segs' (take 0 (map req_rec [])) False 0" by (simp add: clean_disk_def)
      then show ?thesis
        unfolding wal_inv_def using ids ok I(1,2) S q rest badq
        by (intro conjI exI [of _ "okq @ batch"] exI [of _ "[]"] exI [of _ segs'] exI [of _ "0::nat"] exI [of _ False])
          (simp_all add: reply_append del: map_append)
    next
      assume "commit_failed batch segs (l', fs', rep)"
      then obtain e segs' tail ex kk where S: "l_fatal l' = Some e" "rep = reply batch (Some e)"
          "wal_disk fs' segs' tail ex kk" "concat segs' = base @ map req_rec okq"
          "tail = [] \<or> tail = map req_rec batch"
        using I(5) by (auto simp: commit_failed_def)
      define n' where "n' = (if tail = [] then 0 else length batch)"
      have "tail = take n' (map req_rec batch)" using S(5) by (auto simp: n'_def)
      then have "wal_disk fs' segs' (take n' (map req_rec batch)) ex kk" using S(3) by simp
      then show ?thesis
        unfolding wal_inv_def using ids ok I(1,2) S(1,2,4) q rest badq snd_reply [of batch e]
        by (intro conjI exI [of _ okq] exI [of _ batch] exI [of _ "reply batch (Some e)"] exI [of _ segs']
            exI [of _ n'] exI [of _ ex] exI [of _ kk]) simp_all
    qed
  qed
qed

lemma wal_inv_step:
  assumes inv: "wal_inv base s" and st: "wal_step s s'"
  shows "wal_inv base s'"
  using st
proof cases
  case (send rid ty payload l')
  then have "rec_ok \<lparr>r_Type = ty, r_Payload = payload\<rparr>"
      "l' = sy_log s\<lparr>l_reqs := l_reqs (sy_log s) @ [\<lparr>rq_id = rid, rq_typ = ty, rq_payload = payload\<rparr>]\<rparr>"
    by (auto simp: Append_send_def rec_ok_def split: if_splits)
  moreover have "clean_disk (l\<lparr>l_reqs := q\<rparr>) fs segs = clean_disk l fs segs" for l q fs segs
    by (simp add: clean_disk_def)
  ultimately show ?thesis using inv send unfolding wal_inv_def
    by (auto simp: req_rec_def)
next
  case (writer io l' fs' rep)
  then show ?thesis using wal_inv_writer [OF inv] by simp
next
  case (closing l')
  have "clean_disk (l\<lparr>l_closed := True\<rparr>) fs segs = clean_disk l fs segs" for l fs segs
    by (simp add: clean_disk_def)
  moreover have "l' = sy_log s\<lparr>l_closed := True\<rparr>"
    using closing(2) by (simp add: Close_begin_def split: if_splits)
  ultimately show ?thesis using inv closing(1) unfolding wal_inv_def by simp
qed

lemma wal_inv_reach: "wal_reach s0 s \<Longrightarrow> wal_inv base s0 \<Longrightarrow> wal_inv base s"
  by (induction rule: wal_reach.induct) (auto intro: wal_inv_step)

section \<open>Reopening\<close>

lemma truncateSegment_durable:
  assumes "truncateSegment te se path sz fs = (fs', None)" "durable fs"
  shows "durable fs' \<and> truncateSegment None None path sz fs = (fs', None)"
proof -
  obtain f where f: "te = None" "se = None" "gget (fs_files fs) path = Some f"
      "fs' = fs\<lparr>fs_files := gput path \<lparr>f_data = take sz (f_data f), f_synced = length (take sz (f_data f))\<rparr> (fs_files fs)\<rparr>"
    using assms(1) by (auto simp: truncateSegment_def Let_def split: option.splits)
  moreover have "path \<in> gkeys (fs_files fs)" using f(3) by (simp add: gkeys_iff)
  ultimately show ?thesis
    using assms by (auto simp: durable_def insert_absorb split: if_splits)
qed

text \<open>
  A replay that succeeds is a replay without faults, and it leaves only durable data behind when
  it started from durable data.
\<close>

lemma replay_segments_ok:
  "replay_segments io ap idxs fs st info li ls = (fs', Inr x) \<Longrightarrow> durable fs \<Longrightarrow>
     durable fs' \<and> replay_segments no_faults ap idxs fs st info li ls = (fs', Inr x)"
  by (induction io ap idxs fs st info li ls rule: replay_segments.induct)
    (auto simp: Let_def dest: truncateSegment_durable split: option.splits sum.splits prod.splits if_splits)

lemma replay_ok:
  assumes "replay io ap fs st = (fs', Inr x)" "durable fs"
  shows "durable fs' \<and> replay no_faults ap fs st = (fs', Inr x)"
  using assms replay_segments_ok
  by (fastforce simp: replay_def listSegments_def split: sum.splits option.splits)

lemma disk_durable:
  assumes d: "disk fs segs (length (frames (last segs)))" and "durable fs"
  shows "wal_disk fs segs [] False 0"
proof -
  have k: "(if Suc i < length segs then frames (segs ! i)
      else take (length (frames (last segs))) (frames (segs ! i))) = frames (segs ! i)"
    if "i < length segs" "segs \<noteq> []" for i
  proof (cases "Suc i < length segs")
    case False
    then have "i = length segs - 1" using that by simp
    then show ?thesis using that(2) by (simp add: last_conv_nth)
  qed simp
  have "\<exists>f. gget (fs_files fs) (segmentName (seg_idx i)) = Some f \<and>
      f_synced f = length (frames (segs ! i)) \<and> f_data f = frames (segs ! i)" if "i < length segs" for i
  proof -
    have "segs \<noteq> []" using that by auto
    then show ?thesis using assms k [OF that] that unfolding disk_def durable_def by force
  qed
  then show ?thesis using assms unfolding disk_def durable_def wal_disk_def by simp
qed

text \<open>\<open>collect\<close> rebuilds the record sequence: the most a consumer of the log can see of it.\<close>

definition collect :: "walRecord \<Rightarrow> walRecord list \<Rightarrow> unit + walRecord list" where
  "collect r rs = Inr (rs @ [r])"

lemma fold_collect: "fold_err collect rs acc = Inr (acc @ rs)"
  by (induction rs arbitrary: acc) (simp_all add: collect_def)

lemma crash_replay:
  assumes inv: "wal_inv base s" and c: "crash (sy_fs s) fs'"
    and ap: "\<And>j. \<exists>st'. fold_err ap (take j (base @ map req_rec (sy_sent s))) st = Inr st'"
  obtains j st' fs'' info segs where
    "replay no_faults ap fs' st = (fs'', Inr (st', info, seg_idx (length segs - 1), length (frames (last segs))))"
    "fold_err ap (base @ map req_rec (take j (sy_sent s))) st = Inr st'"
    "concat segs = base @ map req_rec (take j (sy_sent s))"
    "\<And>q. q \<in> set (sy_sent s) \<Longrightarrow> (rq_id q, None) \<in> set (sy_done s) \<Longrightarrow> q \<in> set (take j (sy_sent s))"
    "wal_disk fs'' segs [] False 0" "ri_Segments info = length segs"
proof -
  obtain okq badq bad segs n extra k where I:
    "sy_sent s = okq @ badq @ l_reqs (sy_log s)" "sy_done s = reply okq None @ bad"
    "map fst bad = map rq_id badq" "None \<notin> snd ` set bad"
    "concat segs = base @ map req_rec okq"
    "wal_disk (sy_fs s) segs (take n (map req_rec badq)) extra k"
    "distinct (map rq_id (sy_sent s))"
    using inv by (rule wal_invE)
  obtain segs' k' m where D: "disk fs' segs' k'" "concat segs' = concat segs @ take n (map req_rec badq)"
      "m \<le> length (last segs')" "length (frames (take m (last segs'))) \<le> k'"
      "concat (butlast segs') @ take m (last segs') = concat segs"
    using crash_disk [OF I(6) c] by blast
  let ?all = "base @ map req_rec (sy_sent s)"
  define N where "N = length base + length okq + min n (length badq)"
  have all: "concat segs' = take N ?all"
    using D(2) I(1,5) by (simp add: take_map N_def min_def)
  have ap': "\<exists>st'. fold_err ap (take i (concat segs')) st = Inr st'" for i
    using ap [of "min i N"] unfolding all by (simp only: take_take)
  obtain j st' fs'' info where R: "j \<le> length (last segs')"
      "fold_err ap (concat (butlast segs') @ take j (last segs')) st = Inr st'"
      "replay no_faults ap fs' st = (fs'', Inr (st', info, seg_idx (length segs' - 1),
        length (frames (take j (last segs')))))"
      "ri_Records info = length (concat (butlast segs')) + j" "ri_Segments info = length segs'"
      "\<And>i. i \<le> length (last segs') \<Longrightarrow> length (frames (take i (last segs'))) \<le> k' \<Longrightarrow> i \<le> j"
      "disk fs'' (butlast segs' @ [take j (last segs')]) (length (frames (take j (last segs'))))"
    by (rule replay_disk [OF D(1) ap']) (rule that; blast)
  have ne: "segs' \<noteq> []" using D(1) by (simp add: disk_def)
  define L where "L = length (concat (butlast segs')) + j"
  have cat: "concat segs' = concat (butlast segs') @ last segs'"
    using ne by (metis append_butlast_last_id concat.simps concat_append append_Nil2)
  then have rec: "concat (butlast segs') @ take j (last segs') = take L (concat segs')"
    by (simp add: L_def)
  have "m \<le> j" using R(6) D(3,4) by blast
  then have L: "length base + length okq \<le> L" "L \<le> N \<or> N \<le> L"
    using arg_cong [OF D(5), of length] I(5) D(3) by (auto simp: L_def)
  define i where "i = min L N - length base"
  have i: "length okq \<le> i" using L by (auto simp: i_def N_def)
  have "take L (concat segs') = base @ map req_rec (take i (sy_sent s))"
    using all L by (auto simp: i_def N_def take_map)
  then have rec': "concat (butlast segs') @ take j (last segs') = base @ map req_rec (take i (sy_sent s))"
    using rec by simp
  have acked: "q \<in> set (take i (sy_sent s))" if q: "q \<in> set (sy_sent s)" "(rq_id q, None) \<in> set (sy_done s)" for q
  proof -
    have "(rq_id q, None) \<in> set (reply okq None)" using q(2) I(2,4) by (auto simp: image_iff)
    then obtain q' where q': "q' \<in> set okq" "rq_id q' = rq_id q" by (auto simp: reply_def)
    then have "q' \<in> set (sy_sent s)" using I(1) by simp
    moreover have "inj_on rq_id (set (sy_sent s))" using I(7) by (simp only: distinct_map)
    ultimately have "q' = q" using q(1) q'(2) by (meson inj_onD)
    then show ?thesis using q'(1) i I(1) by simp
  qed
  have dur: "durable fs''"
    using replay_ok [OF R(3)] c by (simp add: crash_def)
  let ?segs = "butlast segs' @ [take j (last segs')]"
  have "wal_disk fs'' ?segs [] False 0" using disk_durable [OF _ dur, of ?segs] R(7) by simp
  then show thesis
    using that [of fs'' st' info ?segs i] R(2,3,5) rec' acked ne by (simp del: map_append)
qed

lemma Open_crash:
  assumes inv: "wal_inv base s" and c: "crash (sy_fs s) fs'"
    and ap: "\<And>j. \<exists>st'. fold_err ap (take j (base @ map req_rec (sy_sent s))) st = Inr st'"
    and op: "Open io opts ap fs' st = (fs'', Inr (l, info, st'))"
  obtains j where
    "fold_err ap (base @ map req_rec (take j (sy_sent s))) st = Inr st'"
    "\<And>q. q \<in> set (sy_sent s) \<Longrightarrow> (rq_id q, None) \<in> set (sy_done s) \<Longrightarrow> q \<in> set (take j (sy_sent s))"
    "wal_inv (base @ map req_rec (take j (sy_sent s)))
       \<lparr>sy_log = l, sy_fs = fs'', sy_sent = [], sy_done = []\<rparr>"
proof -
  from crash_replay [OF inv c ap] obtain j st1 fs1 info1 segs where R:
    "replay no_faults ap fs' st = (fs1, Inr (st1, info1, seg_idx (length segs - 1), length (frames (last segs))))"
    "fold_err ap (base @ map req_rec (take j (sy_sent s))) st = Inr st1"
    "concat segs = base @ map req_rec (take j (sy_sent s))"
    "\<And>q. q \<in> set (sy_sent s) \<Longrightarrow> (rq_id q, None) \<in> set (sy_done s) \<Longrightarrow> q \<in> set (take j (sy_sent s))"
    "wal_disk fs1 segs [] False 0" "ri_Segments info1 = length segs"
    by metis
  have dur: "durable fs'" using c by (simp add: crash_def)
  have ne: "length segs \<noteq> 0" using R(5) by (simp add: wal_disk_def)
  obtain x fs2 where rep: "replay (oio_replay io) ap fs' st = (fs2, Inr x)"
    using op by (auto simp: Open_def Let_def split: if_splits option.splits prod.splits sum.splits)
  have eq: "fs2 = fs1" "x = (st1, info1, seg_idx (length segs - 1), length (frames (last segs)))"
    using replay_ok [OF rep dur] R(1) by simp_all
  have l: "st' = st1" "fs'' = fs1" "l_reqs l = []" "l_fatal l = None"
      "l_f l = segmentName (seg_idx (length segs - 1))" "l_index l = seg_idx (length segs - 1)"
      "l_size l = length (frames (last segs))"
    using op rep [unfolded eq] R(6) ne
    by (auto simp: Open_def Let_def split: if_splits option.splits)
  have "clean_disk l fs'' segs" using l R(5) by (simp add: clean_disk_def)
  then have "wal_inv (base @ map req_rec (take j (sy_sent s)))
       \<lparr>sy_log = l, sy_fs = fs'', sy_sent = [], sy_done = []\<rparr>"
    unfolding wal_inv_def using R(3,5) l
    by (intro conjI exI [of _ "[]"] exI [of _ segs] exI [of _ "0::nat"] exI [of _ False])
      (simp_all add: reply_def)
  then show thesis using that R(2,4) l(1) by simp
qed

lemma Open_fresh:
  assumes e: "fs_files fs = []" and op: "Open io opts ap fs st = (fs', Inr (l, info, st'))"
  shows "wal_inv [] \<lparr>sy_log = l, sy_fs = fs', sy_sent = [], sy_done = []\<rparr> \<and> st' = st"
proof -
  have "listSegments None fs = Inr []" using e by (simp add: listSegments_def Let_def)
  then have rep: "replay (oio_replay io) ap fs st = (fs, Inr (st, \<lparr>ri_Segments = 0, ri_Records = 0,
      ri_Truncated = False, ri_TruncatedAt = 0\<rparr>, 0, 0))"
    if "replay (oio_replay io) ap fs st = (fs1, Inr x)" for fs1 x
    using that e by (auto simp: replay_def listSegments_def split: sum.splits option.splits)
  have l: "st' = st" "l_reqs l = []" "l_fatal l = None" "l_f l = segmentName (l_index l)" "l_index l = 0"
      "l_size l = 0"
      "fs_files fs' = gput (segmentName 0) \<lparr>f_data = [], f_synced = 0\<rparr> []"
      "fs_linked fs' = map fst (gput (segmentName 0) \<lparr>f_data = [], f_synced = 0\<rparr> [])"
    using op rep e
    by (auto simp: Open_def Let_def createSegment_def split: if_splits option.splits prod.splits sum.splits)
  have "clean_disk l fs' [[]]"
    using l by (auto simp: clean_disk_def wal_disk_def seg_idx_def gput_def gkeys_def gwf_def gget_def)
  then show ?thesis
    unfolding wal_inv_def using l(1-3)
    by (intro conjI exI [of _ "[]"] exI [of _ "[[]]"] exI [of _ "0::nat"] exI [of _ False])
      (simp_all add: reply_def clean_disk_def)
qed

definition open_ok :: open_io where
  "open_ok = \<lparr>oio_mkdir = None, oio_replay = no_faults, oio_create = None, oio_syncDir = None, oio_open = None\<rparr>"

section \<open>What the log asks of its client, and what it gives\<close>

text \<open>
  The client hands \<open>Open\<close> a function that applies a record to its state. If that function accepts the
  records sent so far, and every prefix of them, then after a crash opening succeeds, and the client's
  state is that of a prefix that has every acknowledged record.
\<close>

locale log_client =
  fixes ap :: "walRecord \<Rightarrow> 's \<Rightarrow> 'e + 's" and st :: 's and accepts :: "walRecord list \<Rightarrow> bool"
  assumes prefix_closed: "accepts L \<Longrightarrow> accepts (take j L)"
    and replays: "accepts L \<Longrightarrow> \<exists>st'. fold_err ap L st = Inr st'"
begin

lemma prefixes_replay: "accepts L \<Longrightarrow> \<exists>st'. fold_err ap (take j L) st = Inr st'"
  by (intro replays prefix_closed)

lemma reopens:
  assumes inv: "wal_inv base s" and c: "crash (sy_fs s) fs'" and d: "wo_Dir opts \<noteq> []"
    and acc: "accepts (base @ map req_rec (sy_sent s))"
  shows "\<exists>fs'' l info st' j. Open open_ok opts ap fs' st = (fs'', Inr (l, info, st')) \<and>
    fold_err ap (base @ map req_rec (take j (sy_sent s))) st = Inr st' \<and>
    (\<forall>q \<in> set (sy_sent s). (rq_id q, None) \<in> set (sy_done s) \<longrightarrow> q \<in> set (take j (sy_sent s)))"
proof -
  obtain j st' fs'' info segs where R:
    "replay no_faults ap fs' st = (fs'', Inr (st', info, seg_idx (length segs - 1), length (frames (last segs))))"
    "fold_err ap (base @ map req_rec (take j (sy_sent s))) st = Inr st'"
    "\<And>q. q \<in> set (sy_sent s) \<Longrightarrow> (rq_id q, None) \<in> set (sy_done s) \<Longrightarrow> q \<in> set (take j (sy_sent s))"
    "wal_disk fs'' segs [] False 0" "ri_Segments info = length segs"
    by (rule crash_replay [OF inv c prefixes_replay [OF acc]]) (rule that; blast)
  have "ri_Segments info \<noteq> 0" using R(4,5) by (simp add: wal_disk_def)
  moreover have "wo_Dir (withDefaults opts) \<noteq> []" using d by (simp add: withDefaults_def Let_def)
  ultimately have "\<exists>l. Open open_ok opts ap fs' st = (fs'', Inr (l, info, st'))"
    using R(1) by (simp add: Open_def open_ok_def Let_def)
  then show ?thesis using R(2,3) by blast
qed

lemma restarts:
  assumes inv: "wal_inv base s" and c: "crash (sy_fs s) fs'" and acc: "accepts (base @ map req_rec (sy_sent s))"
    and op: "Open io opts ap fs' st = (fs'', Inr (l, info, st'))"
  obtains j where "fold_err ap (base @ map req_rec (take j (sy_sent s))) st = Inr st'"
    "\<And>q. q \<in> set (sy_sent s) \<Longrightarrow> (rq_id q, None) \<in> set (sy_done s) \<Longrightarrow> q \<in> set (take j (sy_sent s))"
    "wal_inv (base @ map req_rec (take j (sy_sent s))) \<lparr>sy_log = l, sy_fs = fs'', sy_sent = [], sy_done = []\<rparr>"
  by (rule Open_crash [OF inv c prefixes_replay [OF acc] op]) (rule that; blast)

end

interpretation collecting: log_client collect "[]" "\<lambda>_. True"
  by unfold_locales (simp_all add: fold_collect)

section \<open>Many lives of one directory\<close>

text \<open>
  A directory that is opened, used, hit by a power failure and opened again, any number of
  times. The first argument collects the records acknowledged in the lives before the current one.
\<close>

definition acked :: "walSys \<Rightarrow> walRecord list" where
  "acked s = map req_rec (filter (\<lambda>q. (rq_id q, None) \<in> set (sy_done s)) (sy_sent s))"

inductive wal_life :: "walRecord list \<Rightarrow> walSys \<Rightarrow> bool" where
  life_start: "\<lbrakk>fs_files fs = []; Open io opts collect fs [] = (fs', Inr (l, info, rs))\<rbrakk> \<Longrightarrow>
    wal_life [] \<lparr>sy_log = l, sy_fs = fs', sy_sent = [], sy_done = []\<rparr>"
| life_act: "wal_life a s \<Longrightarrow> wal_step s s' \<Longrightarrow> wal_life a s'"
| life_reboot: "\<lbrakk>wal_life a s; crash (sy_fs s) fs';
      Open io opts collect fs' [] = (fs'', Inr (l, info, rs))\<rbrakk> \<Longrightarrow>
    wal_life (a @ acked s) \<lparr>sy_log = l, sy_fs = fs'', sy_sent = [], sy_done = []\<rparr>"

lemma acked_subseq:
  assumes d: "distinct (map rq_id (sy_sent s))"
    and t: "\<And>q. q \<in> set (sy_sent s) \<Longrightarrow> (rq_id q, None) \<in> set (sy_done s) \<Longrightarrow> q \<in> set (take j (sy_sent s))"
  shows "subseq (acked s) (map req_rec (take j (sy_sent s)))"
proof -
  let ?P = "\<lambda>q. (rq_id q, None) \<in> set (sy_done s)"
  have "distinct (sy_sent s)" using d by (simp add: distinct_map)
  then have "set (take j (sy_sent s)) \<inter> set (drop j (sy_sent s)) = {}"
    by (metis append_take_drop_id distinct_append)
  then have "filter ?P (drop j (sy_sent s)) = []"
    using t in_set_dropD by (fastforce simp: filter_empty_conv)
  then have "filter ?P (sy_sent s) = filter ?P (take j (sy_sent s))"
    by (metis append_Nil2 append_take_drop_id filter_append)
  then show ?thesis by (simp add: acked_def subseq_map)
qed

lemma wal_life_inv: "wal_life a s \<Longrightarrow> \<exists>base. wal_inv base s \<and> subseq a base"
proof (induction rule: wal_life.induct)
  case (life_start fs io opts fs' l info rs)
  then show ?case using Open_fresh [OF life_start] by auto
next
  case (life_act a s s')
  then show ?case using wal_inv_step by blast
next
  case (life_reboot a s fs' io opts fs'' l info rs)
  then obtain base where b: "wal_inv base s" "subseq a base" by blast
  obtain j where j:
    "\<And>q. q \<in> set (sy_sent s) \<Longrightarrow> (rq_id q, None) \<in> set (sy_done s) \<Longrightarrow> q \<in> set (take j (sy_sent s))"
    "wal_inv (base @ map req_rec (take j (sy_sent s)))
       \<lparr>sy_log = l, sy_fs = fs'', sy_sent = [], sy_done = []\<rparr>"
    by (rule collecting.restarts [OF b(1) life_reboot.hyps(2) TrueI life_reboot.hyps(3)]) (rule that; blast)
  have "distinct (map rq_id (sy_sent s))" using b(1) by (simp add: wal_inv_def)
  from acked_subseq [OF this j(1)] have "subseq (a @ acked s) (base @ map req_rec (take j (sy_sent s)))"
    using b(2) by (simp add: list_emb_append_mono)
  then show ?case using j(2) by blast
qed



section \<open>The writer's promises\<close>

text \<open>The writer takes a nonempty batch from the front of the channel, in order. In group mode
  the batch has at most \<open>BatchMax\<close> records and leaves nothing behind unless it is full; in any
  other mode it is one record.
\<close>

lemma next_batch_fifo:
  assumes "next_batch opts q = Some (batch, rest)" "0 < wo_BatchMax opts"
  shows "q = batch @ rest \<and> batch \<noteq> [] \<and>
    (if wo_Sync opts = SyncGroup
     then int (length batch) \<le> wo_BatchMax opts \<and> (rest \<noteq> [] \<longrightarrow> int (length batch) = wo_BatchMax opts)
     else length batch = 1)"
  using assms
  by (auto simp: next_batch_def Let_def dest!: drain_spec split: list.splits if_splits prod.splits)

lemma commit_fatal:
  "commit io batch l fs = (l', fs', rep) \<Longrightarrow> l_fatal l = Some e \<Longrightarrow>
     l' = l \<and> fs' = fs \<and> rep = reply batch (Some e)"
  by (simp add: commit_def)


text \<open>C11: Every request is answered exactly once and in the order of the channel: the answered
  requests followed by the queued ones are the requests sent.
\<close>

theorem answers_in_order:
  assumes "wal_reach s0 s" "sy_sent s0 = []" "sy_done s0 = []" "l_reqs (sy_log s0) = []"
  shows "map rq_id (sy_sent s) = map fst (sy_done s) @ map rq_id (l_reqs (sy_log s)) \<and>
    distinct (map fst (sy_done s))"
proof -
  have "map rq_id (sy_sent s) = map fst (sy_done s) @ map rq_id (l_reqs (sy_log s)) \<and>
    distinct (map rq_id (sy_sent s))"
    using assms
  proof (induction rule: wal_reach.induct)
    case reach_start
    then show ?case by simp
  next
    case (reach_step s1 s2)
    then have ih: "map rq_id (sy_sent s1) = map fst (sy_done s1) @ map rq_id (l_reqs (sy_log s1))"
      "distinct (map rq_id (sy_sent s1))" by blast+
    from reach_step.hyps(2) show ?case
    proof cases
      case (send rid ty payload l')
      then have "rid \<notin> set (map rq_id (sy_sent s1))" by simp
      then have "rid \<notin> fst ` set (sy_done s1) \<union> rq_id ` set (l_reqs (sy_log s1))"
        unfolding ih(1) by simp
      with send show ?thesis using ih by (auto simp: Append_send_def split: if_splits)
    next
      case (writer io l' fs' rep)
      then obtain batch rest where
          n: "next_batch (l_opts (sy_log s1)) (l_reqs (sy_log s1)) = Some (batch, rest)"
        and c: "commit io batch (sy_log s1\<lparr>l_reqs := rest\<rparr>) (sy_fs s1) = (l', fs', rep)"
        by (auto simp: run_once_def split: option.splits)
      have "\<exists>e. rep = reply batch e"
        using c by (auto simp: commit_def Let_def split: option.splits if_splits prod.splits)
      then show ?thesis
        using writer ih next_batch_split [OF n] commit_keeps [OF c] by auto
    next
      case (closing l')
      then show ?thesis using ih by (auto simp: Close_begin_def split: if_splits)
    qed
  qed
  then show ?thesis by auto
qed




theorem answers_in_order_witness:
  "\<exists>s0 s. wal_reach s0 s \<and> map rq_id (sy_sent s) = [7] \<and> map fst (sy_done s) = []"
proof -
  let ?l = "\<lparr>l_opts = \<lparr>wo_Dir = ''d'', wo_Sync = SyncGroup, wo_SegmentSize = 6, wo_BatchMax = 4\<rparr>,
     l_reqs = [], l_closed = False, l_f = segmentName 0, l_index = 0, l_size = 0, l_fatal = None,
     l_stats = \<lparr>ws_Appends = 0, ws_Batches = 0, ws_Bytes = 0\<rparr>\<rparr>"
  let ?s = "\<lparr>sy_log = ?l, sy_fs = \<lparr>fs_files = [], fs_subdirs = [], fs_linked = []\<rparr>, sy_sent = [], sy_done = []\<rparr>"
  let ?q = "\<lparr>rq_id = 7, rq_typ = RecordAck, rq_payload = []\<rparr>"
  let ?s' = "?s\<lparr>sy_log := ?l\<lparr>l_reqs := [?q]\<rparr>, sy_sent := [?q]\<rparr>"
  have st: "wal_step ?s ?s'"
    using wal_step.send [of 7 RecordAck "[]" ?s "?l\<lparr>l_reqs := [?q]\<rparr>"]
    by (simp add: Append_send_def valid_type_def record_type_defs)
  have re: "wal_reach ?s ?s'" using reach_step [OF reach_start st] .
  from answers_in_order [OF re] have "map fst (sy_done ?s') = []" by simp
  with re show ?thesis by (intro exI [of _ ?s] exI [of _ ?s']) simp
qed

end
