(* ===== verification/Manager.thy ===== *)
theory Manager
  imports Replay PayloadJson WalLog "HOL-Library.List_Lexorder" "HOL-Library.Char_ord"
begin

text \<open>
  \<open>internal/queue/manager.go\<close> around the queues: the manager, queue creation and lookup, closing,
  and opening by replay; and \<open>appendJSON\<close> of \<open>record.go\<close>, which ties the queues to the log.

  The replay applies the records of all queues in log order. \<open>replay_by_queue\<close> shows that this is
  the same as replaying each queue's own records alone, which is what \<open>Replay\<close> is about.
\<close>

section \<open>Appending\<close>

definition appendJSON :: "nat \<Rightarrow> payload \<Rightarrow> walLog \<Rightarrow> wal_error + walLog" where
  "appendJSON rid p l = Append_send rid (payload_type p) (Marshal p) l"

section \<open>The manager\<close>

record manager =
  mg_queues :: "(string, queue) gomap"
  mg_closed :: bool

definition new_manager :: manager where
  "new_manager = \<lparr>mg_queues = [], mg_closed = False\<rparr>"

text \<open>
  \<open>CreateQueue\<close> holds the manager's lock across its append; the two halves are what precedes the
  append and what follows it.
\<close>

definition CreateQueue_reserve :: "config \<Rightarrow> manager \<Rightarrow> queue_error + (config \<times> payload)" where
  "CreateQueue_reserve cfg0 m =
     (case normalize cfg0 of
        Inl e \<Rightarrow> Inl e
      | Inr cfg \<Rightarrow>
          if mg_closed m then Inl ErrClosed
          else if gget (mg_queues m) (c_Name cfg) \<noteq> None then Inl ErrQueueExists
          else Inr (cfg, PQueueCreate \<lparr>qp_Config = cfg\<rparr>))"

definition CreateQueue_finish :: "config \<Rightarrow> queue_error option \<Rightarrow> manager \<Rightarrow> manager \<times> (queue_error + queue)" where
  "CreateQueue_finish cfg err m =
     (case err of
        Some e \<Rightarrow> (m, Inl e)
      | None \<Rightarrow> let q = newQueue cfg in (m\<lparr>mg_queues := gput (c_Name cfg) q (mg_queues m)\<rparr>, Inr q))"

definition Queue_lookup :: "string \<Rightarrow> manager \<Rightarrow> queue_error + queue" where
  "Queue_lookup name m = (case gget (mg_queues m) name of None \<Rightarrow> Inl ErrQueueNotFound | Some q \<Rightarrow> Inr q)"

definition Queues :: "manager \<Rightarrow> queue list" where
  "Queues m = sort_key (\<lambda>q. c_Name (q_cfg q)) (map snd (mg_queues m))"

definition WALStats :: "walLog \<Rightarrow> walStats" where
  "WALStats l = wal_Stats l"

text \<open>
  \<open>Close\<close>: nothing the second time; otherwise every queue is stopped and the log's \<open>Close\<close> begins.
\<close>

definition Manager_Close :: "manager \<Rightarrow> walLog \<Rightarrow> manager \<times> walLog" where
  "Manager_Close m l =
     (if mg_closed m then (m, l)
      else (m\<lparr>mg_closed := True, mg_queues := map (\<lambda>(n, q). (n, stop q)) (mg_queues m)\<rparr>,
            case Close_begin l of None \<Rightarrow> l | Some l' \<Rightarrow> l'))"

section \<open>Replay\<close>

definition replayQueue :: "string \<Rightarrow> manager \<Rightarrow> replay_err + queue" where
  "replayQueue name m =
     (case gget (mg_queues m) name of None \<Rightarrow> Inl (ReplayUnknownQueue name) | Some q \<Rightarrow> Inr q)"

definition apply_create :: "queueCreatePayload \<Rightarrow> manager \<Rightarrow> replay_err + manager" where
  "apply_create p m =
     (case normalize (qp_Config p) of
        Inl e \<Rightarrow> Inl (ReplayBadConfig e)
      | Inr cfg \<Rightarrow>
          if gget (mg_queues m) (c_Name cfg) \<noteq> None then Inl (ReplayCreatedTwice (c_Name cfg))
          else Inr (m\<lparr>mg_queues := gput (c_Name cfg) (newQueue cfg) (mg_queues m)\<rparr>))"

fun apply_payload :: "payload \<Rightarrow> manager \<times> replayState \<Rightarrow> replay_err + (manager \<times> replayState)" where
  "apply_payload (PQueueCreate p) (m, rs) = map_sum id (\<lambda>m'. (m', rs)) (apply_create p m)"
| "apply_payload p (m, rs) =
     (case replayQueue (payload_queue p) m of
        Inl e \<Rightarrow> Inl e
      | Inr q \<Rightarrow>
          (case apply_queue p (q, rs) of
             Inl e \<Rightarrow> Inl e
           | Inr (q', rs') \<Rightarrow> Inr (m\<lparr>mg_queues := gput (payload_queue p) q' (mg_queues m)\<rparr>, rs')))"

definition apply_record :: "walRecord \<Rightarrow> manager \<times> replayState \<Rightarrow> replay_err + (manager \<times> replayState)" where
  "apply_record rec s =
     (if \<not> valid_type (r_Type rec) then Inl (ReplayUnexpectedType (r_Type rec))
      else case Unmarshal (r_Type rec) (r_Payload rec) of
             None \<Rightarrow> Inl ReplayBadJSON
           | Some p \<Rightarrow> apply_payload p s)"

definition finalize :: "int \<Rightarrow> replayState \<Rightarrow> manager \<Rightarrow> manager" where
  "finalize clock rs m =
     m\<lparr>mg_queues := map (\<lambda>(n, q). (n, finalize_queue (unixMilli clock)
        (case gget rs n of Some l \<Rightarrow> l | None \<Rightarrow> []) q)) (mg_queues m)\<rparr>"

definition Manager_Open :: "open_io \<Rightarrow> walOptions \<Rightarrow> int \<Rightarrow> fsys \<Rightarrow>
    fsys \<times> (replay_err open_error + (manager \<times> walLog \<times> recoveryInfo))" where
  "Manager_Open io opts clock fs =
     (case Open io opts apply_record fs (new_manager, []) of
        (fs', Inl e) \<Rightarrow> (fs', Inl e)
      | (fs', Inr (l, info, m, rs)) \<Rightarrow> (fs', Inr (finalize clock rs m, l, info)))"

section \<open>One queue's records\<close>

definition about :: "string \<Rightarrow> payload list \<Rightarrow> payload list" where
  "about n L = filter (\<lambda>p. \<not> is_create p \<and> payload_queue p = n) L"

definition created :: "payload list \<Rightarrow> string set" where
  "created L = payload_queue ` {p \<in> set L. is_create p}"

lemma about_simps [simp]:
  "about n [] = []" "about n (L @ M) = about n L @ about n M"
  "about n [p] = (if \<not> is_create p \<and> payload_queue p = n then [p] else [])"
  by (simp_all add: about_def)

lemma created_simps [simp]:
  "created [] = {}" "created (L @ M) = created L \<union> created M"
  "created [p] = (if is_create p then {payload_queue p} else {})"
  by (auto simp: created_def)

lemma created_Cons: "created (p # L) = (if is_create p then {payload_queue p} else {}) \<union> created L"
  by (auto simp: created_def)

text \<open>A log of many queues: each is created once, before its first record, and its own records form a
  log that replays.\<close>

definition mrec_wf :: "payload list \<Rightarrow> payload \<Rightarrow> bool" where
  "mrec_wf L p \<longleftrightarrow>
     (case p of
        PQueueCreate c \<Rightarrow> normalize (qp_Config c) = Inr (qp_Config c) \<and> c_Name (qp_Config c) \<notin> created L
      | _ \<Rightarrow> payload_queue p \<in> created L \<and> rec_wf (about (payload_queue p) L) p)"

inductive mlog_wf :: "payload list \<Rightarrow> bool" where
  mlog_wf_Nil: "mlog_wf []"
| mlog_wf_snoc: "mlog_wf L \<Longrightarrow> mrec_wf L p \<Longrightarrow> mlog_wf (L @ [p])"

inductive_cases mlog_wf_snocE: "mlog_wf (L @ [p])"

lemma mrec_wf_other: "\<not> is_create p \<Longrightarrow> mrec_wf L p \<longleftrightarrow> payload_queue p \<in> created L \<and> rec_wf (about (payload_queue p) L) p"
  by (cases p) (simp_all add: mrec_wf_def)

lemma is_create_iff: "is_create p \<longleftrightarrow> (\<exists>c. p = PQueueCreate c)"
  by (cases p) simp_all

lemma mlog_wf_append: "mlog_wf (L @ M) \<Longrightarrow> mlog_wf L"
proof (induction M rule: rev_induct)
  case (snoc p M)
  then have "mlog_wf ((L @ M) @ [p])" by simp
  then have "mlog_wf (L @ M)" by (rule mlog_wf_snocE) simp
  then show ?case using snoc.IH by simp
qed simp

lemma mlog_wf_take: "mlog_wf L \<Longrightarrow> mlog_wf (take k L)"
  using mlog_wf_append [of "take k L" "drop k L"] by simp

lemma mlog_wf_about: "mlog_wf L \<Longrightarrow> log_wf (about n L)"
proof (induction rule: mlog_wf.induct)
  case (mlog_wf_snoc L p)
  then show ?case by (cases "is_create p") (auto simp: mrec_wf_other intro: log_wf_snoc)
qed (simp add: log_wf_Nil)

lemma created_about: "mlog_wf L \<Longrightarrow> about n L \<noteq> [] \<Longrightarrow> n \<in> created L"
proof (induction rule: mlog_wf.induct)
  case (mlog_wf_snoc L p)
  then show ?case by (cases "is_create p") (auto simp: mrec_wf_other split: if_splits)
qed simp

section \<open>Replay by queue\<close>

text \<open>The effect of a record on its queue does not depend on the leases of other queues.\<close>

lemma rs_lease_get: "gget (rs_lease n i rs) k = (if k = n then Some (gput i () (case gget rs n of None \<Rightarrow> [] | Some s \<Rightarrow> s)) else gget rs k)"
  by (auto simp: rs_lease_def Let_def split: option.splits)

lemma rs_unlease_get: "gget (rs_unlease n i rs) k = (if k = n then map_option (gdel i) (gget rs n) else gget rs k)"
  by (auto simp: rs_unlease_def split: option.splits)

definition local_to :: "string \<Rightarrow> (queue \<times> replayState \<Rightarrow> replay_err + (queue \<times> replayState)) \<Rightarrow> bool" where
  "local_to n f \<longleftrightarrow> (\<forall>q rs rs1. gget rs n = gget rs1 n \<longrightarrow>
     (case f (q, rs) of
        Inl e \<Rightarrow> f (q, rs1) = Inl e
      | Inr (q', rs') \<Rightarrow> (\<forall>k. k \<noteq> n \<longrightarrow> gget rs' k = gget rs k) \<and>
          (\<exists>rs1'. f (q, rs1) = Inr (q', rs1') \<and> gget rs1' n = gget rs' n)))"

lemma local_toD:
  assumes "local_to n f" "gget rs n = gget rs1 n" "f (q, rs) = Inr (q', rs')"
  shows "\<exists>rs1'. f (q, rs1) = Inr (q', rs1') \<and> gget rs1' n = gget rs' n"
    and "k \<noteq> n \<Longrightarrow> gget rs' k = gget rs k"
proof -
  have "(\<forall>k. k \<noteq> n \<longrightarrow> gget rs' k = gget rs k) \<and>
          (\<exists>rs1'. f (q, rs1) = Inr (q', rs1') \<and> gget rs1' n = gget rs' n)"
    using assms(1) [unfolded local_to_def, rule_format, OF assms(2), of q] assms(3) by simp
  then show "\<exists>rs1'. f (q, rs1) = Inr (q', rs1') \<and> gget rs1' n = gget rs' n" "k \<noteq> n \<Longrightarrow> gget rs' k = gget rs k"
    by simp_all
qed

lemma local_to_fold: "(\<And>x. local_to n (f x)) \<Longrightarrow> local_to n (fold_err f xs)"
proof (induction xs)
  case (Cons x xs)
  note IH = Cons.IH [OF Cons.prems]
  show ?case unfolding local_to_def
  proof (intro allI impI)
    fix q and rs rs1 :: replayState assume g: "gget rs n = gget rs1 n"
    show "case fold_err f (x # xs) (q, rs) of Inl e \<Rightarrow> fold_err f (x # xs) (q, rs1) = Inl e
      | Inr (q', rs') \<Rightarrow> (\<forall>k. k \<noteq> n \<longrightarrow> gget rs' k = gget rs k) \<and>
          (\<exists>rs1'. fold_err f (x # xs) (q, rs1) = Inr (q', rs1') \<and> gget rs1' n = gget rs' n)"
    proof (cases "f x (q, rs)")
      case (Inl e)
      then show ?thesis using Cons.prems [of x, unfolded local_to_def, rule_format, OF g, of q] by simp
    next
      case (Inr s)
      obtain q2 rs2 where s: "s = (q2, rs2)" by (cases s)
      note L = local_toD [OF Cons.prems [of x] g Inr [unfolded s]]
      then obtain rs3 where r3: "f x (q, rs1) = Inr (q2, rs3)" "gget rs3 n = gget rs2 n" by blast
      show ?thesis
        using IH [unfolded local_to_def, rule_format, OF r3(2) [symmetric], of q2] L(2) Inr s r3(1)
        by (auto split: sum.splits)
    qed
  qed
qed (simp add: local_to_def)

lemma local_to_cnt: "local_to n f \<Longrightarrow> local_to n (\<lambda>s. case f s of Inl e \<Rightarrow> Inl e | Inr (q, rs) \<Rightarrow> Inr (add_cnt g q, rs))"
  (is "_ \<Longrightarrow> local_to n ?h")
proof -
  assume f: "local_to n f"
  show ?thesis unfolding local_to_def
  proof (intro allI impI)
    fix q and rs rs1 :: replayState assume g: "gget rs n = gget rs1 n"
    show "case ?h (q, rs) of Inl e \<Rightarrow> ?h (q, rs1) = Inl e
      | Inr (q', rs') \<Rightarrow> (\<forall>k. k \<noteq> n \<longrightarrow> gget rs' k = gget rs k) \<and>
          (\<exists>rs1'. ?h (q, rs1) = Inr (q', rs1') \<and> gget rs1' n = gget rs' n)"
    proof (cases "f (q, rs)")
      case (Inl e)
      then show ?thesis using f [unfolded local_to_def, rule_format, OF g, of q] by simp
    next
      case (Inr s)
      obtain q2 rs2 where s: "s = (q2, rs2)" by (cases s)
      show ?thesis using local_toD [OF f g Inr [unfolded s]] Inr s by auto
    qed
  qed
qed

lemma local_to_items:
  "local_to n (apply_lease_item n x it)" "local_to n (apply_expire_item n it')" "local_to n (apply_dlq_item n i)"
  by (auto simp: local_to_def apply_lease_item_def apply_expire_item_def apply_dlq_item_def rs_lease_get rs_unlease_get
      Let_def split: option.split)

lemma apply_queue_local: "local_to (payload_queue p) (apply_queue p)"
proof (cases p)
  case (PLease x)
  have "apply_queue p = (\<lambda>s. case fold_err (apply_lease_item (lp_Queue x) (lp_ExpiresAt x)) (lp_Items x) s of
      Inl e \<Rightarrow> Inl e | Inr (q, rs) \<Rightarrow>
        Inr (add_cnt (\<lambda>c. c\<lparr>n_dequeued := n_dequeued c + of_nat (length (lp_Items x))\<rparr>) q, rs))"
    using PLease by (simp add: fun_eq_iff)
  then show ?thesis using PLease local_to_cnt [OF local_to_fold [OF local_to_items(1)]] by simp
next
  case (PLeaseExpire x)
  have "apply_queue p = (\<lambda>s. case fold_err (apply_expire_item (xp_Queue x)) (xp_Items x) s of
      Inl e \<Rightarrow> Inl e | Inr (q, rs) \<Rightarrow>
        Inr (add_cnt (\<lambda>c. c\<lparr>n_expired := n_expired c + of_nat (length (xp_Items x))\<rparr>) q, rs))"
    using PLeaseExpire by (simp add: fun_eq_iff)
  then show ?thesis using PLeaseExpire local_to_cnt [OF local_to_fold [OF local_to_items(2)]] by simp
next
  case (PDLQMove x)
  have "apply_queue p = fold_err (apply_dlq_item (dp_Queue x)) (dp_IDs x)"
    using PDLQMove by (simp add: fun_eq_iff)
  then show ?thesis using PDLQMove local_to_fold [OF local_to_items(3)] by simp
qed (auto simp: local_to_def rs_unlease_get split: option.split)

definition mgr_ok :: "payload list \<Rightarrow> manager \<Rightarrow> replayState \<Rightarrow> bool" where
  "mgr_ok L m rs \<longleftrightarrow> \<not> mg_closed m \<and> gwf (mg_queues m) \<and> gkeys (mg_queues m) = created L \<and>
     (\<forall>n. n \<notin> created L \<longrightarrow> gget rs n = None) \<and>
     (\<forall>n q. gget (mg_queues m) n = Some q \<longrightarrow>
        (\<exists>cfg rs'. PQueueCreate \<lparr>qp_Config = cfg\<rparr> \<in> set L \<and> c_Name cfg = n \<and>
           fold_err apply_queue (about n L) (newQueue cfg, []) = Inr (q, rs') \<and> gget rs n = gget rs' n))"

lemma mgr_okD:
  assumes "mgr_ok L m rs"
  shows "\<not> mg_closed m" "gwf (mg_queues m)" "gkeys (mg_queues m) = created L"
    "\<And>n. n \<notin> created L \<Longrightarrow> gget rs n = None"
    "\<And>n q. gget (mg_queues m) n = Some q \<Longrightarrow>
        \<exists>cfg rs'. PQueueCreate \<lparr>qp_Config = cfg\<rparr> \<in> set L \<and> c_Name cfg = n \<and>
           fold_err apply_queue (about n L) (newQueue cfg, []) = Inr (q, rs') \<and> gget rs n = gget rs' n"
  using assms unfolding mgr_ok_def by blast+

lemma mgr_ok_created: "mgr_ok L m rs \<Longrightarrow> n \<in> created L \<longleftrightarrow> gget (mg_queues m) n \<noteq> None"
  by (simp only: mgr_okD(3) [symmetric] gkeys_iff)

lemma apply_payload_other:
  "\<not> is_create p \<Longrightarrow> apply_payload p (m, rs) =
     (case gget (mg_queues m) (payload_queue p) of
        None \<Rightarrow> Inl (ReplayUnknownQueue (payload_queue p))
      | Some q \<Rightarrow>
          (case apply_queue p (q, rs) of
             Inl e \<Rightarrow> Inl e
           | Inr (q', rs') \<Rightarrow> Inr (m\<lparr>mg_queues := gput (payload_queue p) q' (mg_queues m)\<rparr>, rs')))"
  by (cases p; hypsubst; simp add: replayQueue_def del: apply_queue.simps split: option.split)

lemma mgr_ok_create:
  assumes w: "mlog_wf L" "mrec_wf L (PQueueCreate c)" and ok: "mgr_ok L m rs"
  shows "\<exists>m'. apply_payload (PQueueCreate c) (m, rs) = Inr (m', rs) \<and> mgr_ok (L @ [PQueueCreate c]) m' rs"
proof -
  let ?n = "c_Name (qp_Config c)"
  let ?m = "m\<lparr>mg_queues := gput ?n (newQueue (qp_Config c)) (mg_queues m)\<rparr>"
  have n: "normalize (qp_Config c) = Inr (qp_Config c)" "?n \<notin> created L" using w(2) by (simp_all add: mrec_wf_def)
  have "gget (mg_queues m) ?n = None" using mgr_ok_created [OF ok, of ?n] n(2) by simp
  then have "apply_payload (PQueueCreate c) (m, rs) = Inr (?m, rs)" using n(1) by (simp add: apply_create_def)
  moreover have "mgr_ok (L @ [PQueueCreate c]) ?m rs" unfolding mgr_ok_def
  proof (intro conjI allI impI)
    fix k q assume k: "gget (mg_queues ?m) k = Some q"
    show "\<exists>cfg rs'. PQueueCreate \<lparr>qp_Config = cfg\<rparr> \<in> set (L @ [PQueueCreate c]) \<and> c_Name cfg = k \<and>
        fold_err apply_queue (about k (L @ [PQueueCreate c])) (newQueue cfg, []) = Inr (q, rs') \<and> gget rs k = gget rs' k"
    proof (cases "k = ?n")
      case True
      have "about ?n L = []" using created_about [OF w(1)] n(2) by blast
      moreover have "gget rs ?n = None" using mgr_okD(4) [OF ok n(2)] .
      ultimately show ?thesis using True k by - (rule exI [of _ "qp_Config c"], rule exI [of _ "[]"], simp)
    next
      case False
      then show ?thesis using mgr_okD(5) [OF ok, of k q] k by auto
    qed
  qed (use mgr_okD [OF ok] in auto)
  ultimately show ?thesis by blast
qed

lemma mgr_ok_record:
  assumes w: "mlog_wf L" "mrec_wf L p" "\<not> is_create p" and ok: "mgr_ok L m rs"
  shows "\<exists>m' rs'. apply_payload p (m, rs) = Inr (m', rs') \<and> mgr_ok (L @ [p]) m' rs'"
proof -
  let ?n = "payload_queue p"
  have c: "?n \<in> created L" "rec_wf (about ?n L) p" using w(2,3) by (simp_all add: mrec_wf_other)
  obtain q where q: "gget (mg_queues m) ?n = Some q" using mgr_ok_created [OF ok, of ?n] c(1) by auto
  obtain cfg rsq where f: "PQueueCreate \<lparr>qp_Config = cfg\<rparr> \<in> set L" "c_Name cfg = ?n"
    "fold_err apply_queue (about ?n L) (newQueue cfg, []) = Inr (q, rsq)" "gget rs ?n = gget rsq ?n"
    using mgr_okD(5) [OF ok q] by blast
  have "log_wf (about ?n L @ [p])" using mlog_wf_about [OF w(1)] c(2) by (rule log_wf_snoc)
  then obtain q2 rs2 where g: "fold_err apply_queue (about ?n L @ [p]) (newQueue cfg, []) = Inr (q2, rs2)"
    using replay_wf by blast
  then have a: "apply_queue p (q, rsq) = Inr (q2, rs2)" using fold_err_snoc [OF f(3)] by simp
  obtain rs3 where r3: "apply_queue p (q, rs) = Inr (q2, rs3)" "gget rs3 ?n = gget rs2 ?n"
    using local_toD(1) [OF apply_queue_local f(4) [symmetric] a] by blast
  have oth: "k \<noteq> ?n \<Longrightarrow> gget rs3 k = gget rs k" for k using local_toD(2) [OF apply_queue_local refl r3(1)] .
  have none: "k \<notin> created L \<Longrightarrow> gget rs3 k = None" for k using oth mgr_okD(4) [OF ok] c(1) by metis
  let ?m = "m\<lparr>mg_queues := gput ?n q2 (mg_queues m)\<rparr>"
  have "mgr_ok (L @ [p]) ?m rs3"
    unfolding mgr_ok_def
  proof (intro conjI allI impI)
    fix k q' assume k: "gget (mg_queues ?m) k = Some q'"
    show "\<exists>cfg rs'. PQueueCreate \<lparr>qp_Config = cfg\<rparr> \<in> set (L @ [p]) \<and> c_Name cfg = k \<and>
        fold_err apply_queue (about k (L @ [p])) (newQueue cfg, []) = Inr (q', rs') \<and> gget rs3 k = gget rs' k"
    proof (cases "k = ?n")
      case True
      then show ?thesis using f(1,2) g k r3(2) w(3) by auto
    next
      case False
      then show ?thesis using mgr_okD(5) [OF ok, of k q'] k oth by auto
    qed
  qed (use mgr_okD(1-3) [OF ok] none c(1) w(3) in \<open>auto simp: insert_absorb\<close>)
  then show ?thesis using apply_payload_other [OF w(3)] q r3(1) by simp
qed

lemma mgr_replay: "mlog_wf L \<Longrightarrow> \<exists>m rs. fold_err apply_payload L (new_manager, []) = Inr (m, rs) \<and> mgr_ok L m rs"
proof (induction rule: mlog_wf.induct)
  case mlog_wf_Nil
  then show ?case by (simp add: mgr_ok_def new_manager_def gkeys_def)
next
  case (mlog_wf_snoc L p)
  then obtain m rs where m: "fold_err apply_payload L (new_manager, []) = Inr (m, rs)" "mgr_ok L m rs" by blast
  have "\<exists>m' rs'. apply_payload p (m, rs) = Inr (m', rs') \<and> mgr_ok (L @ [p]) m' rs'"
  proof (cases "is_create p")
    case True
    then obtain c where "p = PQueueCreate c" by (auto simp: is_create_iff)
    then show ?thesis using mgr_ok_create [of L c m rs] mlog_wf_snoc.hyps m(2) by blast
  next
    case False
    then show ?thesis using mgr_ok_record mlog_wf_snoc.hyps m(2) by blast
  qed
  then show ?case using fold_err_snoc [OF m(1)] by simp
qed

text \<open>Records of payloads are decoded on the way.\<close>

definition rec_of_payload :: "payload \<Rightarrow> walRecord" where
  "rec_of_payload p = \<lparr>r_Type = payload_type p, r_Payload = Marshal p\<rparr>"

lemma fold_apply_record:
  "\<forall>p \<in> set L. payload_ok p \<Longrightarrow> fold_err apply_record (map rec_of_payload L) s = fold_err apply_payload L s"
proof (induction L arbitrary: s)
  case (Cons p L)
  have "apply_record (rec_of_payload p) s = apply_payload p s"
    using Unmarshal_Marshal [of p] Cons.prems payload_type_valid [of p] by (simp add: apply_record_def rec_of_payload_def)
  then show ?case using Cons by (simp split: sum.split)
qed simp

text \<open>The manager as the log's client: the logs it can be opened on.\<close>

definition broker_log :: "walRecord list \<Rightarrow> bool" where
  "broker_log R \<longleftrightarrow> (\<exists>L. R = map rec_of_payload L \<and> mlog_wf L \<and> (\<forall>p \<in> set L. payload_ok p))"

lemma broker_logI: "mlog_wf L \<Longrightarrow> \<forall>p \<in> set L. payload_ok p \<Longrightarrow> broker_log (map rec_of_payload L)"
  by (auto simp: broker_log_def)

interpretation managing: log_client apply_record "(new_manager, [])" broker_log
proof
  show "broker_log (take j R)" if R: "broker_log R" for R j
  proof -
    obtain L where L: "R = map rec_of_payload L" "mlog_wf L" "\<forall>p \<in> set L. payload_ok p" using R unfolding broker_log_def by blast
    then have "broker_log (map rec_of_payload (take j L))" by (intro broker_logI mlog_wf_take) (auto dest: in_set_takeD)
    then show ?thesis using L(1) by (simp add: take_map)
  qed
  show "\<exists>st'. fold_err apply_record R (new_manager, []) = Inr st'" if "broker_log R" for R
    using that mgr_replay fold_apply_record unfolding broker_log_def by metis
qed

lemma gget_finalize:
  "gget (mg_queues (finalize clock rs m)) n = map_option (finalize_queue (unixMilli clock)
     (case gget rs n of Some l \<Rightarrow> l | None \<Rightarrow> [])) (gget (mg_queues m) n)"
proof -
  have "map_of (map (\<lambda>(n, q). (n, f n q)) xs) n = map_option (f n) (map_of xs n)"
    for f :: "string \<Rightarrow> queue \<Rightarrow> queue" and xs
    by (induction xs) auto
  then show ?thesis by (simp add: finalize_def gget_def)
qed

text \<open>C9: Replay by queue. Applying the interleaved records of all queues in log order succeeds on a
  well-formed log and gives every created queue, and no other, the state that replaying its own
  records alone gives; the leases it remembers are those of the queue's own records.\<close>

theorem replay_by_queue:
  assumes "mlog_wf L" "\<forall>p \<in> set L. payload_ok p"
  shows "\<exists>m rs. fold_err apply_record (map rec_of_payload L) (new_manager, []) = Inr (m, rs) \<and>
    gkeys (mg_queues m) = created L \<and>
    (\<forall>n q. gget (mg_queues m) n = Some q \<longrightarrow>
       (\<exists>cfg rs'. PQueueCreate \<lparr>qp_Config = cfg\<rparr> \<in> set L \<and> c_Name cfg = n \<and>
          fold_err apply_queue (about n L) (newQueue cfg, []) = Inr (q, rs') \<and> gget rs n = gget rs' n))"
  using mgr_replay [OF assms(1)] fold_apply_record [OF assms(2)] by (auto simp: mgr_ok_def)

text \<open>A log with two queues and one message.\<close>

definition two_queues :: "payload list" where
  "two_queues =
     (let cfg = \<lambda>n. \<lparr>c_Name = n, c_Mode = FIFO, c_Priority = False, c_Delay = False,
            c_VisibilityTimeoutMS = 10, c_MaxAttempts = 2, c_DLQ = True\<rparr>
      in [PQueueCreate \<lparr>qp_Config = cfg ''a''\<rparr>, PQueueCreate \<lparr>qp_Config = cfg ''b''\<rparr>,
          PEnqueue \<lparr>ep_Queue = ''b'', ep_ID = ''m'', ep_Body = [], ep_Priority = 0, ep_Seq = 1,
            ep_EnqueuedAt = 0, ep_VisibleAt = 0, ep_DedupKey = []\<rparr>])"

lemma two_queues_wf: "mlog_wf two_queues" "\<forall>p \<in> set two_queues. payload_ok p" "created two_queues = {''a'', ''b''}"
proof -
  have n: "queueNamePattern ''a''" "queueNamePattern ''b''" by (simp_all add: queueNamePattern_def alnum_def Let_def)
  note d = mrec_wf_def normalize_def FIFO_def rec_wf_def about_def enq_ids_def
  have three: "mlog_wf [x, y, z]" if "mrec_wf [] x" "mrec_wf [x] y" "mrec_wf [x, y] z" for x y z
    using mlog_wf_snoc [OF mlog_wf_snoc [OF mlog_wf_snoc [OF mlog_wf_Nil, of x], of y], of z] that by simp
  show "mlog_wf two_queues"
    unfolding two_queues_def Let_def by (rule three) (use n in \<open>simp_all add: d Let_def created_Cons\<close>)
  have "ValidString ''a''" "ValidString ''b''" "ValidString ''m''" "ValidString ''fifo''"
    by (rule ValidString_ascii; simp)+
  then show "\<forall>p \<in> set two_queues. payload_ok p" by (simp add: two_queues_def Let_def in_i64_def FIFO_def)
  show "created two_queues = {''a'', ''b''}" by (auto simp: two_queues_def Let_def created_Cons)
qed

theorem replay_by_queue_witness:
  "\<exists>m rs q. fold_err apply_record (map rec_of_payload two_queues) (new_manager, []) = Inr (m, rs) \<and>
     gget (mg_queues m) ''a'' = Some q \<and> q_msgs q = []"
proof -
  obtain m rs where m: "fold_err apply_record (map rec_of_payload two_queues) (new_manager, []) = Inr (m, rs)"
      "gkeys (mg_queues m) = {''a'', ''b''}"
      "\<forall>n q. gget (mg_queues m) n = Some q \<longrightarrow>
       (\<exists>cfg rs'. PQueueCreate \<lparr>qp_Config = cfg\<rparr> \<in> set two_queues \<and> c_Name cfg = n \<and>
          fold_err apply_queue (about n two_queues) (newQueue cfg, []) = Inr (q, rs') \<and> gget rs n = gget rs' n)"
    using replay_by_queue [OF two_queues_wf(1,2)] two_queues_wf(3) by auto
  have "''a'' \<in> gkeys (mg_queues m)" using m(2) by simp
  then obtain q where q: "gget (mg_queues m) ''a'' = Some q" by (auto simp: gkeys_iff)
  have "about ''a'' two_queues = []" by (simp add: about_def two_queues_def Let_def)
  then have "q_msgs q = []" using m(3) [rule_format, OF q] by (auto simp: newQueue_def)
  then show ?thesis using m(1) q by blast
qed

section \<open>Creation and lookup\<close>


text \<open>The listing. Every queue is listed exactly once, in increasing order of the names.\<close>

lemma queues_listed_by_name:
  assumes "gwf (mg_queues m)" "\<forall>(n, q) \<in> set (mg_queues m). c_Name (q_cfg q) = n"
  shows "sorted (map (\<lambda>q. c_Name (q_cfg q)) (Queues m)) \<and> distinct (map (\<lambda>q. c_Name (q_cfg q)) (Queues m)) \<and>
    mset (Queues m) = mset (map snd (mg_queues m))"
proof -
  have "map (\<lambda>q. c_Name (q_cfg q)) (map snd (mg_queues m)) = map fst (mg_queues m)"
    using assms(2) by auto
  then have "distinct (map (\<lambda>q. c_Name (q_cfg q)) (map snd (mg_queues m)))" using assms(1) by (simp only: gwf_def)
  moreover have "mset (map (\<lambda>q. c_Name (q_cfg q)) (Queues m)) = mset (map (\<lambda>q. c_Name (q_cfg q)) (map snd (mg_queues m)))"
    by (simp add: Queues_def multiset.map_comp)
  ultimately have "distinct (map (\<lambda>q. c_Name (q_cfg q)) (Queues m))" using mset_eq_imp_distinct_iff by blast
  then show ?thesis by (simp add: Queues_def)
qed

end
