(* ===== verification/Api.thy ===== *)
theory Api
  imports Manager
begin

text \<open>
  \<open>internal/api/api.go\<close>: routing, the request and response shapes, the translation of errors into
  status codes, and every handler. A handler parses, calls one queue method and translates the
  result; the call is split where the method is (before and after its append), so a handler is a
  function from the request to the call or to a response, and one from the call's result to the
  response. Path values and the query come parsed, as \<open>net/http\<close> hands them over.

  What the standard library and the operating system write into an error text is a parameter
  \<open>detail\<close>, and so is the text of a JSON error; the texts the program itself defines are modelled.
\<close>

section \<open>Limits\<close>

definition maxBodyBytes :: nat where "maxBodyBytes = 2 ^ 20"
definition maxDequeueN :: int where "maxDequeueN = 1000"
definition maxDequeueWait :: int where "maxDequeueWait = 60 * 1000000000"

section \<open>Requests\<close>

record createQueueRequest =
  cr_Name :: string
  cr_Mode :: string
  cr_Priority :: bool
  cr_Delay :: bool
  cr_VisibilityTimeoutMS :: int
  cr_MaxAttempts :: int
  cr_DLQ :: bool

record enqueueRequest =
  er_Body :: string
  er_Priority :: int
  er_DelayMS :: int
  er_DedupKey :: string

record ackRequest =
  ar_LeaseToken :: string

record nackRequest =
  nr_LeaseToken :: string
  nr_RequeueDelayMS :: int

definition dec_createQueueRequest :: "(string \<times> json) list \<Rightarrow> createQueueRequest option" where
  "dec_createQueueRequest kvs =
     (if \<not> known [''name'', ''mode'', ''priority'', ''delay'', ''visibility_timeout_ms'', ''max_attempts'', ''dlq''] kvs
      then None
      else do {
        n \<leftarrow> field ''name'' dec_string kvs [];
        m \<leftarrow> field ''mode'' dec_string kvs [];
        p \<leftarrow> field ''priority'' dec_bool kvs False;
        d \<leftarrow> field ''delay'' dec_bool kvs False;
        t \<leftarrow> field ''visibility_timeout_ms'' dec_int kvs 0;
        a \<leftarrow> field ''max_attempts'' dec_int kvs 0;
        q \<leftarrow> field ''dlq'' dec_bool kvs False;
        Some \<lparr>cr_Name = n, cr_Mode = m, cr_Priority = p, cr_Delay = d, cr_VisibilityTimeoutMS = t,
          cr_MaxAttempts = a, cr_DLQ = q\<rparr>
      })"

definition dec_enqueueRequest :: "(string \<times> json) list \<Rightarrow> enqueueRequest option" where
  "dec_enqueueRequest kvs =
     (if \<not> known [''body'', ''priority'', ''delay_ms'', ''dedup_key''] kvs then None
      else do {
        b \<leftarrow> field ''body'' dec_string kvs [];
        p \<leftarrow> field ''priority'' dec_int kvs 0;
        d \<leftarrow> field ''delay_ms'' dec_int kvs 0;
        k \<leftarrow> field ''dedup_key'' dec_string kvs [];
        Some \<lparr>er_Body = b, er_Priority = p, er_DelayMS = d, er_DedupKey = k\<rparr>
      })"

definition dec_ackRequest :: "(string \<times> json) list \<Rightarrow> ackRequest option" where
  "dec_ackRequest kvs =
     (if \<not> known [''lease_token''] kvs then None
      else do { t \<leftarrow> field ''lease_token'' dec_string kvs []; Some \<lparr>ar_LeaseToken = t\<rparr> })"

definition dec_nackRequest :: "(string \<times> json) list \<Rightarrow> nackRequest option" where
  "dec_nackRequest kvs =
     (if \<not> known [''lease_token'', ''requeue_delay_ms''] kvs then None
      else do {
        t \<leftarrow> field ''lease_token'' dec_string kvs [];
        d \<leftarrow> field ''requeue_delay_ms'' dec_int kvs 0;
        Some \<lparr>nr_LeaseToken = t, nr_RequeueDelayMS = d\<rparr>
      })"

section \<open>Responses\<close>

record response =
  rs_status :: nat
  rs_type :: string
  rs_body :: string

text \<open>\<open>writeJSON\<close>: the encoder writes the value and a newline.\<close>

definition writeJSON :: "nat \<Rightarrow> json \<Rightarrow> response" where
  "writeJSON status body =
     \<lparr>rs_status = status, rs_type = ''application/json'', rs_body = print_json body @ [CHR 0x0A]\<rparr>"

definition noContent :: response where
  "noContent = \<lparr>rs_status = 204, rs_type = [], rs_body = []\<rparr>"

definition error_json :: "string \<Rightarrow> json" where
  "error_json msg = JObj [(''error'', JStr msg)]"

text \<open>\<open>err.Error()\<close>: the sentinels' own texts; what is wrapped or comes from below is \<open>detail\<close>.\<close>

fun Error :: "(queue_error \<Rightarrow> string) \<Rightarrow> queue_error \<Rightarrow> string" where
  "Error detail ErrQueueExists = ''queue already exists''"
| "Error detail ErrQueueNotFound = ''queue not found''"
| "Error detail ErrNotLeased = ''message is not leased''"
| "Error detail ErrBadLeaseToken = ''lease token does not match the current lease''"
| "Error detail ErrClosed = ''queue manager is closed''"
| "Error detail (ErrInvalidQueueCfg r) = ''invalid queue configuration: '' @ detail (ErrInvalidQueueCfg r)"
| "Error detail e = detail e"

fun fail_status :: "queue_error \<Rightarrow> nat" where
  "fail_status ErrQueueNotFound = 404"
| "fail_status ErrNotLeased = 404"
| "fail_status ErrQueueExists = 409"
| "fail_status ErrBadLeaseToken = 409"
| "fail_status (ErrInvalidQueueCfg r) = 400"
| "fail_status ErrClosed = 503"
| "fail_status e = 500"

definition fail :: "(queue_error \<Rightarrow> string) \<Rightarrow> queue_error \<Rightarrow> response" where
  "fail detail e = writeJSON (fail_status e) (error_json (Error detail e))"

definition badRequest :: "string \<Rightarrow> response" where
  "badRequest msg = writeJSON 400 (error_json msg)"

section \<open>Decoding\<close>

text \<open>
  \<open>decode\<close>: the reader gives out \<open>maxBodyBytes\<close> bytes and then fails, so a value has to end before;
  a value that is neither an object nor an array ends only at the byte behind it or at the end of
  the body.
\<close>

definition read_value :: "string \<Rightarrow> json option" where
  "read_value body =
     (case next_value (take maxBodyBytes body) of
        None \<Rightarrow> None
      | Some (v, rest) \<Rightarrow>
          if rest = [] \<and> maxBodyBytes < length body \<and> \<not> (case v of JObj _ \<Rightarrow> True | JArr _ \<Rightarrow> True | _ \<Rightarrow> False)
          then None else Some v)"

definition decode :: "((string \<times> json) list \<Rightarrow> 'a option) \<Rightarrow> string \<Rightarrow> string \<Rightarrow> response + 'a" where
  "decode dec jsonErr body =
     (case do { v \<leftarrow> read_value body; kvs \<leftarrow> members v; dec kvs } of
        None \<Rightarrow> Inl (writeJSON 400 (error_json (''invalid request body: '' @ jsonErr)))
      | Some x \<Rightarrow> Inr x)"

text \<open>\<open>strconv.Atoi\<close>.\<close>

definition Atoi :: "string \<Rightarrow> int option" where
  "Atoi s = (case s of c # cs \<Rightarrow> if c = CHR ''+'' \<and> (cs = [] \<or> hd cs \<noteq> CHR ''-'') then ParseInt cs else ParseInt s | [] \<Rightarrow> None)"

definition Query_Get :: "(string \<times> string) list \<Rightarrow> string \<Rightarrow> string" where
  "Query_Get query name = (case map_of query name of Some v \<Rightarrow> v | None \<Rightarrow> [])"

definition intParam :: "(string \<times> string) list \<Rightarrow> string \<Rightarrow> int \<Rightarrow> int \<Rightarrow> int \<Rightarrow> string + int" where
  "intParam query name dflt lo hi =
     (let raw = Query_Get query name in
      if raw = [] then Inr dflt
      else case Atoi raw of
          None \<Rightarrow> Inl (name @ '' must be an integer'')
        | Some v \<Rightarrow>
            if v < lo then Inl (name @ '' must be at least '' @ show_int lo)
            else Inr (if v > hi then hi else v))"

text \<open>\<open>time.Duration(ms) * time.Millisecond\<close>, in 64 bits.\<close>

definition millis :: "int \<Rightarrow> int" where
  "millis ms = i64 (ms * 1000000)"

section \<open>Handlers\<close>

definition createQueue_request :: "string \<Rightarrow> string \<Rightarrow> response + config" where
  "createQueue_request jsonErr body =
     (case decode dec_createQueueRequest jsonErr body of
        Inl r \<Rightarrow> Inl r
      | Inr req \<Rightarrow> Inr \<lparr>c_Name = cr_Name req, c_Mode = cr_Mode req, c_Priority = cr_Priority req,
          c_Delay = cr_Delay req, c_VisibilityTimeoutMS = cr_VisibilityTimeoutMS req,
          c_MaxAttempts = cr_MaxAttempts req, c_DLQ = cr_DLQ req\<rparr>)"

definition createQueue_response :: "(queue_error \<Rightarrow> string) \<Rightarrow> queue_error + queue \<Rightarrow> response" where
  "createQueue_response detail res =
     (case res of Inl e \<Rightarrow> fail detail e | Inr q \<Rightarrow> writeJSON 201 (enc_config (q_cfg q)))"

definition enc_stats :: "queueStats \<Rightarrow> json" where
  "enc_stats s = JObj [(''name'', JStr (s_Name s)), (''config'', enc_config (s_Config s)),
     (''depth'', jint (int (s_Depth s))), (''delayed'', jint (int (s_Delayed s))),
     (''in_flight'', jint (int (s_InFlight s))), (''dlq'', jint (int (s_DLQ s))), (''total'', jint (int (s_Total s))),
     (''oldest_age_ms'', jint (s_OldestAgeMS s)),
     (''enqueued'', juint (n_enqueued (s_cnt s))), (''dequeued'', juint (n_dequeued (s_cnt s))),
     (''acked'', juint (n_acked (s_cnt s))), (''nacked'', juint (n_nacked (s_cnt s))),
     (''expired'', juint (n_expired (s_cnt s))), (''dlq_moved'', juint (n_dlqMoved (s_cnt s))),
     (''deduped'', juint (n_deduped (s_cnt s)))]"

text \<open>Taking a queue's statistics promotes its due messages; the queue is put back under its name.\<close>

fun stats_of :: "int \<Rightarrow> queue list \<Rightarrow> manager \<Rightarrow> manager \<times> queueStats list" where
  "stats_of clock [] m = (m, [])"
| "stats_of clock (q # qs) m =
     (let (q', st) = Stats clock q;
          (m', sts) = stats_of clock qs (m\<lparr>mg_queues := gput (c_Name (q_cfg q)) q' (mg_queues m)\<rparr>)
      in (m', st # sts))"

definition listQueues :: "int \<Rightarrow> manager \<Rightarrow> manager \<times> response" where
  "listQueues clock m =
     (case stats_of clock (Queues m) m of (m', sts) \<Rightarrow> (m', writeJSON 200 (JArr (map enc_stats sts))))"

definition queueStats_handler :: "(queue_error \<Rightarrow> string) \<Rightarrow> int \<Rightarrow> string \<Rightarrow> manager \<Rightarrow> manager \<times> response" where
  "queueStats_handler detail clock name m =
     (case Queue_lookup name m of
        Inl e \<Rightarrow> (m, fail detail e)
      | Inr q \<Rightarrow> (case stats_of clock [q] m of (m', sts) \<Rightarrow> (m', writeJSON 200 (enc_stats (hd sts)))))"

text \<open>The arguments of \<open>Enqueue\<close>: body, priority, delay, dedup key.\<close>

definition enqueue_request :: "(queue_error \<Rightarrow> string) \<Rightarrow> string \<Rightarrow> string \<Rightarrow> string \<Rightarrow> manager \<Rightarrow>
    response + (queue \<times> byte list \<times> int \<times> int \<times> string)" where
  "enqueue_request detail jsonErr name body m =
     (case Queue_lookup name m of
        Inl e \<Rightarrow> Inl (fail detail e)
      | Inr q \<Rightarrow>
          (case decode dec_enqueueRequest jsonErr body of
             Inl r \<Rightarrow> Inl r
           | Inr req \<Rightarrow> Inr (q, to_bytes (er_Body req), er_Priority req, millis (er_DelayMS req), er_DedupKey req)))"

definition enqueue_response :: "(queue_error \<Rightarrow> string) \<Rightarrow> queue_error + (message \<times> bool) \<Rightarrow> response" where
  "enqueue_response detail res =
     (case res of
        Inl e \<Rightarrow> fail detail e
      | Inr (msg, deduped) \<Rightarrow>
          writeJSON 201 (JObj [(''id'', JStr (m_ID msg)), (''seq'', juint (m_Seq msg)),
            (''visible_at'', jint (m_VisibleAt msg)), (''deduped'', JBool deduped)]))"

definition dequeue_request :: "(queue_error \<Rightarrow> string) \<Rightarrow> string \<Rightarrow> (string \<times> string) list \<Rightarrow> manager \<Rightarrow>
    response + (queue \<times> int \<times> int)" where
  "dequeue_request detail name query m =
     (case Queue_lookup name m of
        Inl e \<Rightarrow> Inl (fail detail e)
      | Inr q \<Rightarrow>
          (case intParam query ''n'' 1 1 maxDequeueN of
             Inl msg \<Rightarrow> Inl (badRequest msg)
           | Inr n \<Rightarrow>
               (case intParam query ''wait_ms'' 0 0 (Milliseconds maxDequeueWait) of
                  Inl msg \<Rightarrow> Inl (badRequest msg)
                | Inr waitMS \<Rightarrow> Inr (q, n, millis waitMS))))"

definition enc_delivery :: "delivery \<Rightarrow> json" where
  "enc_delivery d = JObj [(''id'', JStr (m_ID (d_Message d))), (''body'', JStr (to_string (m_Body (d_Message d)))),
     (''priority'', jint (m_Priority (d_Message d))), (''seq'', juint (m_Seq (d_Message d))),
     (''attempts'', jint (m_Attempts (d_Message d))), (''enqueued_at'', jint (m_EnqueuedAt (d_Message d))),
     (''lease_token'', JStr (d_LeaseToken d)), (''lease_expires_at'', jint (d_ExpiresAt d))]"

text \<open>Nobody is left to answer when the request's own context ended the wait.\<close>

definition dequeue_response :: "(queue_error \<Rightarrow> string) \<Rightarrow> queue_error + delivery list \<Rightarrow> response option" where
  "dequeue_response detail res =
     (case res of
        Inl e \<Rightarrow> if e = ErrCtx then None else Some (fail detail e)
      | Inr ds \<Rightarrow> Some (writeJSON 200 (JObj [(''messages'', JArr (map enc_delivery ds))])))"

definition ack_request :: "(queue_error \<Rightarrow> string) \<Rightarrow> string \<Rightarrow> string \<Rightarrow> string \<Rightarrow> manager \<Rightarrow>
    response + (queue \<times> string)" where
  "ack_request detail jsonErr name body m =
     (case Queue_lookup name m of
        Inl e \<Rightarrow> Inl (fail detail e)
      | Inr q \<Rightarrow>
          (case decode dec_ackRequest jsonErr body of Inl r \<Rightarrow> Inl r | Inr req \<Rightarrow> Inr (q, ar_LeaseToken req)))"

definition ack_response :: "(queue_error \<Rightarrow> string) \<Rightarrow> queue_error option \<Rightarrow> response" where
  "ack_response detail err = (case err of Some e \<Rightarrow> fail detail e | None \<Rightarrow> noContent)"

definition nack_request :: "(queue_error \<Rightarrow> string) \<Rightarrow> string \<Rightarrow> string \<Rightarrow> string \<Rightarrow> manager \<Rightarrow>
    response + (queue \<times> string \<times> int)" where
  "nack_request detail jsonErr name body m =
     (case Queue_lookup name m of
        Inl e \<Rightarrow> Inl (fail detail e)
      | Inr q \<Rightarrow>
          (case decode dec_nackRequest jsonErr body of
             Inl r \<Rightarrow> Inl r
           | Inr req \<Rightarrow> Inr (q, nr_LeaseToken req, millis (nr_RequeueDelayMS req))))"

definition nack_response :: "(queue_error \<Rightarrow> string) \<Rightarrow> queue_error option \<Rightarrow> response" where
  "nack_response detail err = (case err of Some e \<Rightarrow> fail detail e | None \<Rightarrow> noContent)"

definition dashboard :: "string \<Rightarrow> response" where
  "dashboard index = \<lparr>rs_status = 200, rs_type = ''text/html; charset=utf-8'', rs_body = index\<rparr>"

definition healthz :: "int \<Rightarrow> response" where
  "healthz uptime = \<lparr>rs_status = 200, rs_type = ''text/plain; charset=utf-8'',
     rs_body = ''ok'' @ [CHR 0x0A] @ ''uptime_seconds '' @ show_int (go_div uptime 1000000000) @ [CHR 0x0A]\<rparr>"

text \<open>\<open>crash.go\<close>: the answer that is flushed before the process kills itself.\<close>

definition crash_response :: response where
  "crash_response = \<lparr>rs_status = 200, rs_type = ''application/json'',
     rs_body = print_json (JObj [(''status'', JStr ''killing'')]) @ [CHR 0x0A]\<rparr>"

section \<open>Routing\<close>

datatype handler =
    HCreateQueue | HListQueues | HQueueStats string | HEnqueue string | HDequeue string
  | HAck string string | HNack string string | HDashboard | HHealthz | HMetrics | HCrash

text \<open>
  The patterns of \<open>New\<close>, on the method and the segments of the path. A literal segment is more
  specific than a wildcard; a pattern for GET also serves HEAD; a wildcard does not match an empty
  segment.
\<close>

definition route :: "bool \<Rightarrow> string \<Rightarrow> string list \<Rightarrow> handler option" where
  "route unsafeDemo verb path =
     (let get = (verb = ''GET'' \<or> verb = ''HEAD''); post = (verb = ''POST'') in
      case path of
        [] \<Rightarrow> if get then Some HDashboard else None
      | [a] \<Rightarrow>
          if a = ''queues'' then (if post then Some HCreateQueue else if get then Some HListQueues else None)
          else if a = ''healthz'' \<and> get then Some HHealthz
          else if a = ''metrics'' \<and> get then Some HMetrics
          else None
      | [a, b] \<Rightarrow> if unsafeDemo \<and> post \<and> a = ''debug'' \<and> b = ''crash'' then Some HCrash else None
      | [a, q, c] \<Rightarrow>
          if a \<noteq> ''queues'' \<or> q = [] then None
          else if get \<and> c = ''stats'' then Some (HQueueStats q)
          else if post \<and> c = ''messages'' then Some (HEnqueue q)
          else None
      | [a, q, c, d] \<Rightarrow>
          if a = ''queues'' \<and> q \<noteq> [] \<and> c = ''messages'' \<and> d = ''dequeue'' \<and> post then Some (HDequeue q) else None
      | [a, q, c, i, d] \<Rightarrow>
          if a = ''queues'' \<and> q \<noteq> [] \<and> c = ''messages'' \<and> i \<noteq> [] \<and> post then
            (if d = ''ack'' then Some (HAck q i) else if d = ''nack'' then Some (HNack q i) else None)
          else None
      | _ \<Rightarrow> None)"

section \<open>What reaches the queue\<close>

lemma field_string_utf8:
  "field name dec_string kvs cur = Some x \<Longrightarrow> json_utf8 (JObj kvs) \<Longrightarrow> ValidString cur \<Longrightarrow> ValidString x"
proof (induction kvs arbitrary: cur)
  case (Cons kv kvs)
  obtain k v where kv: "kv = (k, v)" by (cases kv)
  have v: "dec_string v cur = Some y \<Longrightarrow> ValidString y" for y
    using Cons.prems(2,3) kv by (cases v) auto
  show ?case using Cons v kv by (auto split: if_splits bind_splits)
qed simp

lemma ParseInt_range: "ParseInt s = Some z \<Longrightarrow> in_i64 z"
  by (auto simp: ParseInt_def split: list.splits if_splits bind_splits)

lemma field_int_range: "field name dec_int kvs cur = Some x \<Longrightarrow> in_i64 cur \<Longrightarrow> in_i64 x"
proof (induction kvs arbitrary: cur)
  case (Cons kv kvs)
  obtain k v where kv: "kv = (k, v)" by (cases kv)
  have v: "dec_int v cur = Some y \<Longrightarrow> in_i64 y" for y
    using Cons.prems(2) ParseInt_range by (cases v) auto
  show ?case using Cons v kv by (auto split: if_splits bind_splits)
qed simp

lemma decode_InrD:
  assumes "decode dec jsonErr body = Inr x"
  obtains kvs where "dec kvs = Some x" "json_utf8 (JObj kvs)"
proof -
  obtain v kvs where v: "read_value body = Some v" "members v = Some kvs" "dec kvs = Some x"
    using assms by (auto simp: decode_def split: option.splits bind_splits)
  have "json_utf8 v" using v(1) next_value_utf8 by (auto simp: read_value_def split: option.splits if_splits)
  then have "json_utf8 (JObj kvs)" using v(2) by (cases v) auto
  then show thesis using that v(3) by blast
qed

lemma in_i64_zero [simp]: "in_i64 0" "in_i64 1"
  by (simp_all add: in_i64_def)

lemma enqueue_request_sane:
  assumes "enqueue_request detail jsonErr name body m = Inr (q, b, prio, delay, key)"
  shows "ValidString (to_string b)" "ValidString key" "in_i64 prio" "in_i64 delay"
proof -
  obtain req where r: "decode dec_enqueueRequest jsonErr body = Inr req" "b = to_bytes (er_Body req)"
      "prio = er_Priority req" "delay = millis (er_DelayMS req)" "key = er_DedupKey req"
    using assms by (auto simp: enqueue_request_def split: sum.splits)
  obtain kvs where k: "dec_enqueueRequest kvs = Some req" "json_utf8 (JObj kvs)" using decode_InrD [OF r(1)] .
  have f: "field ''body'' dec_string kvs [] = Some (er_Body req)" "field ''priority'' dec_int kvs 0 = Some (er_Priority req)"
      "field ''dedup_key'' dec_string kvs [] = Some (er_DedupKey req)"
    using k(1) by (auto simp: dec_enqueueRequest_def split: if_splits bind_splits)
  show "ValidString (to_string b)" "ValidString key" "in_i64 prio" "in_i64 delay"
    using field_string_utf8 [OF f(1) k(2)] field_string_utf8 [OF f(3) k(2)] field_int_range [OF f(2)] r
    by (simp_all add: millis_def)
qed

text \<open>The texts of the program: field names and literals are ASCII.\<close>

lemma response_names [simp]:
  "ValidString ''messages''" "ValidString ''enqueued_at''" "ValidString ''lease_token''" "ValidString ''lease_expires_at''"
  by (rule ValidString_ascii; simp)+

definition delivery_ok :: "delivery \<Rightarrow> bool" where
  "delivery_ok d \<longleftrightarrow> ValidString (m_ID (d_Message d)) \<and> ValidString (to_string (m_Body (d_Message d))) \<and>
     ValidString (d_LeaseToken d)"

lemma dequeue_body_parses:
  assumes "\<forall>d \<in> set ds. delivery_ok d"
  shows "parse_json (print_json (JObj [(''messages'', JArr (map enc_delivery ds))])) =
    Some (JObj [(''messages'', JArr (map enc_delivery ds))])"
  using assms by (intro parse_print) (auto simp: maxNestingDepth_def enc_delivery_def delivery_ok_def)

lemma body_member: "members (enc_delivery d) = Some kvs \<Longrightarrow> field ''body'' dec_string kvs [] = Some (to_string (m_Body (d_Message d)))"
proof -
  assume "members (enc_delivery d) = Some kvs"
  moreover have "foldName ''lease_token'' \<noteq> ''BODY''" "foldName ''lease_expires_at'' \<noteq> ''BODY''" "foldName ''enqueued_at'' \<noteq> ''BODY''"
    by (simp_all add: foldName_ascii)
  ultimately show ?thesis by (auto simp: enc_delivery_def)
qed



text \<open>C32: The parameters of a dequeue stay within their limits: between 1 and 1000 messages, and a wait
  between 0 and 60 seconds, whatever the query says; a value that is not a number or too small is
  answered with 400.\<close>

theorem dequeue_params_bounded:
  assumes "dequeue_request detail name query m = Inr (q, n, wait)"
  shows "1 \<le> n \<and> n \<le> 1000 \<and> 0 \<le> wait \<and> wait \<le> 60 * 1000000000 \<and> gget (mg_queues m) name = Some q"
proof -
  obtain w where w: "intParam query ''n'' 1 1 maxDequeueN = Inr n"
      "intParam query ''wait_ms'' 0 0 (Milliseconds maxDequeueWait) = Inr w" "wait = millis w"
      "Queue_lookup name m = Inr q"
    using assms by (auto simp: dequeue_request_def split: sum.splits)
  have ip: "lo \<le> v \<and> v \<le> hi" if "intParam query k dflt lo hi = Inr v" "lo \<le> dflt" "dflt \<le> hi" for k dflt lo hi v
    using that by (auto simp: intParam_def Let_def split: if_splits option.splits)
  have ms: "Milliseconds maxDequeueWait = 60000" by (simp add: Milliseconds_def maxDequeueWait_def go_div_nonneg)
  have "0 \<le> w" "w \<le> 60000" using ip [OF w(2)] ms by auto
  moreover from this have "in_i64 (w * 1000000)" by (simp add: in_i64_def)
  ultimately have "0 \<le> wait" "wait \<le> 60 * 1000000000" using w(3) by (auto simp: millis_def)
  then show ?thesis using ip [OF w(1)] w(4) by (auto simp: maxDequeueN_def Queue_lookup_def split: option.splits)
qed

theorem dequeue_params_bounded_witness:
  "\<exists>m q. dequeue_request (\<lambda>_. []) ''a'' [(''n'', ''5000''), (''wait_ms'', ''7'')] m = Inr (q, 1000, 7000000) \<and>
     (1000 :: int) \<le> 1000"
proof -
  let ?m = "\<lparr>mg_queues = [(''a'', newQueue zero_config)], mg_closed = False\<rparr>"
  have r: "dequeue_request (\<lambda>_. []) ''a'' [(''n'', ''5000''), (''wait_ms'', ''7'')] ?m = Inr (newQueue zero_config, 1000, 7000000)"
    by (simp add: dequeue_request_def Queue_lookup_def gget_def intParam_def Query_Get_def Atoi_def ParseInt_def
        digit_val_def maxDequeueN_def maxDequeueWait_def Milliseconds_def go_div_nonneg millis_def in_i64_def)
  from dequeue_params_bounded [OF r] show ?thesis using r by blast
qed



end
