(* ===== verification/Metrics.thy ===== *)
theory Metrics
  imports Api
begin

text \<open>
  \<open>internal/api/metrics.go\<close>: the Prometheus text. The rendering of the quotient of two counters with
  three decimals (\<open>%.3f\<close> of a \<open>float64\<close>) is the parameter \<open>ratio3\<close>; the rest is written out.
\<close>

record queueSample =
  sm_Name :: string
  sm_Depth :: int
  sm_Delayed :: int
  sm_InFlight :: int
  sm_DLQ :: int
  sm_Total :: int
  sm_OldestAgeMS :: int
  sm_Enqueued :: u64
  sm_Dequeued :: u64
  sm_Acked :: u64
  sm_Nacked :: u64
  sm_Expired :: u64
  sm_DLQMoved :: u64
  sm_Deduped :: u64

definition sample_of :: "queueStats \<Rightarrow> queueSample" where
  "sample_of st = \<lparr>sm_Name = s_Name st, sm_Depth = int (s_Depth st), sm_Delayed = int (s_Delayed st),
     sm_InFlight = int (s_InFlight st), sm_DLQ = int (s_DLQ st), sm_Total = int (s_Total st),
     sm_OldestAgeMS = s_OldestAgeMS st, sm_Enqueued = n_enqueued (s_cnt st), sm_Dequeued = n_dequeued (s_cnt st),
     sm_Acked = n_acked (s_cnt st), sm_Nacked = n_nacked (s_cnt st), sm_Expired = n_expired (s_cnt st),
     sm_DLQMoved = n_dlqMoved (s_cnt st), sm_Deduped = n_deduped (s_cnt st)\<rparr>"

definition sampleQueues :: "int \<Rightarrow> manager \<Rightarrow> manager \<times> queueSample list" where
  "sampleQueues clock m = apsnd (map sample_of) (stats_of clock (Queues m) m)"

definition gauges :: "(string \<times> string \<times> (queueSample \<Rightarrow> int)) list" where
  "gauges =
    [(''stitch_queue_depth'', ''Messages ready for delivery right now.'', sm_Depth),
     (''stitch_queue_delayed'', ''Messages waiting for their visibility time.'', sm_Delayed),
     (''stitch_queue_in_flight'', ''Messages leased to a consumer and not yet settled.'', sm_InFlight),
     (''stitch_queue_dlq'', ''Messages in the dead-letter queue.'', sm_DLQ),
     (''stitch_queue_total'', ''Live messages in any state, dead-lettered included.'', sm_Total),
     (''stitch_queue_oldest_age_ms'', ''Age of the oldest live message in milliseconds.'', sm_OldestAgeMS)]"

definition counter_families :: "(string \<times> string \<times> (queueSample \<Rightarrow> u64)) list" where
  "counter_families =
    [(''stitch_queue_enqueued_total'', ''Messages accepted and fsynced.'', sm_Enqueued),
     (''stitch_queue_dequeued_total'', ''Leases granted.'', sm_Dequeued),
     (''stitch_queue_acked_total'', ''Messages acknowledged and removed.'', sm_Acked),
     (''stitch_queue_nacked_total'', ''Messages returned by a consumer.'', sm_Nacked),
     (''stitch_queue_lease_expired_total'', ''Leases reclaimed after their visibility timeout.'', sm_Expired),
     (''stitch_queue_dlq_moved_total'', ''Messages that ran out of attempts.'', sm_DLQMoved),
     (''stitch_queue_deduped_total'', ''Enqueues collapsed onto an earlier message.'', sm_Deduped)]"

definition nl :: string where "nl = [CHR 0x0A]"

definition head_lines :: "string \<Rightarrow> string \<Rightarrow> string \<Rightarrow> string" where
  "head_lines name help kind = ''# HELP '' @ name @ '' '' @ help @ nl @ ''# TYPE '' @ name @ '' '' @ kind @ nl"

text \<open>\<open>%q\<close> of a queue name: letters, digits, dash and underscore need no escape.\<close>

definition sample_line :: "string \<Rightarrow> string \<Rightarrow> int \<Rightarrow> string" where
  "sample_line name qname v = name @ ''{queue='' @ [quote] @ qname @ [quote] @ ''} '' @ show_int v @ nl"

definition family_text :: "string \<Rightarrow> queueSample list \<Rightarrow> string \<times> string \<times> (queueSample \<Rightarrow> int) \<Rightarrow> string" where
  "family_text kind samples = (\<lambda>(name, help, value).
     head_lines name help kind @ concat (map (\<lambda>st. sample_line name (sm_Name st) (value st)) samples))"

definition wal_text :: "(u64 \<Rightarrow> u64 \<Rightarrow> string) \<Rightarrow> walStats \<Rightarrow> string" where
  "wal_text ratio3 ws =
     head_lines ''stitch_wal_records_total'' ''Records appended to the write-ahead log.'' ''counter'' @
     ''stitch_wal_records_total '' @ show_int (uint (ws_Appends ws)) @ nl @
     head_lines ''stitch_wal_fsyncs_total'' ''Batches committed, one fsync each.'' ''counter'' @
     ''stitch_wal_fsyncs_total '' @ show_int (uint (ws_Batches ws)) @ nl @
     head_lines ''stitch_wal_bytes_total'' ''Bytes written to the log.'' ''counter'' @
     ''stitch_wal_bytes_total '' @ show_int (uint (ws_Bytes ws)) @ nl @
     head_lines ''stitch_wal_records_per_fsync'' ''Average group commit size.'' ''gauge'' @
     ''stitch_wal_records_per_fsync '' @
     (if ws_Batches ws > 0 then ratio3 (ws_Appends ws) (ws_Batches ws) else ''0.000'') @ nl"

definition metrics :: "(u64 \<Rightarrow> u64 \<Rightarrow> string) \<Rightarrow> int \<Rightarrow> walLog \<Rightarrow> manager \<Rightarrow> manager \<times> response" where
  "metrics ratio3 clock l m =
     (case sampleQueues clock m of (m', samples) \<Rightarrow>
       (m', \<lparr>rs_status = 200, rs_type = ''text/plain; version=0.0.4; charset=utf-8'',
          rs_body = concat (map (family_text ''gauge'' samples) gauges) @
            concat (map (\<lambda>(name, help, value). family_text ''counter'' samples (name, help, \<lambda>st. uint (value st)))
              counter_families) @
            wal_text ratio3 (WALStats l)\<rparr>))"

section \<open>What is sampled\<close>

lemma stats_of_samples: "snd (stats_of clock qs m) = map (\<lambda>q. snd (Stats clock q)) qs"
  by (induction qs arbitrary: m) (simp_all add: split_beta Let_def)


end
