(* ===== verification/WalClose.thy ===== *)
theory WalClose
  imports WalLog
begin

text \<open>
  \<open>internal/wal/wal.go\<close>: the writer's loop to its end, and \<open>Close\<close>. Once \<open>Close\<close> has marked the log no
  request enters the channel any more; the writer commits what is queued, batch by batch, and returns
  when the channel is empty. \<open>ios\<close> gives the outcomes of the system calls of each round.
\<close>

section \<open>The writer's loop\<close>

lemma run_once_shrinks:
  assumes "run_once io l fs = Some (l', fs', rep)"
  shows "length (l_reqs l') < length (l_reqs l)"
    and "map rq_id (l_reqs l) = map fst rep @ map rq_id (l_reqs l')"
    and "l_closed l' = l_closed l"
proof -
  obtain batch rest where b: "next_batch (l_opts l) (l_reqs l) = Some (batch, rest)"
    "commit io batch (l\<lparr>l_reqs := rest\<rparr>) fs = (l', fs', rep)"
    using assms by (auto simp: run_once_def split: option.splits)
  have q: "l_reqs l = batch @ rest" "batch \<noteq> []" using next_batch_split [OF b(1)] by auto
  have c: "l_reqs l' = rest" "l_closed l' = l_closed l" using commit_keeps [OF b(2)] by simp_all
  have "map fst rep = map rq_id batch"
    using b(2) by (auto simp: commit_def Let_def split: option.splits prod.splits if_splits)
  then show "length (l_reqs l') < length (l_reqs l)" "map rq_id (l_reqs l) = map fst rep @ map rq_id (l_reqs l')"
    "l_closed l' = l_closed l" using q c by simp_all
qed

function run :: "(nat \<Rightarrow> commit_io) \<Rightarrow> nat \<Rightarrow> walLog \<Rightarrow> fsys \<Rightarrow>
    walLog \<times> fsys \<times> (nat \<times> wal_error option) list" where
  "run ios i l fs =
     (case run_once (ios i) l fs of
        None \<Rightarrow> (l, fs, [])
      | Some (l', fs', rep) \<Rightarrow> (case run ios (Suc i) l' fs' of (l'', fs'', rep') \<Rightarrow> (l'', fs'', rep @ rep')))"
  by pat_completeness auto
termination
  by (relation "measure (\<lambda>(ios, i, l, fs). length (l_reqs l))") (auto dest: run_once_shrinks(1))

declare run.simps [simp del]

definition Close :: "(nat \<Rightarrow> commit_io) \<Rightarrow> nat option \<Rightarrow> walLog \<Rightarrow> fsys \<Rightarrow>
    walLog \<times> fsys \<times> (nat \<times> wal_error option) list \<times> wal_error option" where
  "Close ios closeErr l fs =
     (case Close_begin l of
        None \<Rightarrow> (l, fs, [], None)
      | Some l1 \<Rightarrow> (case run ios 0 l1 fs of (l2, fs2, rep) \<Rightarrow> (l2, fs2, rep, Close_result closeErr l2)))"

section \<open>Closing answers everybody\<close>

lemma run_once_None: "run_once io l fs = None \<longleftrightarrow> l_reqs l = []"
  by (simp add: run_once_def next_batch_def split: option.split list.split)

lemma run_induct [consumes 1, case_names stop turn]:
  assumes "run ios i l fs = (l', fs', rep)"
    and "\<And>i l fs. l_reqs l = [] \<Longrightarrow> P i l fs l fs []"
    and "\<And>i l fs l1 fs1 rep1 l' fs' rep2. \<lbrakk>run_once (ios i) l fs = Some (l1, fs1, rep1);
        P (Suc i) l1 fs1 l' fs' rep2\<rbrakk> \<Longrightarrow> P i l fs l' fs' (rep1 @ rep2)"
  shows "P i l fs l' fs' rep"
  using assms(1)
proof (induction "length (l_reqs l)" arbitrary: i l fs rep rule: less_induct)
  case less
  show ?case
  proof (cases "run_once (ios i) l fs")
    case None
    moreover have "l_reqs l = []" using None by (simp add: run_once_None)
    ultimately show ?thesis using less.prems assms(2) [of l i fs] by (subst (asm) run.simps) simp
  next
    case (Some x)
    obtain l1 fs1 rep1 where x: "x = (l1, fs1, rep1)" by (cases x)
    obtain rep2 where r: "run ios (Suc i) l1 fs1 = (l', fs', rep2)" "rep = rep1 @ rep2"
      using less.prems Some x by (subst (asm) run.simps) (auto split: prod.splits)
    have "P (Suc i) l1 fs1 l' fs' rep2" using less.hyps [OF run_once_shrinks(1) r(1)] Some x by blast
    then show ?thesis using assms(3) Some x r(2) by blast
  qed
qed

lemma run_answers:
  assumes "run ios i l fs = (l', fs', rep)"
  shows "l_reqs l' = [] \<and> map fst rep = map rq_id (l_reqs l) \<and> l_closed l' = l_closed l"
  using assms
proof (induction rule: run_induct)
  case (turn i l fs l1 fs1 rep1 l' fs' rep2)
  then show ?case using run_once_shrinks(2,3) [OF turn(1)] by simp
qed simp

lemma commit_answers:
  assumes "commit io batch l fs = (l', fs', rep)" "(k, Some e) \<in> set rep"
  shows "l_fatal l' \<noteq> None"
  using assms by (auto simp: commit_def reply_def Let_def split: option.splits prod.splits if_splits)

lemma commit_keeps_fatal: "commit io batch l fs = (l', fs', rep) \<Longrightarrow> l_fatal l \<noteq> None \<Longrightarrow> l_fatal l' \<noteq> None"
  by (auto simp: commit_def)

lemma run_failed:
  assumes "run ios i l fs = (l', fs', rep)"
  shows "l_fatal l \<noteq> None \<or> (\<exists>k e. (k, Some e) \<in> set rep) \<longrightarrow> l_fatal l' \<noteq> None"
  using assms
proof (induction rule: run_induct)
  case (turn i l fs l1 fs1 rep1 l' fs' rep2)
  obtain batch rest where c: "commit (ios i) batch (l\<lparr>l_reqs := rest\<rparr>) fs = (l1, fs1, rep1)"
    using turn(1) by (auto simp: run_once_def split: option.splits)
  show ?case using turn(2) commit_answers [OF c] commit_keeps_fatal [OF c] by auto
qed simp

lemma Close_spec:
  assumes "\<not> l_closed l" "Close ios closeErr l fs = (l', fs', rep, err)"
  shows "l_reqs l' = [] \<and> map fst rep = map rq_id (l_reqs l) \<and>
    (err = None \<longrightarrow> (\<forall>a \<in> set rep. snd a = None) \<and> l_fatal l' = None) \<and>
    (valid_type typ \<and> length payload \<le> maxRecordSize \<longrightarrow> Append_send rid typ payload l' = Inl WalErrClosed) \<and>
    Close ios' closeErr' l' fs' = (l', fs', [], None)"
proof -
  have r: "run ios 0 (l\<lparr>l_closed := True\<rparr>) fs = (l', fs', rep)" and e: "err = Close_result closeErr l'"
    using assms by (auto simp: Close_def Close_begin_def split: prod.splits)
  have a: "l_reqs l' = []" "map fst rep = map rq_id (l_reqs l)" "l_closed l'" using run_answers [OF r] by simp_all
  have "l_fatal l' = None" if "err = None" using that e by (simp add: Close_result_def split: option.splits)
  then have "(\<forall>a \<in> set rep. snd a = None) \<and> l_fatal l' = None" if "err = None"
    using that run_failed [OF r] by fastforce
  then show ?thesis using a by (simp add: Append_send_def Close_def Close_begin_def)
qed

text \<open>C12: Closing ends and answers everybody. \<open>Close\<close> of an open log comes to an end: every request queued
  is answered exactly once, in order, the channel is left empty, and every later append is refused. If
  \<open>Close\<close> reports no error, every one of these requests was committed. A second \<open>Close\<close> does nothing.\<close>

theorem close_answers_all:
  assumes "\<not> l_closed l" "Close ios closeErr l fs = (l', fs', rep, err)"
  shows "l_reqs l' = [] \<and> map fst rep = map rq_id (l_reqs l) \<and>
    (err = None \<longrightarrow> (\<forall>a \<in> set rep. snd a = None) \<and> l_fatal l' = None) \<and>
    (valid_type typ \<and> length payload \<le> maxRecordSize \<longrightarrow> Append_send rid typ payload l' = Inl WalErrClosed) \<and>
    Close ios' closeErr' l' fs' = (l', fs', [], None)"
  using assms by (rule Close_spec)

theorem close_answers_all_witness:
  "\<exists>ios l fs l' fs' rep err. length (l_reqs l) = 2 \<and> Close ios None l fs = (l', fs', rep, err) \<and>
     map fst rep = map rq_id (l_reqs l) \<and> l_reqs l' = []"
proof -
  let ?l = "\<lparr>l_opts = \<lparr>wo_Dir = ''d'', wo_Sync = SyncGroup, wo_SegmentSize = 9, wo_BatchMax = 2\<rparr>,
      l_reqs = map (\<lambda>i. \<lparr>rq_id = i, rq_typ = RecordAck, rq_payload = []\<rparr>) [4, 7], l_closed = False,
      l_f = segmentName 0, l_index = 0, l_size = 0, l_fatal = None,
      l_stats = \<lparr>ws_Appends = 0, ws_Batches = 0, ws_Bytes = 0\<rparr>\<rparr>"
  let ?fs = "\<lparr>fs_files = [(segmentName 0, \<lparr>f_data = [], f_synced = 0\<rparr>)], fs_subdirs = [], fs_linked = [segmentName 0]\<rparr>"
  let ?io = "\<lambda>_. \<lparr>io_close = None, io_open = None, io_syncDir = None, io_write = None, io_sync = None\<rparr>"
  obtain l' fs' rep err where c: "Close ?io None ?l ?fs = (l', fs', rep, err)" by (cases "Close ?io None ?l ?fs") auto
  have "\<not> l_closed ?l" by simp
  from close_answers_all [OF this c] have "map fst rep = map rq_id (l_reqs ?l)" "l_reqs l' = []" by blast+
  moreover have "length (l_reqs ?l) = 2" by simp
  ultimately show ?thesis using c by blast
qed

end
