(* ===== verification/Queued.thy ===== *)
theory Queued
  imports Manager WalClose
begin

text \<open>
  \<open>cmd/queued/main.go\<close>: the checks at start-up and at the end. Flags come parsed; the HTTP server
  itself, signals and logging are the runtime's. A fatal exit carries its reason.
\<close>

datatype fatal_exit = BadFsync string | RecoveryFailed "replay_err open_error" | ListenFailed | CloseFailed wal_error

definition fsync_flag :: "string \<Rightarrow> string option" where
  "fsync_flag mode = (if mode = SyncAlways then Some SyncAlways else if mode = SyncGroup then Some SyncGroup else None)"

definition queued_start :: "open_io \<Rightarrow> int \<Rightarrow> string \<Rightarrow> string \<Rightarrow> int \<Rightarrow> fsys \<Rightarrow>
    fsys \<times> (fatal_exit + (manager \<times> walLog \<times> recoveryInfo))" where
  "queued_start io clock fsyncMode dir segmentSize fs =
     (case fsync_flag fsyncMode of
        None \<Rightarrow> (fs, Inl (BadFsync fsyncMode))
      | Some sync \<Rightarrow>
          (case Manager_Open io \<lparr>wo_Dir = dir, wo_Sync = sync, wo_SegmentSize = segmentSize, wo_BatchMax = 0\<rparr> clock fs of
             (fs', Inl e) \<Rightarrow> (fs', Inl (RecoveryFailed e))
           | (fs', Inr x) \<Rightarrow> (fs', Inr x)))"

text \<open>What ends the wait: the listener, with whether its error is \<open>ErrServerClosed\<close> or none, or a signal.\<close>

datatype stop_event = ListenerEnded bool | SignalReceived

definition queued_stop :: "stop_event \<Rightarrow> (nat \<Rightarrow> commit_io) \<Rightarrow> nat option \<Rightarrow> manager \<Rightarrow> walLog \<Rightarrow> fsys \<Rightarrow>
    manager \<times> walLog \<times> fsys \<times> fatal_exit option" where
  "queued_stop ev ios closeErr m l fs =
     (if ev = ListenerEnded False then (m, l, fs, Some ListenFailed)
      else if mg_closed m then (m, l, fs, None)
      else (case Close ios closeErr l fs of
              (l', fs', rep, err) \<Rightarrow> (fst (Manager_Close m l), l', fs', map_option CloseFailed err)))"

text \<open>A stop that reports no error leaves nothing unwritten behind: the channel is empty and the log has not failed.\<close>

lemma clean_stop:
  assumes "queued_stop ev ios closeErr m l fs = (m', l', fs', None)" "\<not> mg_closed m" "\<not> l_closed l"
  shows "mg_closed m' \<and> l_reqs l' = [] \<and> l_fatal l' = None"
proof -
  obtain rep where c: "Close ios closeErr l fs = (l', fs', rep, None)" "m' = fst (Manager_Close m l)"
    using assms by (auto simp: queued_stop_def split: if_splits prod.splits)
  have "l_reqs l' = []" "l_fatal l' = None" using Close_spec [OF assms(3) c(1)] by blast+
  then show ?thesis using c(2) assms(2) by (simp add: Manager_Close_def)
qed

text \<open>An unknown policy stops the program before the log is touched; the two known ones reach it unchanged.\<close>

lemma fsync_checked:
  "fsync_flag mode = None \<longleftrightarrow> mode \<notin> {''always'', ''group''}"
  "fsync_flag mode = None \<Longrightarrow> queued_start io clock mode dir seg fs = (fs, Inl (BadFsync mode))"
  by (auto simp: fsync_flag_def queued_start_def SyncAlways_def SyncGroup_def)

end
