(* ===== verification/Loadgen.thy ===== *)
theory Loadgen
  imports QueueDurable GoUtf8 "HOL-Library.List_Lexorder" "HOL-Library.Char_ord"
begin

text \<open>
  \<open>cmd/loadgen\<close>, the crash test: the files of identifiers it keeps, what it writes down around each
  acknowledgement, and the reconciliation that decides whether the test passes. Starting processes,
  the worker pools and the printing are not modelled.
\<close>

section \<open>Record files\<close>

record idFile =
  idf_f :: string
  idf_n :: nat

definition createIDFile :: idFile where
  "createIDFile = \<lparr>idf_f = [], idf_n = 0\<rparr>"

definition idf_add :: "string \<Rightarrow> idFile \<Rightarrow> idFile" where
  "idf_add i w = w\<lparr>idf_f := idf_f w @ i @ [CHR 0x0A], idf_n := idf_n w + 1\<rparr>"

definition idf_count :: "idFile \<Rightarrow> nat" where
  "idf_count w = idf_n w"

text \<open>\<open>strings.Split(s, "\\n")\<close> and \<open>strings.TrimSpace\<close>, which knows the white space of Unicode.\<close>

fun split_lines :: "string \<Rightarrow> string list" where
  "split_lines [] = [[]]"
| "split_lines (c # cs) =
     (if c = CHR 0x0A then [] # split_lines cs
      else case split_lines cs of l # ls \<Rightarrow> (c # l) # ls | [] \<Rightarrow> [[c]])"

definition spaces :: "string list" where
  "spaces = map EncodeRune ([9, 10, 11, 12, 13, 32, 0x85, 0xA0, 0x1680, 0x2000, 0x2001, 0x2002, 0x2003, 0x2004,
     0x2005, 0x2006, 0x2007, 0x2008, 0x2009, 0x200A, 0x2028, 0x2029, 0x202F, 0x205F, 0x3000])"

text \<open>Drop words of the list from the front of a text as long as one is there; none of them is empty.\<close>

function drop_words :: "string list \<Rightarrow> string \<Rightarrow> string" where
  "drop_words ws s =
     (case find (\<lambda>w. w \<noteq> [] \<and> take (length w) s = w) ws of
        None \<Rightarrow> s
      | Some w \<Rightarrow> drop_words ws (drop (length w) s))"
  by pat_completeness auto
termination
proof (relation "measure (\<lambda>(ws, s). length s)", goal_cases)
  case (2 ws s w)
  then have "w \<noteq> []" "take (length w) s = w" by (auto simp: find_Some_iff)
  then have "s \<noteq> []" by (metis take_Nil)
  then show ?case using \<open>w \<noteq> []\<close> by simp
qed simp

declare drop_words.simps [simp del]

definition TrimSpace :: "string \<Rightarrow> string" where
  "TrimSpace s = rev (drop_words (map rev spaces) (rev (drop_words spaces s)))"

definition readIDs :: "string \<Rightarrow> (string, bool) gomap" where
  "readIDs data = fold (\<lambda>line m. let l = TrimSpace line in if l \<noteq> [] then gput l True m else m) (split_lines data) []"

section \<open>The crash phase\<close>

text \<open>\<open>post\<close>: no answer means the server is gone, a status of 300 or more is an error.\<close>

datatype post_result = ServerGone | HTTPError nat | PostOK

definition post :: "nat option \<Rightarrow> post_result" where
  "post answer = (case answer of None \<Rightarrow> ServerGone | Some status \<Rightarrow> if status \<ge> 300 then HTTPError status else PostOK)"

text \<open>
  A consumer's loop over one batch: the identifier is noted as pending before the request goes out
  and as acknowledged only after a good answer; any error ends the worker (\<^const>\<open>False\<close>).
\<close>

fun ack_batch :: "(string \<Rightarrow> nat option) \<Rightarrow> string list \<Rightarrow> idFile \<times> idFile \<Rightarrow> bool \<times> idFile \<times> idFile" where
  "ack_batch answer [] files = (True, files)"
| "ack_batch answer (i # is) (pending, acked) =
     (let pending' = idf_add i pending in
      if post (answer i) \<noteq> PostOK then (False, pending', acked)
      else ack_batch answer is (pending', idf_add i acked))"

section \<open>The verify phase\<close>

text \<open>The drain: responses are read until one is empty; the last number of attempts seen stays.\<close>

fun drain_survivors :: "(string \<times> int) list list \<Rightarrow> (string, int) gomap \<Rightarrow> (string, int) gomap option" where
  "drain_survivors [] surv = None"
| "drain_survivors (batch # rest) surv =
     (if batch = [] then Some surv
      else drain_survivors rest (fold (\<lambda>(i, a). gput i a) batch surv))"

definition isset :: "(string, bool) gomap \<Rightarrow> string \<Rightarrow> bool" where
  "isset m i = (case gget m i of Some b \<Rightarrow> b | None \<Rightarrow> False)"

text \<open>An ack that came back is not ambiguous.\<close>

definition ambiguous_of :: "(string, bool) gomap \<Rightarrow> (string, bool) gomap \<Rightarrow> (string, bool) gomap" where
  "ambiguous_of ackedConfirmed ackSent = fold gdel (map fst ackedConfirmed) ackSent"

record verdict =
  vd_resurrected :: "string list"
  vd_lost :: "string list"
  vd_unknown :: "string list"
  vd_ambiguous :: nat
  vd_redelivered :: nat

definition classify_one :: "(string, bool) gomap \<Rightarrow> (string, bool) gomap \<Rightarrow> (string, int) gomap \<Rightarrow>
    string \<Rightarrow> verdict \<Rightarrow> verdict" where
  "classify_one ackedConfirmed ackSent survivors i v =
     (let present = (gget survivors i \<noteq> None) in
      if isset ackedConfirmed i \<and> present then v\<lparr>vd_resurrected := vd_resurrected v @ [i]\<rparr>
      else if isset ackedConfirmed i then v
      else if present then v
      else if isset ackSent i then v\<lparr>vd_ambiguous := vd_ambiguous v + 1\<rparr>
      else v\<lparr>vd_lost := vd_lost v @ [i]\<rparr>)"

definition survivor_one :: "(string, bool) gomap \<Rightarrow> string \<times> int \<Rightarrow> verdict \<Rightarrow> verdict" where
  "survivor_one enqueued = (\<lambda>(i, attempts) v.
     let v1 = (if \<not> isset enqueued i then v\<lparr>vd_unknown := vd_unknown v @ [i]\<rparr> else v)
     in if attempts \<ge> 2 then v1\<lparr>vd_redelivered := vd_redelivered v1 + 1\<rparr> else v1)"

definition verify :: "(string, bool) gomap \<Rightarrow> (string, bool) gomap \<Rightarrow> (string, bool) gomap \<Rightarrow> (string, int) gomap \<Rightarrow>
    verdict" where
  "verify enqueued ackedConfirmed pending survivors =
     (let ackSent = ambiguous_of ackedConfirmed pending;
          v0 = \<lparr>vd_resurrected = [], vd_lost = [], vd_unknown = [], vd_ambiguous = 0, vd_redelivered = 0\<rparr>;
          v1 = fold (classify_one ackedConfirmed ackSent survivors) (map fst enqueued) v0;
          v2 = fold (survivor_one enqueued) survivors v1
      in v2\<lparr>vd_lost := sort (vd_lost v2), vd_resurrected := sort (vd_resurrected v2)\<rparr>)"

definition verify_failed :: "(string, bool) gomap \<Rightarrow> (string, bool) gomap \<Rightarrow> verdict \<Rightarrow> bool" where
  "verify_failed enqueued ackedConfirmed v \<longleftrightarrow>
     length (vd_lost v) > 0 \<or> length (vd_resurrected v) > 0 \<or> length enqueued = 0 \<or> length ackedConfirmed = 0"

definition firstN :: "string list \<Rightarrow> nat \<Rightarrow> string list" where
  "firstN s n = (if length s < n then s else take n s)"

section \<open>The verdict\<close>

lemma gget_gdels: "gget (fold gdel ks m) i = (if i \<in> set ks then None else gget m i)"
  by (induction ks arbitrary: m) auto

lemma classify_fold:
  "set (vd_lost (fold (classify_one A S R) is v)) =
     set (vd_lost v) \<union> {i \<in> set is. \<not> isset A i \<and> gget R i = None \<and> \<not> isset S i} \<and>
   set (vd_resurrected (fold (classify_one A S R) is v)) =
     set (vd_resurrected v) \<union> {i \<in> set is. isset A i \<and> gget R i \<noteq> None}"
  by (induction "is" arbitrary: v) (auto simp: classify_one_def Let_def)

lemma survivor_fold [simp]:
  "vd_lost (fold (survivor_one E) R v) = vd_lost v" "vd_resurrected (fold (survivor_one E) R v) = vd_resurrected v"
  by (induction R arbitrary: v) (auto simp: survivor_one_def Let_def)

lemma verify_sets:
  "set (vd_lost (verify E A P R)) =
     {i \<in> gkeys E. \<not> isset A i \<and> gget R i = None \<and> \<not> isset (ambiguous_of A P) i}"
  "set (vd_resurrected (verify E A P R)) = {i \<in> gkeys E. isset A i \<and> gget R i \<noteq> None}"
  using classify_fold [of A "ambiguous_of A P" R "map fst E"
      "\<lparr>vd_resurrected = [], vd_lost = [], vd_unknown = [], vd_ambiguous = 0, vd_redelivered = 0\<rparr>"]
  by (simp_all add: verify_def Let_def gkeys_def)

lemma isset_ambiguous: "isset (ambiguous_of A P) i \<longleftrightarrow> i \<notin> gkeys A \<and> isset P i"
  by (simp add: isset_def ambiguous_of_def gget_gdels gkeys_def)



section \<open>Identifier files read back\<close>

definition plain_id :: "string \<Rightarrow> bool" where
  "plain_id i \<longleftrightarrow> i \<noteq> [] \<and> (\<forall>c \<in> set i. 32 < code c \<and> code c < 128)"

lemma split_lines_line: "CHR 0x0A \<notin> set i \<Longrightarrow> split_lines (i @ CHR 0x0A # t) = i # split_lines t"
  by (induction i) auto

lemma split_lines_files:
  "\<forall>i \<in> set is. CHR 0x0A \<notin> set i \<Longrightarrow> split_lines (concat (map (\<lambda>i. i @ [CHR 0x0A]) is)) = is @ [[]]"
  by (induction "is") (simp_all add: split_lines_line)

lemma adds_text: "idf_f (fold idf_add is w) = idf_f w @ concat (map (\<lambda>i. i @ [CHR 0x0A]) is) \<and> idf_n (fold idf_add is w) = idf_n w + length is"
  by (induction "is" arbitrary: w) (simp_all add: idf_add_def)

lemma drop_words_none: "(\<And>w. w \<in> set ws \<Longrightarrow> w \<noteq> [] \<Longrightarrow> take (length w) s \<noteq> w) \<Longrightarrow> drop_words ws s = s"
proof -
  assume a: "\<And>w. w \<in> set ws \<Longrightarrow> w \<noteq> [] \<Longrightarrow> take (length w) s \<noteq> w"
  then have "find (\<lambda>w. w \<noteq> [] \<and> take (length w) s = w) ws = None" by (auto simp: find_None_iff)
  then show ?thesis by (subst drop_words.simps) simp
qed

lemma spaces_codes: "w \<in> set spaces \<Longrightarrow> c \<in> set w \<Longrightarrow> code c \<le> 32 \<or> 128 \<le> code c"
  by (auto simp: spaces_def EncodeRune_def)

lemma TrimSpace_plain: "plain_id i \<Longrightarrow> TrimSpace i = i"
proof -
  assume p: "plain_id i"
  have no: "take (length w) s \<noteq> w" if "w \<noteq> []" "\<forall>c \<in> set w. code c \<le> 32 \<or> 128 \<le> code c" "set s = set i" for w s
  proof
    assume t: "take (length w) s = w"
    then have "hd w \<in> set s" using that(1) by (metis in_set_takeD list.set_sel(1))
    then have "32 < code (hd w) \<and> code (hd w) < 128" using p that(3) by (simp add: plain_id_def)
    moreover have "code (hd w) \<le> 32 \<or> 128 \<le> code (hd w)" using that(1,2) by simp
    ultimately show False by linarith
  qed
  have "drop_words spaces i = i" using no spaces_codes by (intro drop_words_none) blast
  moreover have "drop_words (map rev spaces) (rev i) = rev i"
    using no spaces_codes by (intro drop_words_none) fastforce
  ultimately show ?thesis by (simp add: TrimSpace_def)
qed

text \<open>What was written down is read back: the set of identifiers, whatever their order and number.\<close>

lemma id_file_roundtrip:
  assumes "\<forall>i \<in> set is. plain_id i"
  shows "gkeys (readIDs (idf_f (fold idf_add is createIDFile))) = set is \<and>
    idf_count (fold idf_add is createIDFile) = length is"
proof -
  have nl: "\<forall>i \<in> set is. CHR 0x0A \<notin> set i" using assms by (fastforce simp: plain_id_def)
  have t: "TrimSpace [] = []"
    using drop_words_none [of spaces "[]"] drop_words_none [of "map rev spaces" "[]"] by (simp add: TrimSpace_def)
  have "gkeys (fold (\<lambda>line m. let l = TrimSpace line in if l \<noteq> [] then gput l True m else m) js m) = gkeys m \<union> set js"
    if "\<forall>i \<in> set js. plain_id i" for js m
    using that by (induction js arbitrary: m) (auto simp: TrimSpace_plain plain_id_def Let_def)
  from this [OF assms, of "[]"] show ?thesis
    using adds_text [of "is" createIDFile] split_lines_files [OF nl] t
    by (simp add: readIDs_def createIDFile_def idf_count_def gkeys_def)
qed

end
