(* ===== verification/LoadgenRun.thy ===== *)
theory LoadgenRun
  imports Loadgen
begin

text \<open>
  \<open>cmd/loadgen\<close> around the reconciliation of \<open>Loadgen\<close>: the choice of the command, waiting for the
  server, what one turn of a producer and of a consumer does, and the verify command from the files to
  the exit status. What the server answers is given: no answer, or a status and what its body decodes
  to. The flags, the goroutines that repeat the turns and the rate that is printed are not modelled.
\<close>

section \<open>Commands\<close>

datatype loadgen_command = RunCrash "string list" | RunVerify "string list" | Exit nat

definition loadgen_main :: "string list \<Rightarrow> loadgen_command" where
  "loadgen_main args =
     (case args of
        prog # cmd # rest \<Rightarrow>
          if cmd = ''crash'' then RunCrash rest else if cmd = ''verify'' then RunVerify rest else Exit 2
      | _ \<Rightarrow> Exit 2)"

text \<open>Closing a record file syncs it first; the first error of all files ends the program.\<close>

definition idf_close :: "nat option \<times> nat option \<Rightarrow> nat option" where
  "idf_close = (\<lambda>(syncErr, closeErr). case syncErr of Some e \<Rightarrow> Some e | None \<Rightarrow> closeErr)"

fun closeAll :: "(nat option \<times> nat option) list \<Rightarrow> nat option" where
  "closeAll [] = None"
| "closeAll (f # fs) = (case idf_close f of Some e \<Rightarrow> Some e | None \<Rightarrow> closeAll fs)"

section \<open>Requests\<close>

datatype post_error = Gone | Status nat | BadJSON

text \<open>With a decoded answer; the first component says that the client now counts as dead.\<close>

definition post_json :: "(nat \<times> 'a option) option \<Rightarrow> bool \<times> (post_error + 'a)" where
  "post_json answer =
     (case answer of
        None \<Rightarrow> (True, Inl Gone)
      | Some (status, out) \<Rightarrow>
          (False, if status \<ge> 300 then Inl (Status status)
                  else case out of None \<Rightarrow> Inl BadJSON | Some x \<Rightarrow> Inr x))"

text \<open>
  \<open>waitReady\<close>: each turn reads the clock and, before the deadline, asks for \<open>/healthz\<close>; it sleeps 25 ms
  before the next. The result says whether the server is healthy; \<^const>\<open>None\<close> is no result yet.
\<close>

fun waitReady :: "int \<Rightarrow> (int \<times> nat option) list \<Rightarrow> bool option" where
  "waitReady deadline [] = None"
| "waitReady deadline ((clock, status) # turns) =
     (if clock < deadline then if status = Some 200 then Some True else waitReady deadline turns
      else Some False)"

definition readyInterval :: int where "readyInterval = 25 * 1000000"

fun sleeps :: "int \<Rightarrow> (int \<times> nat option) list \<Rightarrow> bool" where
  "sleeps now [] = True"
| "sleeps now ((clock, status) # turns) = (now \<le> clock \<and> sleeps (clock + readyInterval) turns)"

lemma waitReady_ends:
  "sleeps now turns \<Longrightarrow> deadline - now \<le> int (length turns - 1) * readyInterval \<Longrightarrow> turns \<noteq> [] \<Longrightarrow>
     \<exists>b. waitReady deadline turns = Some b \<and> (b \<longleftrightarrow> (\<exists>(clock, status) \<in> set turns. clock < deadline \<and> status = Some 200))"
proof (induction turns arbitrary: now)
  case (Cons t turns)
  obtain clock status where t: "t = (clock, status)" by (cases t)
  have s: "now \<le> clock" "sleeps (clock + readyInterval) turns" using Cons.prems(1) t by simp_all
  show ?case
  proof (cases "clock < deadline")
    case True
    then have ne: "turns \<noteq> []" using Cons.prems(2) s(1) by (cases turns) (simp_all add: readyInterval_def)
    then have "deadline - (clock + readyInterval) \<le> int (length turns - 1) * readyInterval"
      using Cons.prems(2) s(1) by (cases turns) (simp_all add: algebra_simps)
    from Cons.IH [OF s(2) this ne] show ?thesis using t True by auto
  next
    case False
    have "deadline \<le> fst x" if "x \<in> set turns" for x
    proof -
      have "sleeps n ts \<Longrightarrow> x \<in> set ts \<Longrightarrow> n \<le> fst x" for n ts
        by (induction n ts rule: sleeps.induct) (auto simp: readyInterval_def)
      from this [OF s(2) that] show ?thesis using False by (simp add: readyInterval_def)
    qed
    then show ?thesis using t False by fastforce
  qed
qed simp

section \<open>The crash command\<close>

record crashRun =
  cr_next :: int
  cr_dead :: bool
  cr_enqueued :: idFile
  cr_pending :: idFile
  cr_acked :: idFile

definition message_body :: "nat \<Rightarrow> string" where
  "message_body i = ''msg-'' @ (let d = show_nat i in replicate (6 - length d) CHR ''0'' @ d)"

text \<open>
  One turn of a producer: it takes the next number, sends the message and writes the identifier of a
  good answer down. The first component says whether the worker goes on.
\<close>

definition produce_one :: "int \<Rightarrow> (nat \<times> string option) option \<Rightarrow> crashRun \<Rightarrow> bool \<times> crashRun" where
  "produce_one quota answer s =
     (if cr_dead s then (False, s)
      else let i = cr_next s; s1 = s\<lparr>cr_next := i + 1\<rparr> in
        if i \<ge> quota then (False, s1)
        else (case post_json answer of
                (dead, Inl e) \<Rightarrow> (False, s1\<lparr>cr_dead := cr_dead s1 \<or> dead\<rparr>)
              | (dead, Inr i) \<Rightarrow> (True, s1\<lparr>cr_enqueued := idf_add i (cr_enqueued s1)\<rparr>)))"

text \<open>
  One turn of a consumer: a batch is leased and acknowledged message by message. An error of the
  request, an empty batch or a failed acknowledgement ends the worker.
\<close>

definition consume_one :: "(nat \<times> string list option) option \<Rightarrow> (string \<Rightarrow> nat option) \<Rightarrow> crashRun \<Rightarrow> bool \<times> crashRun" where
  "consume_one answer acks s =
     (if cr_dead s then (False, s)
      else case post_json answer of
             (dead, Inl e) \<Rightarrow> (False, s\<lparr>cr_dead := cr_dead s \<or> dead\<rparr>)
           | (dead, Inr ids) \<Rightarrow>
               if ids = [] then (False, s)
               else (case ack_batch acks ids (cr_pending s, cr_acked s) of
                       (ok, pending, acked) \<Rightarrow> (ok, s\<lparr>cr_pending := pending, cr_acked := acked,
                          cr_dead := (case find (\<lambda>i. post (acks i) \<noteq> PostOK) ids of Some i \<Rightarrow> acks i = None | None \<Rightarrow> False)\<rparr>)))"

text \<open>The fill phase is worth nothing when the server died during it.\<close>

definition fill_exit :: "crashRun \<Rightarrow> nat option" where
  "fill_exit s = (if cr_dead s then Some 1 else None)"

text \<open>Any sequence of turns of the workers.\<close>

datatype crash_turn =
    Produce "(nat \<times> string option) option"
  | Consume "(nat \<times> string list option) option" "string \<Rightarrow> nat option"

fun crash_turns :: "int \<Rightarrow> crash_turn list \<Rightarrow> crashRun \<Rightarrow> crashRun" where
  "crash_turns quota [] s = s"
| "crash_turns quota (Produce a # ts) s = crash_turns quota ts (snd (produce_one quota a s))"
| "crash_turns quota (Consume a k # ts) s = crash_turns quota ts (snd (consume_one a k s))"

definition crash_start :: crashRun where
  "crash_start = \<lparr>cr_next = 0, cr_dead = False, cr_enqueued = createIDFile, cr_pending = createIDFile,
     cr_acked = createIDFile\<rparr>"

definition truthful :: "(string \<Rightarrow> bool) \<Rightarrow> (string \<Rightarrow> bool) \<Rightarrow> crashRun \<Rightarrow> bool" where
  "truthful confirmed replied_ok s \<longleftrightarrow>
     (\<exists>E P A. cr_enqueued s = fold idf_add E createIDFile \<and> cr_pending s = fold idf_add P createIDFile \<and>
        cr_acked s = fold idf_add A createIDFile \<and> (\<forall>i \<in> set E. confirmed i) \<and>
        (\<forall>i \<in> set A. i \<in> set P \<and> replied_ok i))"

lemma ack_batch_files:
  assumes "ack_batch acks ids (fold idf_add P createIDFile, fold idf_add A createIDFile) = (ok, pending, acked)"
  shows "\<exists>js. pending = fold idf_add (P @ js) createIDFile \<and>
    (\<exists>ks. acked = fold idf_add (A @ ks) createIDFile \<and> set ks \<subseteq> set js \<and> (\<forall>i \<in> set ks. \<exists>st < 300. acks i = Some st))"
  using assms
proof (induction ids arbitrary: P A)
  case Nil
  then show ?case by (intro exI [of _ "[]"]) simp
next
  case (Cons i ids)
  show ?case
  proof (cases "post (acks i) = PostOK")
    case True
    then have st: "\<exists>st < 300. acks i = Some st" by (auto simp: post_def split: option.splits if_splits)
    have "ack_batch acks ids (fold idf_add (P @ [i]) createIDFile, fold idf_add (A @ [i]) createIDFile) = (ok, pending, acked)"
      using Cons.prems True by (simp add: Let_def)
    from Cons.IH [OF this] obtain js ks where "pending = fold idf_add (P @ i # js) createIDFile"
      "acked = fold idf_add (A @ i # ks) createIDFile" "set ks \<subseteq> set js" "\<forall>i \<in> set ks. \<exists>st < 300. acks i = Some st" by auto
    then show ?thesis using st by (intro exI [of _ "i # js"] conjI exI [of _ "i # ks"]) auto
  next
    case False
    then have "pending = fold idf_add (P @ [i]) createIDFile" "acked = fold idf_add A createIDFile"
      using Cons.prems by (simp_all add: Let_def)
    then show ?thesis by (intro exI [of _ "[i]"] conjI exI [of _ "[]"]) simp_all
  qed
qed

lemma produce_truthful:
  assumes "truthful c a s" "\<And>st i. answer = Some (st, Some i) \<Longrightarrow> st < 300 \<Longrightarrow> c i"
  shows "truthful c a (snd (produce_one quota answer s))"
proof (cases "snd (post_json answer)")
  case (Inl e)
  then show ?thesis using assms(1) by (cases "post_json answer") (auto simp: produce_one_def truthful_def Let_def)
next
  case (Inr i)
  then obtain st where "answer = Some (st, Some i)" "st < 300"
    by (auto simp: post_json_def split: option.splits if_splits)
  then have i: "c i" "post_json answer = (False, Inr i)" using assms(2) by (auto simp: post_json_def)
  obtain E P A where f: "cr_enqueued s = fold idf_add E createIDFile" "\<forall>i \<in> set E. c i"
    "cr_pending s = fold idf_add P createIDFile" "cr_acked s = fold idf_add A createIDFile"
    "\<forall>i \<in> set A. i \<in> set P \<and> a i" using assms(1) by (auto simp: truthful_def)
  have "truthful c a (s\<lparr>cr_next := cr_next s + 1, cr_enqueued := idf_add i (cr_enqueued s)\<rparr>)"
    unfolding truthful_def using f i(1) by (intro exI [of _ "E @ [i]"] exI [of _ P] exI [of _ A]) simp
  moreover have "truthful c a (s\<lparr>cr_next := cr_next s + 1\<rparr>)" using assms(1) by (simp add: truthful_def)
  ultimately show ?thesis using assms(1) i(2) by (simp add: produce_one_def Let_def)
qed

lemma consume_truthful:
  assumes "truthful c a s" "\<And>st i. acks i = Some st \<Longrightarrow> st < 300 \<Longrightarrow> a i"
  shows "truthful c a (snd (consume_one answer acks s))"
proof (cases "snd (post_json answer)")
  case (Inl e)
  then show ?thesis using assms(1) by (cases "post_json answer") (auto simp: consume_one_def truthful_def)
next
  case (Inr ids)
  obtain E P A where f: "cr_enqueued s = fold idf_add E createIDFile" "\<forall>i \<in> set E. c i"
    "cr_pending s = fold idf_add P createIDFile" "cr_acked s = fold idf_add A createIDFile"
    "\<forall>i \<in> set A. i \<in> set P \<and> a i" using assms(1) by (auto simp: truthful_def)
  obtain ok pending acked where b: "ack_batch acks ids (cr_pending s, cr_acked s) = (ok, pending, acked)"
    by (cases "ack_batch acks ids (cr_pending s, cr_acked s)")
  obtain js ks where "pending = fold idf_add (P @ js) createIDFile" "acked = fold idf_add (A @ ks) createIDFile"
    "set ks \<subseteq> set js" "\<forall>i \<in> set ks. \<exists>st < 300. acks i = Some st" using ack_batch_files [OF b [unfolded f(3,4)]] by blast
  then have "truthful c a (s\<lparr>cr_pending := pending, cr_acked := acked, cr_dead := d\<rparr>)" for d
    unfolding truthful_def using f assms(2)
    by (intro exI [of _ E] exI [of _ "P @ js"] exI [of _ "A @ ks"]) auto
  then show ?thesis using assms(1) b Inr by (cases "post_json answer") (simp add: consume_one_def)
qed

text \<open>
  The record files tell the truth, which is what the reconciliation relies on: over any sequence of
  turns, the identifiers written down as enqueued come from good answers, those written down as
  acknowledged were answered well, and each of these was noted as pending before.
\<close>

lemma crash_files_truthful:
  "truthful (\<lambda>i. \<exists>st < 300. Produce (Some (st, Some i)) \<in> set ts)
     (\<lambda>i. \<exists>answer acks. \<exists>st < 300. Consume answer acks \<in> set ts \<and> acks i = Some st) (crash_turns quota ts crash_start)"
proof -
  have all: "truthful c a (crash_turns quota us s)"
    if "truthful c a s" "\<And>st i. Produce (Some (st, Some i)) \<in> set us \<Longrightarrow> st < 300 \<Longrightarrow> c i"
      "\<And>answer acks st i. Consume answer acks \<in> set us \<Longrightarrow> acks i = Some st \<Longrightarrow> st < 300 \<Longrightarrow> a i" for c a us s
    using that
  proof (induction quota us s rule: crash_turns.induct)
    case (2 quota an ts s)
    have "truthful c a (snd (produce_one quota an s))" using "2.prems"(1,2) by (intro produce_truthful) auto
    then show ?case using "2.IH" "2.prems"(2,3) by auto
  next
    case (3 quota an k ts s)
    have "truthful c a (snd (consume_one an k s))" using "3.prems"(1,3) by (intro consume_truthful) auto
    then show ?case using "3.IH" "3.prems"(2,3) by simp blast
  qed simp
  have start: "truthful c a crash_start" for c a
    unfolding truthful_def crash_start_def by (rule exI [of _ "[]"])+ simp
  show ?thesis by (rule all [OF start]) blast+
qed

section \<open>The verify command\<close>

text \<open>
  \<open>%7d\<close> and \<open>%5d\<close>, the report, and what is printed behind it. \<open>List\<close> is how \<open>fmt\<close> prints a slice with \<open>%v\<close>.
\<close>

definition pad :: "nat \<Rightarrow> nat \<Rightarrow> string" where
  "pad w n = (let d = show_nat n in replicate (w - length d) CHR '' '' @ d)"

fun fmt_list :: "string list \<Rightarrow> string" where
  "fmt_list [] = []"
| "fmt_list [x] = x"
| "fmt_list (x # y # ys) = x @ '' '' @ fmt_list (y # ys)"

definition report :: "nat \<Rightarrow> nat \<Rightarrow> nat \<Rightarrow> verdict \<Rightarrow> string list" where
  "report enqueued acked survivors v =
     [[], ''crash test result'', ''-----------------'',
      ''  enqueued (confirmed 201)      '' @ pad 7 enqueued,
      ''  acked    (confirmed 204)      '' @ pad 7 acked,
      ''  present after restart         '' @ pad 7 survivors,
      ''  redelivered (attempts >= 2)   '' @ pad 7 (vd_redelivered v),
      ''  ack in flight when killed     '' @ pad 7 (vd_ambiguous v) @ ''   (may be either, not counted as loss)'',
      [],
      ''  LOST         (un-acked and gone)      '' @ pad 7 (length (vd_lost v)),
      ''  RESURRECTED  (acked and back)         '' @ pad 7 (length (vd_resurrected v)),
      ''  UNKNOWN      (present, never confirmed) '' @ pad 5 (length (vd_unknown v)),
      []]"

definition conclusion :: "(string, bool) gomap \<Rightarrow> (string, bool) gomap \<Rightarrow> verdict \<Rightarrow> string list" where
  "conclusion enqueued acked v =
     (if length (vd_lost v) > 0 then
        [''FAIL: '' @ show_nat (length (vd_lost v)) @
           '' message(s) were confirmed to the producer and are not in the recovered log'',
         ''      first few: ['' @ fmt_list (firstN (vd_lost v) 5) @ '']''] else []) @
     (if length (vd_resurrected v) > 0 then
        [''FAIL: '' @ show_nat (length (vd_resurrected v)) @ '' message(s) were acknowledged and came back after recovery'',
         ''      first few: ['' @ fmt_list (firstN (vd_resurrected v) 5) @ '']''] else []) @
     (if length enqueued = 0 \<or> length acked = 0 then
        [''FAIL: the run produced no work, so this proves nothing''] else []) @
     (if verify_failed enqueued acked v then []
      else [''PASS: every acknowledged message stayed gone and every un-acknowledged message came back''])"

text \<open>
  The whole command: the contents of the three files (\<^const>\<open>None\<close> when one cannot be read), whether the
  server became healthy, and its answers during the drain. The result is the exit status and what was
  printed; \<^const>\<open>None\<close> is a drain that has not come to its end.
\<close>

fun drain_answers :: "(nat \<times> (string \<times> int) list option) option list \<Rightarrow> (string, int) gomap \<Rightarrow>
    (post_error + (string, int) gomap) option" where
  "drain_answers [] surv = None"
| "drain_answers (answer # rest) surv =
     (case snd (post_json answer) of
        Inl e \<Rightarrow> Some (Inl e)
      | Inr batch \<Rightarrow>
          if batch = [] then Some (Inr surv)
          else drain_answers rest (fold (\<lambda>(i, a). gput i a) batch surv))"

definition runVerify :: "string option \<Rightarrow> string option \<Rightarrow> string option \<Rightarrow> bool \<Rightarrow>
    (nat \<times> (string \<times> int) list option) option list \<Rightarrow> (nat \<times> string list) option" where
  "runVerify enqueuedFile ackedFile pendingFile healthy answers =
     (case (enqueuedFile, ackedFile, pendingFile) of
        (Some ef, Some af, Some pf) \<Rightarrow>
          let enqueued = readIDs ef; ackedConfirmed = readIDs af; pending = readIDs pf in
          if \<not> healthy then Some (1, [])
          else (case drain_answers answers [] of
                  None \<Rightarrow> None
                | Some (Inl e) \<Rightarrow> Some (1, [])
                | Some (Inr survivors) \<Rightarrow>
                    let v = verify enqueued ackedConfirmed pending survivors in
                    Some (if verify_failed enqueued ackedConfirmed v then 1 else 0,
                          report (length enqueued) (length ackedConfirmed) (length survivors) v @
                          conclusion enqueued ackedConfirmed v))
      | _ \<Rightarrow> Some (1, []))"

text \<open>The drain sees the messages of every answer up to the first empty one.\<close>

lemma drain_answers_good:
  assumes "\<forall>b \<in> set bs. b \<noteq> []"
  shows "drain_answers (map (\<lambda>b. Some (200, Some b)) (bs @ [[]])) surv =
    Some (Inr (fold (\<lambda>(i, a). gput i a) (concat bs) surv))"
  using assms by (induction bs arbitrary: surv) (simp_all add: post_json_def)

lemma gkeys_fold_gput: "gkeys (fold (\<lambda>(i, a). gput i a) xs m) = fst ` set xs \<union> gkeys m"
  by (induction xs arbitrary: m) auto

lemma report_lines: "\<forall>l \<in> set (report a b c v). take 4 l \<noteq> ''PASS'' \<and> take 4 l \<noteq> ''FAIL''"
  by (simp add: report_def)

lemma conclusion_lines:
  "(\<exists>l \<in> set (conclusion E A v). take 4 l = ''PASS'') \<longleftrightarrow> \<not> verify_failed E A v"
  "(\<forall>l \<in> set (conclusion E A v). take 4 l \<noteq> ''FAIL'') \<longleftrightarrow> \<not> verify_failed E A v"
  by (cases "vd_lost v = []"; cases "vd_resurrected v = []"; cases "E = []"; cases "A = []";
      simp add: conclusion_def verify_failed_def)+

text \<open>The exit status. The verify command ends with status 0 exactly when it could read its three files,
  the server answered, there was something to check, and: no identifier written down as enqueued and
  acknowledged was delivered after the restart, and every one written down as enqueued, never
  acknowledged and with no acknowledgement under way was delivered. Failure prints no \<open>PASS\<close> line and
  success no \<open>FAIL\<close> line.\<close>

lemma verify_exit_status:
  assumes "\<forall>b \<in> set bs. b \<noteq> []"
  shows "\<exists>code out. runVerify (Some ef) (Some af) (Some pf) True (map (\<lambda>b. Some (200, Some b)) (bs @ [[]])) = Some (code, out) \<and>
    (code = 0 \<longleftrightarrow> readIDs ef \<noteq> [] \<and> readIDs af \<noteq> [] \<and>
       (\<forall>i \<in> gkeys (readIDs ef). isset (readIDs af) i \<longrightarrow> i \<notin> fst ` set (concat bs)) \<and>
       (\<forall>i \<in> gkeys (readIDs ef). \<not> isset (readIDs af) i \<and> \<not> isset (ambiguous_of (readIDs af) (readIDs pf)) i \<longrightarrow>
          i \<in> fst ` set (concat bs))) \<and>
    (code = 0 \<longleftrightarrow> (\<exists>l \<in> set out. take 4 l = ''PASS'')) \<and> (code = 0 \<longleftrightarrow> (\<forall>l \<in> set out. take 4 l \<noteq> ''FAIL''))"
proof -
  let ?S = "fold (\<lambda>(i, a). gput i a) (concat bs) []"
  let ?v = "verify (readIDs ef) (readIDs af) (readIDs pf) ?S"
  let ?out = "report (length (readIDs ef)) (length (readIDs af)) (length ?S) ?v @ conclusion (readIDs ef) (readIDs af) ?v"
  let ?code = "if verify_failed (readIDs ef) (readIDs af) ?v then 1 else (0 :: nat)"
  have r: "runVerify (Some ef) (Some af) (Some pf) True (map (\<lambda>b. Some (200, Some b)) (bs @ [[]])) = Some (?code, ?out)"
    unfolding runVerify_def using drain_answers_good [OF assms, of "[]"] by (simp add: Let_def)
  have keys: "gget ?S i = None \<longleftrightarrow> i \<notin> fst ` set (concat bs)" for i
    using gkeys_fold_gput [of "concat bs" "[]"] by (metis Un_empty_right gkeys_def gkeys_iff image_empty list.set(1))
  have l: "vd_lost ?v = [] \<longleftrightarrow> (\<forall>i \<in> gkeys (readIDs ef). \<not> isset (readIDs af) i \<and>
      \<not> isset (ambiguous_of (readIDs af) (readIDs pf)) i \<longrightarrow> i \<in> fst ` set (concat bs))"
    and rs: "vd_resurrected ?v = [] \<longleftrightarrow> (\<forall>i \<in> gkeys (readIDs ef). isset (readIDs af) i \<longrightarrow> i \<notin> fst ` set (concat bs))"
    unfolding set_empty [symmetric] verify_sets keys by blast+
  have "(\<exists>l \<in> set ?out. take 4 l = ''PASS'') \<longleftrightarrow> \<not> verify_failed (readIDs ef) (readIDs af) ?v"
    "(\<forall>l \<in> set ?out. take 4 l \<noteq> ''FAIL'') \<longleftrightarrow> \<not> verify_failed (readIDs ef) (readIDs af) ?v"
    unfolding set_append bex_Un ball_Un using report_lines conclusion_lines by blast+
  moreover have "?code = 0 \<longleftrightarrow> \<not> verify_failed (readIDs ef) (readIDs af) ?v" by simp
  moreover have "\<not> verify_failed (readIDs ef) (readIDs af) ?v \<longleftrightarrow>
      readIDs ef \<noteq> [] \<and> readIDs af \<noteq> [] \<and> vd_resurrected ?v = [] \<and> vd_lost ?v = []"
    by (auto simp: verify_failed_def)
  ultimately show ?thesis
    unfolding l rs by (intro exI [of _ ?code] exI [of _ ?out] conjI r) (simp_all only: simp_thms)
qed

end
