(* ===== verification/Server.thy ===== *)
theory Server
  imports Manager QueueDurable
begin

text \<open>
  The whole broker: the manager, its queues with the operations in progress on each, and the one
  log they share, over many lives of the process.

  \<open>QueueSys\<close> gives one queue a log of its own that commits and fails as it likes. Here the queues
  append through \<open>appendJSON\<close> to the log of \<open>WalLog\<close>, byte for byte, and the manager is opened by
  \<open>Manager_Open\<close>. The refinement is that every queue of every reachable state is, seen alone, a
  queue of \<open>QueueSys\<close>; so what holds there of one queue holds of the broker. This theory has the
  steps and their invariant, \<open>Broker\<close> the restarts and the guarantees.
\<close>

section \<open>State and steps\<close>

text \<open>
  Operations in progress are kept by queue name. \<open>sv_new\<close> is the creation in progress: there is at
  most one, as \<open>CreateQueue\<close> holds the manager's lock across its append. A stage \<^const>\<open>Sent\<close> counts
  the requests of the current life. \<open>sv_hist\<close> is what the callers of each queue were told in the
  current life, \<open>sv_sent\<close> the records handed to the log in all lives.
\<close>

record server =
  sv_mgr :: manager
  sv_wal :: walSys
  sv_ops :: "string \<Rightarrow> (qop \<times> stage) list"
  sv_new :: "(config \<times> stage) option"
  sv_hist :: "string \<Rightarrow> qevent list"
  sv_sent :: "payload list"

definition put_queue :: "string \<Rightarrow> queue \<Rightarrow> manager \<Rightarrow> manager" where
  "put_queue n q m = m\<lparr>mg_queues := gput n q (mg_queues m)\<rparr>"

text \<open>
  A send through \<open>appendJSON\<close>, with the next number as the request's identity. The records are those
  whose strings are valid UTF-8 and whose numbers fit 64 bits, as everything the API decodes does.
\<close>

definition sends :: "payload \<Rightarrow> walSys \<Rightarrow> walSys \<Rightarrow> bool" where
  "sends p W W' \<longleftrightarrow> payload_ok p \<and>
     int (length (l_reqs (sy_log W))) < wo_BatchMax (l_opts (sy_log W)) \<and>
     (\<exists>l'. appendJSON (length (sy_sent W)) p (sy_log W) = Inr l' \<and>
        W' = W\<lparr>sy_log := l', sy_sent := sy_sent W @
          [\<lparr>rq_id = length (sy_sent W), rq_typ = payload_type p, rq_payload = Marshal p\<rparr>]\<rparr>)"

definition refuses :: "payload \<Rightarrow> walSys \<Rightarrow> bool" where
  "refuses p W \<longleftrightarrow> (\<exists>e. appendJSON (length (sy_sent W)) p (sy_log W) = Inl e)"

text \<open>The error an append returned to its caller.\<close>

definition replied :: "walSys \<Rightarrow> stage \<Rightarrow> queue_error option \<Rightarrow> bool" where
  "replied W st err \<longleftrightarrow>
     (case st of
        Reserved p \<Rightarrow> False
      | Sent k \<Rightarrow> (\<exists>r. (k, r) \<in> set (sy_done W) \<and> err = map_option ErrWal r)
      | Refused \<Rightarrow> \<exists>e. err = Some (ErrWal e))"

inductive server_step :: "server \<Rightarrow> server \<Rightarrow> bool" where
  s_call: "\<lbrakk>Queue_lookup n (sv_mgr S) = Inr q; qcall q q' new\<rbrakk> \<Longrightarrow>
    server_step S (S\<lparr>sv_mgr := put_queue n q' (sv_mgr S), sv_ops := (sv_ops S)(n := sv_ops S n @ new)\<rparr>)"
| s_send: "\<lbrakk>sv_ops S n = xs @ (op, Reserved p) # ys; sends p (sv_wal S) W'\<rbrakk> \<Longrightarrow>
    server_step S (S\<lparr>sv_wal := W', sv_sent := sv_sent S @ [p],
      sv_ops := (sv_ops S)(n := xs @ (op, Sent (length (sy_sent (sv_wal S)))) # ys)\<rparr>)"
| s_refuse: "\<lbrakk>sv_ops S n = xs @ (op, Reserved p) # ys; refuses p (sv_wal S)\<rbrakk> \<Longrightarrow>
    server_step S (S\<lparr>sv_ops := (sv_ops S)(n := xs @ (op, Refused) # ys)\<rparr>)"
| s_finish: "\<lbrakk>sv_ops S n = xs @ (op, st) # ys; replied (sv_wal S) st err;
      Queue_lookup n (sv_mgr S) = Inr q; finish_op clock op err q = (q', ops', evs)\<rbrakk> \<Longrightarrow>
    server_step S (S\<lparr>sv_mgr := put_queue n q' (sv_mgr S), sv_ops := (sv_ops S)(n := xs @ ys @ ops'),
      sv_hist := (sv_hist S)(n := sv_hist S n @ evs)\<rparr>)"
| s_create: "\<lbrakk>sv_new S = None; CreateQueue_reserve cfg0 (sv_mgr S) = Inr (cfg, p)\<rbrakk> \<Longrightarrow>
    server_step S (S\<lparr>sv_new := Some (cfg, Reserved p)\<rparr>)"
| s_create_send: "\<lbrakk>sv_new S = Some (cfg, Reserved p); sends p (sv_wal S) W'\<rbrakk> \<Longrightarrow>
    server_step S (S\<lparr>sv_wal := W', sv_sent := sv_sent S @ [p],
      sv_new := Some (cfg, Sent (length (sy_sent (sv_wal S))))\<rparr>)"
| s_create_refuse: "\<lbrakk>sv_new S = Some (cfg, Reserved p); refuses p (sv_wal S)\<rbrakk> \<Longrightarrow>
    server_step S (S\<lparr>sv_new := Some (cfg, Refused)\<rparr>)"
| s_create_finish: "\<lbrakk>sv_new S = Some (cfg, st); replied (sv_wal S) st err;
      CreateQueue_finish cfg err (sv_mgr S) = (m', res)\<rbrakk> \<Longrightarrow>
    server_step S (S\<lparr>sv_mgr := m', sv_new := None\<rparr>)"
| s_writer: "run_once io (sy_log (sv_wal S)) (sy_fs (sv_wal S)) = Some (l', fs', rep) \<Longrightarrow>
    server_step S (S\<lparr>sv_wal := (sv_wal S)\<lparr>sy_log := l', sy_fs := fs', sy_done := sy_done (sv_wal S) @ rep\<rparr>\<rparr>)"
| s_close: "sv_new S = None \<Longrightarrow> server_step S (S\<lparr>sv_mgr := (sv_mgr S)\<lparr>mg_closed := True\<rparr>\<rparr>)"
| s_log_close: "Close_begin (sy_log (sv_wal S)) = Some l' \<Longrightarrow>
    server_step S (S\<lparr>sv_wal := (sv_wal S)\<lparr>sy_log := l'\<rparr>\<rparr>)"

text \<open>
  A life of the process begins with \<open>Manager_Open\<close>, on an empty directory or on what a crash left
  there. The first argument collects what callers were told in the lives before the current one.
\<close>

definition boot :: "manager \<Rightarrow> walLog \<Rightarrow> fsys \<Rightarrow> payload list \<Rightarrow> server" where
  "boot m l fs sent = \<lparr>sv_mgr = m, sv_wal = \<lparr>sy_log = l, sy_fs = fs, sy_sent = [], sy_done = []\<rparr>,
     sv_ops = (\<lambda>_. []), sv_new = None, sv_hist = (\<lambda>_. []), sv_sent = sent\<rparr>"

inductive server_life :: "(string \<Rightarrow> qevent list) \<Rightarrow> server \<Rightarrow> bool" where
  server_first: "\<lbrakk>fs_files fs = []; Manager_Open io opts clock fs = (fs', Inr (m, l, info))\<rbrakk> \<Longrightarrow>
    server_life (\<lambda>_. []) (boot m l fs' [])"
| server_act: "server_life H S \<Longrightarrow> server_step S S' \<Longrightarrow> server_life H S'"
| server_reboot: "\<lbrakk>server_life H S; crash (sy_fs (sv_wal S)) fs';
      Manager_Open io opts clock fs' = (fs'', Inr (m, l, info))\<rbrakk> \<Longrightarrow>
    server_life (\<lambda>n. H n @ sv_hist S n) (boot m l fs'' (sv_sent S))"

section \<open>The log seen by the queues\<close>

lemma qcall_payloads: "qcall q q' new \<Longrightarrow> \<forall>x \<in> set new. \<exists>p. snd x = Reserved p \<and> payload_queue p = c_Name (q_cfg q) \<and> \<not> is_create p"
  by (erule qcall.cases)
    (auto simp: Enqueue_reserve_def tryDequeue_reserve_def Ack_reserve_def Nack_reserve_def maintain_ops_def
      expire_payload_def dlq_payload_def Maintain_reserve_def Let_def takeLeased_def
      split: option.splits if_splits sum.splits prod.splits dest!: reclaim_keeps)

lemma finish_payloads:
  "finish_op clock op err q = (q', ops', evs) \<Longrightarrow>
     \<forall>x \<in> set ops'. \<exists>p. snd x = Reserved p \<and> payload_queue p = c_Name (q_cfg q') \<and> \<not> is_create p"
  by (cases op)
    (auto simp: dlq_payload_def Let_def split: option.splits if_splits sum.splits prod.splits)

text \<open>How many records were acknowledged in this life: the log commits in order, so they are a prefix.\<close>

definition committed :: "walSys \<Rightarrow> nat" where
  "committed W = length (filter (\<lambda>a. snd a = None) (sy_done W))"

text \<open>
  \<open>base\<close> are the records found at the start of this life, \<open>log\<close> those sent since, up to the log's
  failure. After a failure the directory is that of a log to which nothing more was sent.
\<close>

definition wal_part :: "payload list \<Rightarrow> payload list \<Rightarrow> walSys \<Rightarrow> bool" where
  "wal_part base log W \<longleftrightarrow> wal_inv (map rec_of_payload base) W \<and>
     map rq_id (sy_sent W) = [0..<length (sy_sent W)] \<and> length log \<le> length (sy_sent W) \<and>
     (l_fatal (sy_log W) = None \<longrightarrow> map req_rec (sy_sent W) = map rec_of_payload log) \<and>
     (\<exists>w. wal_inv (map rec_of_payload base) w \<and> sy_fs w = sy_fs W \<and>
        map req_rec (sy_sent w) = map rec_of_payload log \<and> committed w = committed W)"

lemma wal_partI:
  assumes "wal_inv (map rec_of_payload base) W" "map rq_id (sy_sent W) = [0..<length (sy_sent W)]"
    "map req_rec (sy_sent W) = map rec_of_payload log"
  shows "wal_part base log W"
  using assms map_eq_imp_length_eq [OF assms(3)] unfolding wal_part_def by auto

lemma committed_reply:
  assumes "sy_done W = reply okq None @ bad" "None \<notin> snd ` set bad"
  shows "committed W = length okq"
proof -
  have "filter (\<lambda>a. snd a = None) bad = []" using assms(2) by (force simp: filter_empty_conv)
  then show ?thesis using assms(1) by (simp add: committed_def reply_def)
qed

lemma wal_part_committed: "wal_part base log W \<Longrightarrow> committed W \<le> length log"
proof -
  assume "wal_part base log W"
  then obtain w where w: "wal_inv (map rec_of_payload base) w" "map req_rec (sy_sent w) = map rec_of_payload log"
    "committed w = committed W" unfolding wal_part_def by blast
  obtain okq badq bad where "sy_sent w = okq @ badq @ l_reqs (sy_log w)" "sy_done w = reply okq None @ bad"
    "None \<notin> snd ` set bad" using w(1) by (rule wal_invE)
  then show ?thesis using committed_reply [of w okq bad] w(3) map_eq_imp_length_eq [OF w(2)] by simp
qed

lemma wal_part_reply:
  assumes p: "wal_part base log W" and k: "(k, r) \<in> set (sy_done W)"
  shows "case r of None \<Rightarrow> k < committed W | Some e \<Rightarrow> committed W \<le> k \<and> l_fatal (sy_log W) \<noteq> None"
proof -
  have inv: "wal_inv (map rec_of_payload base) W" and ids: "map rq_id (sy_sent W) = [0..<length (sy_sent W)]"
    using p by (simp_all add: wal_part_def)
  obtain okq badq bad segs n extra j where I: "sy_sent W = okq @ badq @ l_reqs (sy_log W)"
    "sy_done W = reply okq None @ bad" "map fst bad = map rq_id badq" "None \<notin> snd ` set bad"
    "l_fatal (sy_log W) = None \<longrightarrow> badq = [] \<and> clean_disk (sy_log W) (sy_fs W) segs"
    using inv by (rule wal_invE)
  note c = committed_reply [OF I(2,4)]
  have "map rq_id okq = take (length okq) (map rq_id (sy_sent W))"
    "map rq_id badq = take (length badq) (drop (length okq) (map rq_id (sy_sent W)))" using I(1) by simp_all
  then have ok: "set (map rq_id okq) \<subseteq> {..<length okq}" and bd: "set (map rq_id badq) \<subseteq> {length okq..}"
    unfolding ids by (simp_all add: take_upt min_def I(1)) (auto dest!: in_set_takeD)
  show ?thesis
  proof (cases r)
    case None
    then have "(k, r) \<in> set (reply okq None)" using k I(2,4) by (force simp: image_iff)
    then have "k \<in> set (map rq_id okq)" by (auto simp: reply_def)
    then show ?thesis using ok c None by auto
  next
    case (Some e)
    then have b: "(k, r) \<in> set bad" using k I(2) by (auto simp: reply_def)
    then have "k \<in> set (map rq_id badq)" unfolding I(3) [symmetric] by force
    moreover from this have "badq \<noteq> []" by auto
    ultimately show ?thesis using bd c I(5) Some by auto
  qed
qed

lemma wal_part_send:
  assumes p: "wal_part base log W" and s: "sends x W W'"
  shows "wal_part base (if l_fatal (sy_log W) = None then log @ [x] else log) W'"
    and "l_fatal (sy_log W') = l_fatal (sy_log W)" "committed W' = committed W"
    and "l_fatal (sy_log W) = None \<Longrightarrow> length log = length (sy_sent W)" "length log \<le> length (sy_sent W)"
proof -
  obtain l' where l: "Append_send (length (sy_sent W)) (payload_type x) (Marshal x) (sy_log W) = Inr l'"
      "int (length (l_reqs (sy_log W))) < wo_BatchMax (l_opts (sy_log W))"
    and W': "W' = W\<lparr>sy_log := l', sy_sent := sy_sent W @
          [\<lparr>rq_id = length (sy_sent W), rq_typ = payload_type x, rq_payload = Marshal x\<rparr>]\<rparr>"
    using s by (auto simp: sends_def appendJSON_def)
  have P: "wal_inv (map rec_of_payload base) W" "map rq_id (sy_sent W) = [0..<length (sy_sent W)]"
    "length log \<le> length (sy_sent W)"
    "l_fatal (sy_log W) = None \<Longrightarrow> map req_rec (sy_sent W) = map rec_of_payload log"
    using p by (simp_all add: wal_part_def)
  have "length (sy_sent W) \<notin> set (map rq_id (sy_sent W))" unfolding P(2) by simp
  then have st: "wal_step W W'" using wal_step.send [OF l(1) _ l(2)] W' by auto
  show f: "l_fatal (sy_log W') = l_fatal (sy_log W)" using l W' by (auto simp: Append_send_def split: if_splits)
  show c: "committed W' = committed W" using W' by (simp add: committed_def)
  show "length log \<le> length (sy_sent W)" by (rule P(3))
  show "length log = length (sy_sent W)" if "l_fatal (sy_log W) = None"
    using map_eq_imp_length_eq [OF P(4) [OF that]] by simp
  have ids: "map rq_id (sy_sent W') = [0..<length (sy_sent W')]" using W' P(2) by simp
  note inv = wal_inv_step [OF P(1) st]
  show "wal_part base (if l_fatal (sy_log W) = None then log @ [x] else log) W'"
  proof (cases "l_fatal (sy_log W)")
    case None
    have "map req_rec (sy_sent W') = map rec_of_payload (log @ [x])"
      using P(4) [OF None] W' by (simp add: req_rec_def rec_of_payload_def)
    then show ?thesis using wal_partI [OF inv ids] None by simp
  next
    case (Some e)
    then show ?thesis using p inv ids f c W' unfolding wal_part_def by auto
  qed
qed

lemma wal_part_writer:
  assumes p: "wal_part base log W" and r: "run_once io (sy_log W) (sy_fs W) = Some (l', fs', rep)"
    and W': "W' = W\<lparr>sy_log := l', sy_fs := fs', sy_done := sy_done W @ rep\<rparr>"
  shows "wal_part base log W'" "committed W \<le> committed W'"
    and "l_fatal (sy_log W) \<noteq> None \<Longrightarrow> l_fatal (sy_log W') \<noteq> None \<and> committed W' = committed W"
proof -
  have inv: "wal_inv (map rec_of_payload base) W'"
    using p wal_inv_writer [OF _ r] unfolding W' by (simp add: wal_part_def)
  have sticky: "l' = sy_log W\<lparr>l_reqs := l_reqs l'\<rparr> \<and> fs' = sy_fs W \<and> (\<forall>a \<in> set rep. snd a \<noteq> None)"
    if f: "l_fatal (sy_log W) = Some e" for e
  proof -
    obtain batch rest where "commit io batch (sy_log W\<lparr>l_reqs := rest\<rparr>) (sy_fs W) = (l', fs', rep)"
      using r by (auto simp: run_once_def split: option.splits)
    from commit_fatal [OF this] show ?thesis using f by (auto simp: reply_def)
  qed
  show "committed W \<le> committed W'" by (simp add: committed_def W')
  show s2: "l_fatal (sy_log W') \<noteq> None \<and> committed W' = committed W" if "l_fatal (sy_log W) \<noteq> None"
    using that sticky W' by (auto simp: committed_def filter_empty_conv) (metis walLog.select_convs walLog.surjective walLog.update_convs)+
  show "wal_part base log W'"
  proof (cases "l_fatal (sy_log W)")
    case None
    then have "map req_rec (sy_sent W') = map rec_of_payload log" "map rq_id (sy_sent W') = [0..<length (sy_sent W')]"
      using p W' by (simp_all add: wal_part_def)
    then show ?thesis using wal_partI [OF inv] by blast
  next
    case (Some e)
    then show ?thesis using p inv s2 sticky [OF Some] W' unfolding wal_part_def by auto
  qed
qed

lemma wal_part_close:
  assumes p: "wal_part base log W" and c: "Close_begin (sy_log W) = Some l'"
  shows "wal_part base log (W\<lparr>sy_log := l'\<rparr>)" "l_fatal l' = l_fatal (sy_log W)"
    "committed (W\<lparr>sy_log := l'\<rparr>) = committed W"
proof -
  show "l_fatal l' = l_fatal (sy_log W)" using c by (auto simp: Close_begin_def split: if_splits)
  moreover show "committed (W\<lparr>sy_log := l'\<rparr>) = committed W" by (simp add: committed_def)
  ultimately show "wal_part base log (W\<lparr>sy_log := l'\<rparr>)"
    using p wal_inv_step [OF _ closing [OF c]] unfolding wal_part_def by auto
qed

section \<open>One queue of the broker\<close>

text \<open>
  A queue seen alone: its records among those of the log, numbered among themselves. A request sent
  after the log's failure counts as refused, as it is never written.
\<close>

fun seen :: "string \<Rightarrow> payload list \<Rightarrow> payload list \<Rightarrow> stage \<Rightarrow> stage" where
  "seen n base log (Sent k) = (if k < length log then Sent (length (about n (base @ take k log))) else Refused)"
| "seen n base log st = st"

definition view :: "string \<Rightarrow> payload list \<Rightarrow> payload list \<Rightarrow> server \<Rightarrow> queue \<Rightarrow> qsys" where
  "view n base log S q = \<lparr>qs_q = q, qs_ops = map (map_prod id (seen n base log)) (sv_ops S n),
     qs_sent = about n (base @ log), qs_committed = length (about n (base @ take (committed (sv_wal S)) log)),
     qs_failed = (l_fatal (sy_log (sv_wal S)) \<noteq> None), qs_hist = sv_hist S n\<rparr>"

definition stage_ok :: "string \<Rightarrow> payload list \<Rightarrow> nat \<Rightarrow> stage \<Rightarrow> bool" where
  "stage_ok n log sent st =
     (case st of
        Reserved p \<Rightarrow> payload_queue p = n \<and> \<not> is_create p
      | Sent k \<Rightarrow> k < sent \<and> (k < length log \<longrightarrow> payload_queue (log ! k) = n \<and> \<not> is_create (log ! k))
      | Refused \<Rightarrow> True)"

definition new_ok :: "payload list \<Rightarrow> nat \<Rightarrow> manager \<Rightarrow> config \<times> stage \<Rightarrow> bool" where
  "new_ok log sent m = (\<lambda>(cfg, st). gget (mg_queues m) (c_Name cfg) = None \<and> normalize cfg = Inr cfg \<and>
     (case st of
        Reserved p \<Rightarrow> p = PQueueCreate \<lparr>qp_Config = cfg\<rparr>
      | Sent k \<Rightarrow> k < sent \<and> (k < length log \<longrightarrow> log ! k = PQueueCreate \<lparr>qp_Config = cfg\<rparr>)
      | Refused \<Rightarrow> True))"

definition pending :: "(config \<times> stage) option \<Rightarrow> string set" where
  "pending x = (case x of Some (cfg, Sent k) \<Rightarrow> {c_Name cfg} | _ \<Rightarrow> {})"

text \<open>
  A registered queue was created in the committed part of the log and is a queue of \<open>QueueSys\<close>; of an
  unregistered one there is no trace. While the log works, only the creation in progress may be in the
  log and not registered.
\<close>

definition server_inv :: "(string \<Rightarrow> qevent list) \<Rightarrow> payload list \<Rightarrow> payload list \<Rightarrow> server \<Rightarrow> bool" where
  "server_inv H base log S \<longleftrightarrow>
     wal_part base log (sv_wal S) \<and> mlog_wf (base @ log) \<and> (\<forall>p \<in> set (base @ log). payload_ok p) \<and>
     set (base @ log) \<subseteq> set (sv_sent S) \<and>
     (\<forall>n q. gget (mg_queues (sv_mgr S)) n = Some q \<longrightarrow>
        (\<exists>cfg. PQueueCreate \<lparr>qp_Config = cfg\<rparr> \<in> set (base @ take (committed (sv_wal S)) log) \<and> c_Name cfg = n \<and>
           qlife cfg (H n) (view n base log S q))) \<and>
     (\<forall>n. gget (mg_queues (sv_mgr S)) n = None \<longrightarrow>
        sv_ops S n = [] \<and> sv_hist S n = [] \<and> H n = [] \<and> about n (base @ log) = []) \<and>
     (\<forall>n. \<forall>x \<in> set (sv_ops S n). stage_ok n log (length (sy_sent (sv_wal S))) (snd x)) \<and>
     (\<forall>x. sv_new S = Some x \<longrightarrow> new_ok log (length (sy_sent (sv_wal S))) (sv_mgr S) x) \<and>
     (l_fatal (sy_log (sv_wal S)) = None \<longrightarrow>
        created (base @ log) \<subseteq> gkeys (mg_queues (sv_mgr S)) \<union> pending (sv_new S))"

lemma server_invD:
  assumes "server_inv H base log S"
  shows "wal_part base log (sv_wal S)" "mlog_wf (base @ log)" "\<forall>p \<in> set (base @ log). payload_ok p"
    "set (base @ log) \<subseteq> set (sv_sent S)"
    "\<And>n q. gget (mg_queues (sv_mgr S)) n = Some q \<Longrightarrow>
        \<exists>cfg. PQueueCreate \<lparr>qp_Config = cfg\<rparr> \<in> set (base @ take (committed (sv_wal S)) log) \<and> c_Name cfg = n \<and>
           qlife cfg (H n) (view n base log S q)"
    "\<And>n. gget (mg_queues (sv_mgr S)) n = None \<Longrightarrow>
        sv_ops S n = [] \<and> sv_hist S n = [] \<and> H n = [] \<and> about n (base @ log) = []"
    "\<And>n x. x \<in> set (sv_ops S n) \<Longrightarrow> stage_ok n log (length (sy_sent (sv_wal S))) (snd x)"
    "\<And>x. sv_new S = Some x \<Longrightarrow> new_ok log (length (sy_sent (sv_wal S))) (sv_mgr S) x"
    "l_fatal (sy_log (sv_wal S)) = None \<Longrightarrow>
        created (base @ log) \<subseteq> gkeys (mg_queues (sv_mgr S)) \<union> pending (sv_new S)"
  using assms unfolding server_inv_def by blast+

lemma about_mono: "i \<le> j \<Longrightarrow> length (about n (take i log)) \<le> length (about n (take j log))"
proof -
  assume "i \<le> j"
  then have "take j log = take i log @ drop i (take j log)" by (metis append_take_drop_id min.absorb1 take_take)
  then show ?thesis by (metis about_simps(2) le_add1 length_append)
qed

lemma about_less:
  "k < j \<Longrightarrow> k < length log \<Longrightarrow> payload_queue (log ! k) = n \<Longrightarrow> \<not> is_create (log ! k) \<Longrightarrow>
     length (about n (take k log)) < length (about n (take j log))"
  using about_mono [of "Suc k" j n log] by (simp add: take_Suc_conv_app_nth)

lemma seen_snoc: "stage_ok n log (length log) st \<Longrightarrow> seen m base (log @ [p]) st = seen m base log st"
  by (cases st) (simp_all add: stage_ok_def)

lemma seen_snoc_ops:
  "\<forall>x \<in> set ops. stage_ok n log (length log) (snd x) \<Longrightarrow>
     map (map_prod id (seen m base (log @ [p]))) ops = map (map_prod id (seen m base log)) ops"
  by (auto simp: map_prod_def seen_snoc)

lemma seen_reserved:
  "\<forall>x \<in> set ops. \<exists>p. snd x = Reserved p \<and> P p \<Longrightarrow> map (map_prod id (seen n base log)) ops = ops"
  by (induction ops) auto

lemma view_simps [simp]:
  "qs_q (view n base log S q) = q"
  "qs_ops (view n base log S q) = map (map_prod id (seen n base log)) (sv_ops S n)"
  "qs_sent (view n base log S q) = about n (base @ log)"
  "qs_committed (view n base log S q) = length (about n (base @ take (committed (sv_wal S)) log))"
  "qs_failed (view n base log S q) \<longleftrightarrow> l_fatal (sy_log (sv_wal S)) \<noteq> None"
  "qs_hist (view n base log S q) = sv_hist S n"
  by (simp_all add: view_def)

lemma view_upd [simp]:
  "view n base log (S\<lparr>sv_mgr := m\<rparr>) q = view n base log S q"
  "view n base log (S\<lparr>sv_new := x\<rparr>) q = view n base log S q"
  by (simp_all add: view_def)

lemma view_replied:
  assumes w: "wal_part base log (sv_wal S)" and r: "replied (sv_wal S) st err"
    and ok: "stage_ok n log (length (sy_sent (sv_wal S))) st"
  shows "answered (view n base log S q) (seen n base log st) err"
proof (cases st)
  case (Sent k)
  then obtain r where k: "(k, r) \<in> set (sy_done (sv_wal S))" "err = map_option ErrWal r"
    using r by (auto simp: replied_def)
  note c = wal_part_reply [OF w k(1)]
  show ?thesis
  proof (cases r)
    case None
    then have "k < length log" using c wal_part_committed [OF w] by simp
    then show ?thesis using Sent None c k(2) ok about_less by (simp add: answered_def stage_ok_def)
  next
    case (Some e)
    then show ?thesis using Sent c k(2) about_mono by (simp add: answered_def)
  qed
qed (use r in \<open>auto simp: replied_def answered_def\<close>)

section \<open>Every step keeps the invariant\<close>

lemma server_name:
  assumes "server_inv H base log S" "gget (mg_queues (sv_mgr S)) n = Some q"
  shows "c_Name (q_cfg q) = n"
proof -
  obtain cfg where c: "c_Name cfg = n" "qlife cfg (H n) (view n base log S q)" using server_invD(5) [OF assms] by blast
  then show ?thesis using qlife_inv [OF c(2)] qs_invD(1) by fastforce
qed

lemma lookup_iff: "Queue_lookup n m = Inr q \<longleftrightarrow> gget (mg_queues m) n = Some q"
  by (simp add: Queue_lookup_def split: option.split)

text \<open>Steps of one queue: nothing changes for the others.\<close>

lemma server_inv_queue:
  assumes inv: "server_inv H base log S" and q: "gget (mg_queues (sv_mgr S)) n = Some q"
    and m: "\<And>k. gget (mg_queues m') k = (if k = n then Some q' else gget (mg_queues (sv_mgr S)) k)"
    and S': "S' = S\<lparr>sv_mgr := m', sv_ops := (sv_ops S)(n := ops), sv_hist := (sv_hist S)(n := h)\<rparr>"
    and st: "qstep (view n base log S q) (view n base log S' q')"
    and ok: "\<forall>x \<in> set ops. stage_ok n log (length (sy_sent (sv_wal S))) (snd x)"
  shows "server_inv H base log S'"
proof -
  note I = server_invD [OF inv]
  have w: "sv_wal S' = sv_wal S" "sv_new S' = sv_new S" "sv_sent S' = sv_sent S" by (simp_all add: S')
  have keys: "gkeys (mg_queues (sv_mgr S')) = gkeys (mg_queues (sv_mgr S))" using m q by (auto simp: S' gkeys_iff split: if_splits)
  have vw: "k \<noteq> n \<Longrightarrow> view k base log S' x = view k base log S x" for k x by (simp add: view_def S')
  show ?thesis unfolding server_inv_def w keys
  proof (intro conjI allI impI ballI)
    fix k x assume k: "gget (mg_queues (sv_mgr S')) k = Some x"
    show "\<exists>cfg. PQueueCreate \<lparr>qp_Config = cfg\<rparr> \<in> set (base @ take (committed (sv_wal S)) log) \<and> c_Name cfg = k \<and>
           qlife cfg (H k) (view k base log S' x)"
    proof (cases "k = n")
      case True
      then have "x = q'" using k m by (simp add: S')
      then show ?thesis using I(5) [OF q] True qlife_step [OF _ st] by blast
    next
      case False
      then have "gget (mg_queues (sv_mgr S)) k = Some x" using k m by (simp add: S')
      then show ?thesis using I(5) [of k x] vw [OF False] by simp
    qed
  next
    fix x assume x: "sv_new S = Some x"
    obtain cfg st where xx: "x = (cfg, st)" by (cases x)
    have "c_Name cfg \<noteq> n" using I(8) [OF x] q by (auto simp: new_ok_def xx)
    then show "new_ok log (length (sy_sent (sv_wal S))) (sv_mgr S') x"
      using I(8) [OF x] m by (simp add: new_ok_def xx S')
  qed (use I m ok q in \<open>auto simp: S' split: if_splits\<close>)
qed

lemma server_inv_call:
  assumes inv: "server_inv H base log S" and q: "gget (mg_queues (sv_mgr S)) n = Some q" and c: "qcall q q' new"
  shows "server_inv H base log
    (S\<lparr>sv_mgr := put_queue n q' (sv_mgr S), sv_ops := (sv_ops S)(n := sv_ops S n @ new)\<rparr>)" (is "server_inv _ _ _ ?S'")
proof -
  note new = qcall_payloads [OF c]
  have "view n base log ?S' q' = (view n base log S q)\<lparr>qs_q := q', qs_ops := qs_ops (view n base log S q) @ new\<rparr>"
    using seen_reserved [OF new, of n base log] by (simp add: view_def)
  then have st: "qstep (view n base log S q) (view n base log ?S' q')"
    using q_call [of "view n base log S q" q' new] c by simp
  have ok: "stage_ok n log s (snd x)" if "x \<in> set new" for x s
    using new that server_name [OF inv q] by (force simp: stage_ok_def)
  show ?thesis
    by (rule server_inv_queue [OF inv q _ _ st, where h = "sv_hist S n"])
      (use ok server_invD(7) [OF inv] in \<open>auto simp: put_queue_def\<close>)
qed

lemma server_inv_finish:
  assumes inv: "server_inv H base log S" and q: "gget (mg_queues (sv_mgr S)) n = Some q"
    and ops: "sv_ops S n = xs @ (op, st) # ys" and r: "replied (sv_wal S) st err"
    and f: "finish_op clock op err q = (q', ops', evs)"
  shows "server_inv H base log (S\<lparr>sv_mgr := put_queue n q' (sv_mgr S), sv_ops := (sv_ops S)(n := xs @ ys @ ops'),
      sv_hist := (sv_hist S)(n := sv_hist S n @ evs)\<rparr>)" (is "server_inv _ _ _ ?S'")
proof -
  note new = finish_payloads [OF f]
  let ?f = "map_prod id (seen n base log)"
  have stg: "\<forall>x \<in> set (xs @ (op, st) # ys). stage_ok n log (length (sy_sent (sv_wal S))) (snd x)"
    using server_invD(7) [OF inv, of _ n] unfolding ops by blast
  have a: "answered (view n base log S q) (seen n base log st) err"
    using view_replied [OF server_invD(1) [OF inv] r] stg by simp
  have "view n base log ?S' q' = (view n base log S q)\<lparr>qs_q := q', qs_ops := map ?f xs @ map ?f ys @ ops',
      qs_hist := qs_hist (view n base log S q) @ evs\<rparr>"
    using seen_reserved [OF new, of n base log] by (simp add: view_def)
  then have s: "qstep (view n base log S q) (view n base log ?S' q')"
    using q_finish [of "view n base log S q" "map ?f xs" op "seen n base log st" "map ?f ys"] a f ops by simp
  have "stage_ok n log k (snd x)" if "x \<in> set ops'" for x k
  proof -
    obtain cfg where "qs_inv cfg (view n base log S q)" "c_Name cfg = n"
      using server_invD(5) [OF inv q] qlife_inv by blast
    moreover from this have "qs_inv cfg (view n base log ?S' q')" using qs_inv_step s by blast
    ultimately have "c_Name (q_cfg q') = n" using qs_invD(1) by fastforce
    then show ?thesis using new that by (force simp: stage_ok_def)
  qed
  then show ?thesis
    by (intro server_inv_queue [OF inv q _ refl s]) (use stg in \<open>simp_all add: put_queue_def ball_Un\<close>)
qed

lemma server_inv_refuse:
  assumes inv: "server_inv H base log S" and ops: "sv_ops S n = xs @ (op, Reserved p) # ys"
    and st: "seen n base log st = Refused" "stage_ok n log (length (sy_sent (sv_wal S))) st"
  shows "server_inv H base log (S\<lparr>sv_ops := (sv_ops S)(n := xs @ (op, st) # ys)\<rparr>)" (is "server_inv _ _ _ ?S'")
proof -
  let ?f = "map_prod id (seen n base log)"
  obtain q where q: "gget (mg_queues (sv_mgr S)) n = Some q" using server_invD(6) [OF inv, of n] ops by fastforce
  have v: "view n base log ?S' q = (view n base log S q)\<lparr>qs_ops := map ?f xs @ (op, Refused) # map ?f ys\<rparr>"
    using st(1) by (simp add: view_def)
  have s: "qstep (view n base log S q) (view n base log ?S' q)"
    unfolding v by (rule q_refuse) (use ops in simp)
  have stg: "\<forall>x \<in> set (xs @ (op, Reserved p) # ys). stage_ok n log (length (sy_sent (sv_wal S))) (snd x)"
    using server_invD(7) [OF inv, of _ n] unfolding ops by blast
  show ?thesis
    by (rule server_inv_queue [OF inv q _ _ s, where m' = "sv_mgr S" and h = "sv_hist S n" and ops = "xs @ (op, st) # ys"])
      (use stg q st(2) in \<open>simp_all add: ball_Un\<close>)
qed

text \<open>A record that enters the log.\<close>

lemma stage_ok_snoc: "stage_ok n log (length log) st \<Longrightarrow> stage_ok n (log @ [p]) (Suc (length log)) st"
  by (cases st) (auto simp: stage_ok_def nth_append)

lemma new_ok_snoc: "new_ok log (length log) m x \<Longrightarrow> new_ok (log @ [p]) (Suc (length log)) m x"
  by (cases x; cases "snd x") (auto simp: new_ok_def nth_append)

lemma sends_sent: "sends p W W' \<Longrightarrow> length (sy_sent W') = Suc (length (sy_sent W)) \<and> payload_ok p"
  by (auto simp: sends_def)

lemma view_snoc:
  assumes inv: "server_inv H base log S" and s: "sends p (sv_wal S) W'" and f: "l_fatal (sy_log (sv_wal S)) = None"
    and S': "sv_wal S' = W'" "sv_ops S' n = sv_ops S n" "sv_hist S' n = sv_hist S n"
    and p: "is_create p \<or> payload_queue p \<noteq> n"
  shows "view n base (log @ [p]) S' q = view n base log S q"
proof -
  note W = server_invD(1) [OF inv] and snd = wal_part_send [OF server_invD(1) [OF inv] s]
  have "\<forall>x \<in> set (sv_ops S n). stage_ok n log (length log) (snd x)"
    using server_invD(7) [OF inv, of _ n] snd(4) [OF f] by simp
  from seen_snoc_ops [OF this, of n base p] show ?thesis
    using wal_part_committed [OF W] snd(2,3) p S' by (auto simp: view_def)
qed

lemma server_inv_grow:
  assumes inv: "server_inv H base log S" and s: "sends p (sv_wal S) W'" and f: "l_fatal (sy_log (sv_wal S)) = None"
    and w: "mrec_wf (base @ log) p"
    and S': "sv_wal S' = W'" "sv_mgr S' = sv_mgr S" "sv_hist S' = sv_hist S" "sv_sent S' = sv_sent S @ [p]"
    and vw: "\<And>n q. gget (mg_queues (sv_mgr S)) n = Some q \<Longrightarrow>
        qstep\<^sup>=\<^sup>= (view n base log S q) (view n base (log @ [p]) S' q)"
    and ab: "\<And>n. gget (mg_queues (sv_mgr S)) n = None \<Longrightarrow> sv_ops S' n = [] \<and> about n [p] = []"
    and stg: "\<And>n x. x \<in> set (sv_ops S' n) \<Longrightarrow> stage_ok n (log @ [p]) (Suc (length log)) (snd x)"
    and new: "\<And>x. sv_new S' = Some x \<Longrightarrow> new_ok (log @ [p]) (Suc (length log)) (sv_mgr S) x"
    and cr: "created [p] \<union> pending (sv_new S) \<subseteq> pending (sv_new S') \<union> gkeys (mg_queues (sv_mgr S))"
  shows "server_inv H base (log @ [p]) S'"
proof -
  note I = server_invD [OF inv] and snd = wal_part_send [OF server_invD(1) [OF inv] s]
  have c: "take (committed W') (log @ [p]) = take (committed (sv_wal S)) log"
    using wal_part_committed [OF I(1)] snd(3) by simp
  have len: "length (sy_sent W') = Suc (length log)" using sends_sent [OF s] snd(4) [OF f] by simp
  show ?thesis unfolding server_inv_def S' c len
  proof (intro conjI allI impI ballI)
    show "wal_part base (log @ [p]) W'" using snd(1) f by simp
    show "mlog_wf (base @ log @ [p])" using mlog_wf_snoc [OF I(2) w] by simp
    show "payload_ok x" if "x \<in> set (base @ log @ [p])" for x using that I(3) sends_sent [OF s] by auto
    show "set (base @ log @ [p]) \<subseteq> set (sv_sent S @ [p])" using I(4) by auto
    show "\<exists>cfg. PQueueCreate \<lparr>qp_Config = cfg\<rparr> \<in> set (base @ take (committed (sv_wal S)) log) \<and> c_Name cfg = n \<and>
           qlife cfg (H n) (view n base (log @ [p]) S' q)"
      if "gget (mg_queues (sv_mgr S)) n = Some q" for n q
      using I(5) [OF that] vw [OF that] qlife_step by fastforce
    show "created (base @ log @ [p]) \<subseteq> gkeys (mg_queues (sv_mgr S)) \<union> pending (sv_new S')"
      using I(9) [OF f] cr by auto
  qed (use I(6) ab stg new in auto)
qed

lemma server_created:
  "server_inv H base log S \<Longrightarrow> gget (mg_queues (sv_mgr S)) n = Some q \<Longrightarrow> n \<in> created (base @ log)"
  by (drule (1) server_invD(5)) (auto simp: created_def image_iff dest!: in_set_takeD intro: exI)

text \<open>The log moves on: it commits, fails or is closed, or takes a request that it will not write.\<close>

lemma server_inv_wal:
  assumes inv: "server_inv H base log S" and W: "wal_part base log W'"
    and len: "length (sy_sent (sv_wal S)) \<le> length (sy_sent W')"
    and c: "committed (sv_wal S) \<le> committed W'"
    and f: "l_fatal (sy_log (sv_wal S)) \<noteq> None \<Longrightarrow> l_fatal (sy_log W') \<noteq> None \<and> committed W' = committed (sv_wal S)"
    and S': "S' = S\<lparr>sv_wal := W', sv_sent := sv_sent S @ ps\<rparr>"
  shows "server_inv H base log S'"
proof -
  note I = server_invD [OF inv]
  have life: "qlife cfg H' (view n base log S' q)" if l: "qlife cfg H' (view n base log S q)" for cfg H' n q
  proof -
    let ?v = "view n base log S q" and ?k = "length (about n (base @ take (committed W') log))"
    have "qlife cfg H' (?v\<lparr>qs_committed := ?k\<rparr>)"
    proof (cases "l_fatal (sy_log (sv_wal S)) = None")
      case True
      have "?k \<le> length (about n (base @ log))" using about_mono [of "committed W'" "length log" n log] wal_part_committed [OF W] by simp
      then show ?thesis using qlife_step [OF l q_commit [of ?v ?k]] True c about_mono by simp
    next
      case False
      then have "?v\<lparr>qs_committed := ?k\<rparr> = ?v" using f by (simp add: view_def)
      then show ?thesis using l by simp
    qed
    moreover from qlife_step [OF this q_fail] have "qlife cfg H' (?v\<lparr>qs_committed := ?k, qs_failed := True\<rparr>)" by simp
    moreover have "view n base log S' q = (if l_fatal (sy_log W') = None then ?v\<lparr>qs_committed := ?k\<rparr>
        else ?v\<lparr>qs_committed := ?k, qs_failed := True\<rparr>)"
      using f by (cases "l_fatal (sy_log (sv_wal S))") (simp_all add: view_def S')
    ultimately show ?thesis by simp
  qed
  have mono: "stage_ok n log s st \<Longrightarrow> s \<le> s' \<Longrightarrow> stage_ok n log s' st" for n s s' st
    by (cases st) (auto simp: stage_ok_def)
  have mono': "new_ok log s m x \<Longrightarrow> s \<le> s' \<Longrightarrow> new_ok log s' m x" for s s' m x
    by (cases x; cases "snd x") (auto simp: new_ok_def)
  have sub: "set (take (committed (sv_wal S)) log) \<subseteq> set (take (committed W') log)"
    using c by (rule set_take_subset_set_take)
  show ?thesis unfolding server_inv_def
  proof (intro conjI allI impI ballI)
    fix n q assume "gget (mg_queues (sv_mgr S')) n = Some q"
    then obtain cfg where cfg: "PQueueCreate \<lparr>qp_Config = cfg\<rparr> \<in> set (base @ take (committed (sv_wal S)) log)"
      "c_Name cfg = n" "qlife cfg (H n) (view n base log S q)" using I(5) [of n q] by (auto simp: S')
    then show "\<exists>cfg. PQueueCreate \<lparr>qp_Config = cfg\<rparr> \<in> set (base @ take (committed (sv_wal S')) log) \<and> c_Name cfg = n \<and>
           qlife cfg (H n) (view n base log S' q)"
      using life [OF cfg(3)] sub by (intro exI [of _ cfg]) (auto simp: S')
  qed (use I(2-4,6,9) mono [OF I(7) len] mono' [OF I(8) len] W f in \<open>auto simp: S'\<close>)
qed

lemma server_inv_late:
  assumes inv: "server_inv H base log S" and s: "sends p (sv_wal S) W'" and f: "l_fatal (sy_log (sv_wal S)) \<noteq> None"
  shows "server_inv H base log (S\<lparr>sv_wal := W', sv_sent := sv_sent S @ [p]\<rparr>)"
    and "length log \<le> length (sy_sent (sv_wal S))"
proof -
  note snd = wal_part_send [OF server_invD(1) [OF inv] s]
  show "server_inv H base log (S\<lparr>sv_wal := W', sv_sent := sv_sent S @ [p]\<rparr>)"
    by (rule server_inv_wal [OF inv _ _ _ _ refl]) (use snd(1-3) f sends_sent [OF s] in simp_all)
  show "length log \<le> length (sy_sent (sv_wal S))" by (rule snd(5))
qed

lemma server_inv_send:
  assumes inv: "server_inv H base log S" and ops: "sv_ops S n = xs @ (op, Reserved p) # ys"
    and s: "sends p (sv_wal S) W'"
  shows "\<exists>log'. server_inv H base log' (S\<lparr>sv_wal := W', sv_sent := sv_sent S @ [p],
      sv_ops := (sv_ops S)(n := xs @ (op, Sent (length (sy_sent (sv_wal S)))) # ys)\<rparr>)" (is "\<exists>log'. server_inv _ _ _ ?S'")
proof (cases "l_fatal (sy_log (sv_wal S))")
  case None
  note I = server_invD [OF inv] and snd = wal_part_send [OF server_invD(1) [OF inv] s]
  obtain q where q: "gget (mg_queues (sv_mgr S)) n = Some q" using I(6) [of n] ops by fastforce
  have p: "payload_queue p = n" "\<not> is_create p" using I(7) [of "(op, Reserved p)" n] ops by (simp_all add: stage_ok_def)
  have stg: "stage_ok k log (length log) (snd x)" if "x \<in> set (sv_ops S k)" for x k
    using I(7) [OF that] snd(4) [OF None] by simp
  let ?f = "map_prod id (seen n base log)"
  have "\<forall>x \<in> set (xs @ ys). stage_ok n log (length log) (snd x)" using stg [of _ n] ops by auto
  from seen_snoc_ops [OF this, of n base p]
  have v: "view n base (log @ [p]) ?S' q = (view n base log S q)\<lparr>
      qs_ops := map ?f xs @ (op, Sent (length (qs_sent (view n base log S q)))) # map ?f ys,
      qs_sent := qs_sent (view n base log S q) @ [p]\<rparr>"
    using snd(2,3) snd(4) [OF None] wal_part_committed [OF I(1)] p by (simp add: view_def)
  have st: "qstep (view n base log S q) (view n base (log @ [p]) ?S' q)"
    unfolding v by (rule q_send) (use ops None in simp_all)
  obtain cfg where cfg: "qlife cfg (H n) (view n base log S q)" using I(5) [OF q] by blast
  have "log_wf (about n (base @ log) @ [p])"
    using qlife_inv [OF qlife_step [OF cfg st]] qs_invD(5) p by fastforce
  then have "rec_wf (about n (base @ log)) p" by (rule log_wf_snocE) simp
  then have w: "mrec_wf (base @ log) p" using p server_created [OF inv q] by (simp add: mrec_wf_other)
  have nw: "new_ok (log @ [p]) (Suc (length log)) (sv_mgr S) x" if "sv_new S = Some x" for x
    using new_ok_snoc [of log "sv_mgr S" x p] I(8) [OF that] snd(4) [OF None] by simp
  have "server_inv H base (log @ [p]) ?S'"
  proof (rule server_inv_grow [OF inv s None w])
    fix k q' assume k: "gget (mg_queues (sv_mgr S)) k = Some q'"
    show "qstep\<^sup>=\<^sup>= (view k base log S q') (view k base (log @ [p]) ?S' q')"
    proof (cases "k = n")
      case True
      then show ?thesis using st k q by simp
    next
      case False
      then show ?thesis using view_snoc [OF inv s None, of ?S' k q'] p by simp
    qed
  next
    fix k x assume "x \<in> set (sv_ops ?S' k)"
    then have "x \<in> set (sv_ops S k) \<or> k = n \<and> x = (op, Sent (length log))"
      using ops snd(4) [OF None] by (auto split: if_splits)
    then show "stage_ok k (log @ [p]) (Suc (length log)) (snd x)"
    proof
      assume "x \<in> set (sv_ops S k)"
      from stage_ok_snoc [OF stg [OF this]] show ?thesis .
    qed (use p in \<open>simp add: stage_ok_def\<close>)
  qed (use I(6) q p nw in auto)
  then show ?thesis by blast
next
  case (Some e)
  note late = server_inv_late [OF inv s]
  have "server_inv H base log ?S'"
    using server_inv_refuse [OF late(1), of n xs op p ys "Sent (length (sy_sent (sv_wal S)))"] late(2) ops Some
      sends_sent [OF s] by (simp add: stage_ok_def)
  then show ?thesis by blast
qed

text \<open>Creation.\<close>

lemma server_inv_new:
  assumes inv: "server_inv H base log S" and x: "\<And>y. x = Some y \<Longrightarrow> new_ok log (length (sy_sent (sv_wal S))) (sv_mgr S) y"
    and p: "l_fatal (sy_log (sv_wal S)) = None \<Longrightarrow> pending (sv_new S) \<subseteq> pending x"
  shows "server_inv H base log (S\<lparr>sv_new := x\<rparr>)"
proof -
  have "created (base @ log) \<subseteq> gkeys (mg_queues (sv_mgr S)) \<union> pending x" if "l_fatal (sy_log (sv_wal S)) = None"
    using server_invD(9) [OF inv that] p [OF that] by blast
  then show ?thesis using inv x unfolding server_inv_def by simp
qed

lemma server_inv_create_send:
  assumes inv: "server_inv H base log S" and x: "sv_new S = Some (cfg, Reserved p)" and s: "sends p (sv_wal S) W'"
  shows "\<exists>log'. server_inv H base log' (S\<lparr>sv_wal := W', sv_sent := sv_sent S @ [p],
      sv_new := Some (cfg, Sent (length (sy_sent (sv_wal S))))\<rparr>)" (is "\<exists>log'. server_inv _ _ _ ?S'")
proof (cases "l_fatal (sy_log (sv_wal S))")
  case None
  note I = server_invD [OF inv] and snd = wal_part_send [OF server_invD(1) [OF inv] s]
  have c: "gget (mg_queues (sv_mgr S)) (c_Name cfg) = None" "normalize cfg = Inr cfg" "p = PQueueCreate \<lparr>qp_Config = cfg\<rparr>"
    using I(8) [OF x] by (simp_all add: new_ok_def)
  have "c_Name cfg \<notin> created (base @ log)" using I(9) [OF None] c(1) x by (auto simp: pending_def gkeys_iff)
  then have w: "mrec_wf (base @ log) p" using c by (simp add: mrec_wf_def)
  have stg: "stage_ok n (log @ [p]) (Suc (length log)) (snd y)" if "y \<in> set (sv_ops ?S' n)" for n y
    using stage_ok_snoc [of n log "snd y" p] I(7) [of y n] that snd(4) [OF None] by simp
  have "server_inv H base (log @ [p]) ?S'"
    by (rule server_inv_grow [OF inv s None w])
      (use view_snoc [OF inv s None, of ?S'] I(6) c stg x snd(4) [OF None] in
        \<open>auto simp: new_ok_def pending_def nth_append\<close>)
  then show ?thesis by blast
next
  case (Some e)
  note late = server_inv_late [OF inv s]
  have "new_ok log (length (sy_sent W')) (sv_mgr S) (cfg, Sent (length (sy_sent (sv_wal S))))"
    using server_invD(8) [OF inv x] late(2) Some sends_sent [OF s] by (simp add: new_ok_def)
  then have "server_inv H base log ?S'"
    using server_inv_new [OF late(1), of "Some (cfg, Sent (length (sy_sent (sv_wal S))))"] Some x by (simp add: pending_def)
  then show ?thesis by blast
qed

text \<open>A queue whose creation was committed is new: it has no record, no caller and no history yet.\<close>

lemma view_new:
  assumes inv: "server_inv H base log S" and n: "gget (mg_queues (sv_mgr S)) n = None"
    and S': "sv_wal S' = sv_wal S" "sv_ops S' = sv_ops S" "sv_hist S' = sv_hist S" and cfg: "c_Name cfg = n"
  shows "qlife cfg (H n) (view n base log S' (newQueue cfg))"
proof -
  let ?s = "\<lparr>qs_q = newQueue cfg, qs_ops = [], qs_sent = [], qs_committed = 0, qs_failed = False, qs_hist = []\<rparr>"
  note I = server_invD(6) [OF inv n]
  have "finalize_queue 0 [] (newQueue cfg) = newQueue cfg" by (simp add: finalize_queue_def newQueue_def)
  then have l: "qlife cfg [] ?s" by (intro qlife_new [where now = 0]) (simp add: qs_start_def)
  have "qlife cfg [] (?s\<lparr>qs_failed := True\<rparr>)" by (rule qlife_step [OF l q_fail])
  moreover have "about n (take k log) = []" for k using I by (auto simp: about_def filter_empty_conv dest: in_set_takeD)
  ultimately show ?thesis using I l S' by (cases "l_fatal (sy_log (sv_wal S))") (simp_all add: view_def)
qed

lemma server_inv_create_finish:
  assumes inv: "server_inv H base log S" and x: "sv_new S = Some (cfg, st)" and r: "replied (sv_wal S) st err"
    and f: "CreateQueue_finish cfg err (sv_mgr S) = (m', res)"
  shows "server_inv H base log (S\<lparr>sv_mgr := m', sv_new := None\<rparr>)" (is "server_inv _ _ _ ?S'")
proof -
  note I = server_invD [OF inv]
  have nw: "gget (mg_queues (sv_mgr S)) (c_Name cfg) = None"
    "\<And>k. st = Sent k \<Longrightarrow> k < length log \<Longrightarrow> log ! k = PQueueCreate \<lparr>qp_Config = cfg\<rparr>"
    using I(8) [OF x] by (simp_all add: new_ok_def)
  show ?thesis
  proof (cases err)
    case (Some e)
    have "l_fatal (sy_log (sv_wal S)) \<noteq> None \<or> (\<forall>k. st \<noteq> Sent k)"
    proof (cases st)
      case (Sent k)
      then obtain w where "(k, Some w) \<in> set (sy_done (sv_wal S))" using r Some by (auto simp: replied_def map_option_case split: option.splits)
      from wal_part_reply [OF I(1) this] show ?thesis by simp
    qed simp_all
    then have "server_inv H base log (S\<lparr>sv_new := None\<rparr>)"
      by (intro server_inv_new [OF inv]) (auto simp: x pending_def split: stage.split)
    moreover have "m' = sv_mgr S" using f Some by (simp add: CreateQueue_finish_def)
    ultimately show ?thesis by simp
  next
    case None
    then obtain k where k: "st = Sent k" "(k, None) \<in> set (sy_done (sv_wal S))"
      using r by (auto simp: replied_def split: stage.splits)
    have "k < committed (sv_wal S)" using wal_part_reply [OF I(1) k(2)] by simp
    moreover from this have "k < length log" using wal_part_committed [OF I(1)] by simp
    ultimately have cr: "PQueueCreate \<lparr>qp_Config = cfg\<rparr> \<in> set (take (committed (sv_wal S)) log)"
      using nw(2) [OF k(1)] by (metis in_set_conv_nth length_take min_less_iff_conj nth_take)
    have m': "m' = put_queue (c_Name cfg) (newQueue cfg) (sv_mgr S)"
      using f None by (simp add: CreateQueue_finish_def put_queue_def Let_def)
    have qs: "\<exists>c. PQueueCreate \<lparr>qp_Config = c\<rparr> \<in> set (base @ take (committed (sv_wal S)) log) \<and> c_Name c = n \<and>
        qlife c (H n) (view n base log ?S' q)" if n: "gget (mg_queues m') n = Some q" for n q
    proof (cases "n = c_Name cfg")
      case True
      then have "q = newQueue cfg" using n by (simp add: m' put_queue_def)
      then show ?thesis using view_new [OF inv nw(1), of ?S' cfg] cr True by auto
    next
      case False
      then have "gget (mg_queues (sv_mgr S)) n = Some q" using n by (simp add: m' put_queue_def)
      from I(5) [OF this] show ?thesis by simp
    qed
    show ?thesis unfolding server_inv_def
      using I(1-4,6,7,9) qs by (auto simp: m' put_queue_def x k pending_def split: if_splits)
  qed
qed

lemma server_inv_step:
  assumes inv: "server_inv H base log S" and st: "server_step S S'"
  shows "\<exists>log'. server_inv H base log' S'"
  using st
proof cases
  case (s_call n q q' new)
  show ?thesis unfolding s_call(1) using server_inv_call [OF inv] s_call(2,3) unfolding lookup_iff by blast
next
  case (s_send n xs op p ys W')
  then show ?thesis using server_inv_send [OF inv] by simp
next
  case (s_refuse n xs op p ys)
  then show ?thesis using server_inv_refuse [OF inv, of n xs op p ys Refused] by (auto simp: stage_ok_def)
next
  case (s_finish n xs op st ys err q clock q' ops' evs)
  show ?thesis unfolding s_finish(1) using server_inv_finish [OF inv] s_finish(2-5) unfolding lookup_iff by blast
next
  case (s_create cfg0 cfg p)
  then have "new_ok log (length (sy_sent (sv_wal S))) (sv_mgr S) (cfg, Reserved p)"
    using normalize_id [OF normalize_wf]
    by (auto simp: CreateQueue_reserve_def new_ok_def split: sum.splits if_splits)
  then show ?thesis using server_inv_new [OF inv, of "Some (cfg, Reserved p)"] s_create by (auto simp: pending_def)
next
  case (s_create_send cfg p W')
  then show ?thesis using server_inv_create_send [OF inv] by simp
next
  case (s_create_refuse cfg p)
  then have "new_ok log (length (sy_sent (sv_wal S))) (sv_mgr S) (cfg, Refused)"
    using server_invD(8) [OF inv] by (fastforce simp: new_ok_def)
  then show ?thesis using server_inv_new [OF inv, of "Some (cfg, Refused)"] s_create_refuse by (auto simp: pending_def)
next
  case (s_create_finish cfg st err m' res)
  then show ?thesis using server_inv_create_finish [OF inv] by blast
next
  case (s_writer io l' fs' rep)
  note w = wal_part_writer [OF server_invD(1) [OF inv] s_writer(2) refl]
  show ?thesis unfolding s_writer(1)
    by (rule exI [of _ log], rule server_inv_wal [OF inv w(1) _ w(2,3), where ps = "[]"]) simp_all
next
  case s_close
  have "server_inv H base log (S\<lparr>sv_mgr := (sv_mgr S)\<lparr>mg_closed := True\<rparr>\<rparr>)"
    using inv s_close(2) unfolding server_inv_def by simp
  then show ?thesis unfolding s_close(1) by blast
next
  case (s_log_close l')
  note w = wal_part_close [OF server_invD(1) [OF inv] s_log_close(2)]
  show ?thesis unfolding s_log_close(1)
    by (rule exI [of _ log], rule server_inv_wal [OF inv w(1), where ps = "[]"]) (use w(2,3) in simp_all)
qed

end
