(* ===== verification/Broker.thy ===== *)
theory Broker
  imports Server
begin

text \<open>
  The lives of the broker: what a crash leaves, what \<open>Manager_Open\<close> makes of it, and what clients may
  rely on over any number of crashes and restarts.
\<close>

section \<open>Lives of the broker\<close>

lemma create_unique:
  "mlog_wf L \<Longrightarrow> PQueueCreate a \<in> set L \<Longrightarrow> PQueueCreate b \<in> set L \<Longrightarrow>
     c_Name (qp_Config a) = c_Name (qp_Config b) \<Longrightarrow> a = b"
proof (induction rule: mlog_wf.induct)
  case (mlog_wf_snoc L p)
  have "c_Name (qp_Config c) \<in> created L" if "PQueueCreate c \<in> set L" for c
    using that by (force simp: created_def)
  then show ?case using mlog_wf_snoc by (fastforce simp: mrec_wf_def)
qed simp

lemma Open_fatal: "Open io opts ap fs st = (fs', Inr (l, info, st')) \<Longrightarrow> l_fatal l = None"
  by (auto simp: Open_def Let_def split: if_splits option.splits prod.splits sum.splits)

text \<open>What \<open>Manager_Open\<close> makes of a log: each queue starts from its own records.\<close>

lemma boot_inv:
  assumes wf: "mlog_wf L" "\<forall>p \<in> set L. payload_ok p" "set L \<subseteq> set sent"
    and f: "fold_err apply_record (map rec_of_payload L) (new_manager, []) = Inr (m, rs)"
    and w: "wal_inv (map rec_of_payload L) \<lparr>sy_log = l, sy_fs = fs, sy_sent = [], sy_done = []\<rparr>" "l_fatal l = None"
    and life: "\<And>n cfg s. PQueueCreate \<lparr>qp_Config = cfg\<rparr> \<in> set L \<Longrightarrow> c_Name cfg = n \<Longrightarrow>
        qs_start cfg (unixMilli clock) (about n L) s \<Longrightarrow> qlife cfg (H n) s"
    and H: "\<And>n. n \<notin> created L \<Longrightarrow> H n = []"
  shows "server_inv H L [] (boot (finalize clock rs m) l fs sent)" (is "server_inv _ _ _ ?S")
proof -
  have ok: "mgr_ok L m rs" using mgr_replay [OF wf(1)] f fold_apply_record [OF wf(2)] by auto
  note M = mgr_okD [OF ok]
  have keys: "gget (mg_queues (finalize clock rs m)) n = None \<longleftrightarrow> n \<notin> created L" for n
    using mgr_ok_created [OF ok, of n] by (simp add: gget_finalize)
  have qs: "\<exists>cfg. PQueueCreate \<lparr>qp_Config = cfg\<rparr> \<in> set L \<and> c_Name cfg = n \<and> qlife cfg (H n) (view n L [] ?S q)"
    if q: "gget (mg_queues (finalize clock rs m)) n = Some q" for n q
  proof -
    obtain q0 where q0: "gget (mg_queues m) n = Some q0"
      "q = finalize_queue (unixMilli clock) (case gget rs n of Some l \<Rightarrow> l | None \<Rightarrow> []) q0"
      using q by (auto simp: gget_finalize)
    obtain cfg rs' where c: "PQueueCreate \<lparr>qp_Config = cfg\<rparr> \<in> set L" "c_Name cfg = n"
      "fold_err apply_queue (about n L) (newQueue cfg, []) = Inr (q0, rs')" "gget rs n = gget rs' n"
      using M(5) [OF q0(1)] by blast
    have "qs_start cfg (unixMilli clock) (about n L) (view n L [] ?S q)"
      unfolding qs_start_def using c q0(2) w(2)
      by (intro exI [of _ q0] exI [of _ rs']) (simp add: view_def boot_def)
    from life [OF c(1,2) this] show ?thesis using c(1,2) by blast
  qed
  have "wal_part L [] (sv_wal ?S)" by (rule wal_partI) (use w(1) in \<open>simp_all add: boot_def\<close>)
  moreover have "about n L = []" if "n \<notin> created L" for n using created_about [OF wf(1)] that by blast
  moreover have "created L \<subseteq> gkeys (mg_queues (finalize clock rs m))" using keys by (auto simp: gkeys_iff)
  ultimately show ?thesis
    unfolding server_inv_def using wf qs H keys by (simp add: boot_def) blast
qed

lemma committed_recovered:
  assumes inv: "wal_inv base w"
    and j: "\<And>q. q \<in> set (sy_sent w) \<Longrightarrow> (rq_id q, None) \<in> set (sy_done w) \<Longrightarrow> q \<in> set (take j (sy_sent w))"
  shows "committed w \<le> j"
proof -
  obtain okq badq bad where I: "sy_sent w = okq @ badq @ l_reqs (sy_log w)" "sy_done w = reply okq None @ bad"
    "None \<notin> snd ` set bad" "distinct (map rq_id (sy_sent w))" using inv by (rule wal_invE)
  have "set okq \<subseteq> set (take j (sy_sent w))" using j I(1,2) by (auto simp: reply_def)
  then have "card (set okq) \<le> card (set (take j (sy_sent w)))" by (intro card_mono) auto
  also have "\<dots> \<le> j" using card_length [of "take j (sy_sent w)"] by simp
  finally have "card (set okq) \<le> j" .
  moreover have "distinct okq" using I(1,4) by (simp add: distinct_map)
  ultimately show ?thesis using committed_reply [OF I(2,3)] by (simp add: distinct_card)
qed

text \<open>The life of a queue goes on after a crash that kept the first \<open>j\<close> records of the log.\<close>

lemma crash_life:
  assumes inv: "server_inv H base log S" and j: "committed (sv_wal S) \<le> j"
    and c: "PQueueCreate \<lparr>qp_Config = cfg\<rparr> \<in> set (base @ take j log)"
    and s: "qs_start cfg now (about (c_Name cfg) (base @ take j log)) s'"
  shows "qlife cfg (H (c_Name cfg) @ sv_hist S (c_Name cfg)) s'"
proof (cases "gget (mg_queues (sv_mgr S)) (c_Name cfg)")
  case None
  note I = server_invD(6) [OF inv None]
  have "about (c_Name cfg) (take j log) = []" using I by (auto simp: about_def filter_empty_conv dest: in_set_takeD)
  then show ?thesis using s I qlife_new [of cfg now s'] by simp
next
  case (Some q)
  let ?n = "c_Name cfg" and ?v = "view (c_Name cfg) base log S q"
  obtain cfg' where c': "PQueueCreate \<lparr>qp_Config = cfg'\<rparr> \<in> set (base @ take (committed (sv_wal S)) log)"
    "c_Name cfg' = ?n" "qlife cfg' (H ?n) ?v" using server_invD(5) [OF inv Some] by blast
  have "cfg' = cfg" using create_unique [OF server_invD(2) [OF inv], of "\<lparr>qp_Config = cfg\<rparr>" "\<lparr>qp_Config = cfg'\<rparr>"]
      c c'(1,2) by (auto dest: in_set_takeD)
  let ?k = "length (about ?n (base @ take j log))"
  have split: "about ?n (base @ log) = about ?n (base @ take j log) @ about ?n (drop j log)"
    by (metis about_simps(2) append.assoc append_take_drop_id)
  then have "take ?k (qs_sent ?v) = about ?n (base @ take j log)" "?k \<le> length (qs_sent ?v)"
    by (simp_all only: view_simps) simp_all
  moreover have "qs_committed ?v \<le> ?k" using about_mono [OF j] by simp
  ultimately show ?thesis
    using qlife_crash [OF c'(3) [unfolded \<open>cfg' = cfg\<close>], of ?k now s'] s by simp
qed

text \<open>The records a crash may leave are a prefix of the log that covers the committed ones.\<close>

lemma wal_part_crash:
  assumes p: "wal_part base log W" and c: "crash (sy_fs W) fs'"
    and wf: "mlog_wf (base @ log)" "\<forall>p \<in> set (base @ log). payload_ok p"
    and op: "Open io opts apply_record fs' (new_manager, []) = (fs'', Inr (l, info, m, rs))"
  obtains j where "committed W \<le> j"
    "fold_err apply_record (map rec_of_payload (base @ take j log)) (new_manager, []) = Inr (m, rs)"
    "wal_inv (map rec_of_payload (base @ take j log)) \<lparr>sy_log = l, sy_fs = fs'', sy_sent = [], sy_done = []\<rparr>"
proof -
  obtain w where w: "wal_inv (map rec_of_payload base) w" "sy_fs w = sy_fs W"
    "map req_rec (sy_sent w) = map rec_of_payload log" "committed w = committed W"
    using p unfolding wal_part_def by blast
  have c': "crash (sy_fs w) fs'" using c w(2) by simp
  have acc: "broker_log (map rec_of_payload base @ map req_rec (sy_sent w))" using broker_logI [OF wf] w(3) by simp
  obtain j where j: "fold_err apply_record (map rec_of_payload base @ map req_rec (take j (sy_sent w))) (new_manager, []) = Inr (m, rs)"
    "\<And>q. q \<in> set (sy_sent w) \<Longrightarrow> (rq_id q, None) \<in> set (sy_done w) \<Longrightarrow> q \<in> set (take j (sy_sent w))"
    "wal_inv (map rec_of_payload base @ map req_rec (take j (sy_sent w)))
       \<lparr>sy_log = l, sy_fs = fs'', sy_sent = [], sy_done = []\<rparr>"
    by (rule managing.restarts [OF w(1) c' acc op]) (rule that; blast)
  have "map req_rec (take j (sy_sent w)) = map rec_of_payload (take j log)" by (simp only: take_map [symmetric] w(3))
  then show thesis using that [of j] j(1,3) committed_recovered [OF w(1) j(2)] w(4) by simp
qed

lemma Manager_OpenE:
  assumes "Manager_Open io opts clock fs = (fs', Inr (m, l, info))"
  obtains m0 rs where "Open io opts apply_record fs (new_manager, []) = (fs', Inr (l, info, m0, rs))"
    "m = finalize clock rs m0"
  using assms by (auto simp: Manager_Open_def split: prod.splits sum.splits)

lemma server_inv_reboot:
  assumes inv: "server_inv H base log S" and c: "crash (sy_fs (sv_wal S)) fs'"
    and op: "Manager_Open io opts clock fs' = (fs'', Inr (m, l, info))"
  shows "\<exists>base'. server_inv (\<lambda>n. H n @ sv_hist S n) base' [] (boot m l fs'' (sv_sent S))"
proof -
  note I = server_invD [OF inv]
  obtain m0 rs where o: "Open io opts apply_record fs' (new_manager, []) = (fs'', Inr (l, info, m0, rs))"
    and m: "m = finalize clock rs m0" using op by (rule Manager_OpenE)
  obtain j where j: "committed (sv_wal S) \<le> j"
    "fold_err apply_record (map rec_of_payload (base @ take j log)) (new_manager, []) = Inr (m0, rs)"
    "wal_inv (map rec_of_payload (base @ take j log)) \<lparr>sy_log = l, sy_fs = fs'', sy_sent = [], sy_done = []\<rparr>"
    by (rule wal_part_crash [OF I(1) c I(2,3) o])
  let ?L = "base @ take j log"
  have "mlog_wf ?L" using mlog_wf_take [OF I(2), of "length base + j"] by simp
  moreover have sub: "set ?L \<subseteq> set (base @ log)" by (auto dest: in_set_takeD)
  moreover have "H n @ sv_hist S n = []" if "n \<notin> created ?L" for n
  proof (cases "gget (mg_queues (sv_mgr S)) n")
    case (Some q)
    obtain cfg where "PQueueCreate \<lparr>qp_Config = cfg\<rparr> \<in> set (base @ take (committed (sv_wal S)) log)" "c_Name cfg = n"
      using I(5) [OF Some] by blast
    then have "PQueueCreate \<lparr>qp_Config = cfg\<rparr> \<in> set ?L" "c_Name cfg = n"
      using set_take_subset_set_take [OF j(1), of log] by auto
    then have "n \<in> created ?L" by (force simp: created_def)
    then show ?thesis using that by simp
  qed (use I(6) in simp)
  ultimately show ?thesis
    unfolding m using I(3,4) j(2,3) Open_fatal [OF o] crash_life [OF inv j(1)]
    by (intro exI [of _ ?L] boot_inv) blast+
qed

lemma server_life_inv: "server_life H S \<Longrightarrow> \<exists>base log. server_inv H base log S"
proof (induction rule: server_life.induct)
  case (server_first fs io opts clock fs' m l info)
  obtain m0 rs where o: "Open io opts apply_record fs (new_manager, []) = (fs', Inr (l, info, m0, rs))"
    "m = finalize clock rs m0" using server_first(2) by (rule Manager_OpenE)
  have "server_inv (\<lambda>_. []) [] [] (boot (finalize clock rs m0) l fs' [])"
    by (rule boot_inv)
      (use Open_fresh [OF server_first(1) o(1)] Open_fatal [OF o(1)] in \<open>auto intro: mlog_wf_Nil qlife_new\<close>)
  then show ?case using o(2) by blast
next
  case (server_act H S S')
  then show ?case using server_inv_step by blast
next
  case (server_reboot H S fs' io opts clock fs'' m l info)
  then show ?case using server_inv_reboot by blast
qed

section \<open>A run of the broker\<close>

text \<open>A queue is created and one message enqueued, without faults: the run the witnesses use.\<close>

definition demo_opts :: walOptions where
  "demo_opts = \<lparr>wo_Dir = ''d'', wo_Sync = SyncGroup, wo_SegmentSize = 1000000, wo_BatchMax = 8\<rparr>"

definition demo_msg :: payload where
  "demo_msg = PEnqueue \<lparr>ep_Queue = ''q'', ep_ID = ''aa'', ep_Body = [65], ep_Priority = 0, ep_Seq = 1,
     ep_EnqueuedAt = 0, ep_VisibleAt = 0, ep_DedupKey = []\<rparr>"

definition no_fault :: commit_io where
  "no_fault = \<lparr>io_close = None, io_open = None, io_syncDir = None, io_write = None, io_sync = None\<rparr>"

definition idle :: "nat \<Rightarrow> walSys \<Rightarrow> bool" where
  "idle b W \<longleftrightarrow> l_reqs (sy_log W) = [] \<and> \<not> l_closed (sy_log W) \<and> l_fatal (sy_log W) = None \<and>
     l_opts (sy_log W) = demo_opts \<and> fs_linked (sy_fs W) = [l_f (sy_log W)] \<and> l_size (sy_log W) + b \<le> 1000000 \<and>
     (\<exists>d. fs_files (sy_fs W) = [(l_f (sy_log W), \<lparr>f_data = d, f_synced = length d\<rparr>)])"

lemma idle_crash: "idle b W \<Longrightarrow> crash (sy_fs W) (sy_fs W)"
  by (auto simp: idle_def crash_def durable_def gwf_def gkeys_def gget_def split: if_splits intro!: exI [of _ "length _"])

lemma idle_append:
  assumes "idle (encodedSize (Marshal p) + b) W" "payload_ok p"
  shows "\<exists>W1 l' fs'. sends p W W1 \<and> run_once no_fault (sy_log W1) (sy_fs W1) = Some (l', fs', [(length (sy_sent W), None)]) \<and>
    sy_done W1 = sy_done W \<and> idle b (W1\<lparr>sy_log := l', sy_fs := fs', sy_done := D\<rparr>)"
proof -
  let ?l = "(sy_log W)\<lparr>l_reqs := [\<lparr>rq_id = length (sy_sent W), rq_typ = payload_type p, rq_payload = Marshal p\<rparr>]\<rparr>"
  have "length (Marshal p) \<le> maxRecordSize" using assms(1) by (simp add: idle_def encodedSize_def maxRecordSize_def)
  then have a: "appendJSON (length (sy_sent W)) p (sy_log W) = Inr ?l"
    using assms(1) payload_type_valid [of p] by (simp add: appendJSON_def Append_send_def idle_def)
  then have "sends p W (W\<lparr>sy_log := ?l, sy_sent := sy_sent W @
        [\<lparr>rq_id = length (sy_sent W), rq_typ = payload_type p, rq_payload = Marshal p\<rparr>]\<rparr>)"
    using assms by (simp add: sends_def idle_def demo_opts_def)
  then show ?thesis using assms(1)
    by (intro exI [of _ "W\<lparr>sy_log := ?l, sy_sent := sy_sent W @
        [\<lparr>rq_id = length (sy_sent W), rq_typ = payload_type p, rq_payload = Marshal p\<rparr>]\<rparr>"])
      (auto simp: run_once_def next_batch_def commit_def no_fault_def idle_def demo_opts_def SyncGroup_def reply_def
        fs_write_def fs_sync_def gget_def gput_def Let_def)
qed

lemma quote_plain: "\<forall>c \<in> set s. code c < 128 \<and> quote_ascii c = [c] \<Longrightarrow> quote_body s = s"
proof (induction s)
  case (Cons c s)
  then show ?case by (simp add: quote_body.simps [of "c # s"])
qed (simp add: quote_body.simps)

lemma demo_sizes: "length (Marshal (PQueueCreate \<lparr>qp_Config = demo_cfg\<rparr>)) \<le> 300" "length (Marshal demo_msg) \<le> 300"
proof -
  have "b64_char 16 = CHR ''Q''" by code_simp
  moreover have "length (show_int 30000) = 5" "length (show_int 5) = 1" "length (show_int 1) = 1" "length (show_int 0) = 1"
    by (simp_all add: show_int_def show_nat.simps)
  ultimately show "length (Marshal (PQueueCreate \<lparr>qp_Config = demo_cfg\<rparr>)) \<le> 300" "length (Marshal demo_msg) \<le> 300"
    by (simp_all add: Marshal_def enc_config_def enc_enqueue_def demo_cfg_def demo_msg_def jquote_def quote_plain
      quote_ascii_def FIFO_def)
qed

lemma demo_open:
  "\<exists>fs m l info. Manager_Open open_ok demo_opts 0 \<lparr>fs_files = [], fs_subdirs = [], fs_linked = []\<rparr> = (fs, Inr (m, l, info)) \<and>
     m = new_manager \<and> idle 1000000 \<lparr>sy_log = l, sy_fs = fs, sy_sent = [], sy_done = []\<rparr>"
proof -
  have "listSegments None \<lparr>fs_files = [], fs_subdirs = [], fs_linked = []\<rparr> = Inr []" by (simp add: listSegments_def Let_def)
  then show ?thesis
    by (simp add: Manager_Open_def Open_def open_ok_def replay_def no_faults_def withDefaults_def demo_opts_def SyncGroup_def
      createSegment_def gput_def idle_def finalize_def new_manager_def Let_def)
qed

lemma demo_created:
  "\<exists>S. server_life (\<lambda>_. []) S \<and> idle 500000 (sv_wal S) \<and> sv_mgr S = put_queue ''q'' (newQueue demo_cfg) new_manager \<and>
     sv_ops S = (\<lambda>_. []) \<and> sv_hist S = (\<lambda>_. []) \<and> sv_sent S = [PQueueCreate \<lparr>qp_Config = demo_cfg\<rparr>]"
proof -
  let ?p = "PQueueCreate \<lparr>qp_Config = demo_cfg\<rparr>"
  obtain fs l info where o: "Manager_Open open_ok demo_opts 0 \<lparr>fs_files = [], fs_subdirs = [], fs_linked = []\<rparr> =
      (fs, Inr (new_manager, l, info))"
    and i0: "idle 1000000 \<lparr>sy_log = l, sy_fs = fs, sy_sent = [], sy_done = []\<rparr>" using demo_open by blast
  let ?S0 = "boot new_manager l fs []"
  have l0: "server_life (\<lambda>_. []) ?S0" using server_first [OF _ o] by simp
  have "idle (encodedSize (Marshal ?p) + 500000) (sv_wal ?S0)" "payload_ok ?p"
    using i0 demo_sizes(1) by (auto simp: idle_def encodedSize_def headerSize_def boot_def demo_cfg_def in_i64_def FIFO_def
        intro!: ValidString_ascii)
  from idle_append [OF this, of "[(0, None)]"] obtain W1 l1 fs1 where
    W1: "sends ?p (sv_wal ?S0) W1" "run_once no_fault (sy_log W1) (sy_fs W1) = Some (l1, fs1, [(0, None)])"
      "sy_done W1 = []" and i1: "idle 500000 (W1\<lparr>sy_log := l1, sy_fs := fs1, sy_done := [(0, None)]\<rparr>)"
    by (auto simp: boot_def)
  let ?W2 = "W1\<lparr>sy_log := l1, sy_fs := fs1, sy_done := [(0, None)]\<rparr>"
  let ?S1 = "?S0\<lparr>sv_new := Some (demo_cfg, Reserved ?p)\<rparr>"
  let ?S2 = "?S1\<lparr>sv_wal := W1, sv_sent := [?p], sv_new := Some (demo_cfg, Sent 0)\<rparr>"
  let ?S3 = "?S2\<lparr>sv_wal := ?W2\<rparr>"
  let ?S4 = "?S3\<lparr>sv_mgr := put_queue ''q'' (newQueue demo_cfg) new_manager, sv_new := None\<rparr>"
  have "CreateQueue_reserve demo_cfg new_manager = Inr (demo_cfg, ?p)"
    by (simp add: CreateQueue_reserve_def demo_cfg_def normalize_def FIFO_def queueNamePattern_def alnum_def new_manager_def Let_def)
  then have "server_step ?S0 ?S1" using s_create [of ?S0] by (simp add: boot_def)
  moreover have "server_step ?S1 ?S2" using s_create_send [of ?S1 demo_cfg ?p W1] W1(1) by (simp add: boot_def)
  moreover have "server_step ?S2 ?S3" using s_writer [of no_fault ?S2 l1 fs1 "[(0, None)]"] W1(2,3) by (simp add: boot_def)
  moreover have "server_step ?S3 ?S4"
    using s_create_finish [of ?S3 demo_cfg "Sent 0" None]
    by (simp add: boot_def replied_def CreateQueue_finish_def put_queue_def demo_cfg_def Let_def)
  ultimately have "server_life (\<lambda>_. []) ?S4" using l0 server_act by blast
  then show ?thesis using i1 by (intro exI [of _ ?S4]) (simp add: boot_def)
qed

lemma demo_broker:
  "\<exists>S q msg. server_life (\<lambda>_. []) S \<and> crash (sy_fs (sv_wal S)) (sy_fs (sv_wal S)) \<and>
     Queue_lookup ''q'' (sv_mgr S) = Inr q \<and> sv_hist S ''q'' = [EvEnqueued msg] \<and> m_ID msg = ''aa'' \<and> m_Body msg = [65] \<and>
     gone_ids (about ''q'' (sv_sent S)) = {}"
proof -
  obtain S where l: "server_life (\<lambda>_. []) S" "idle 500000 (sv_wal S)" and S: "sv_mgr S = put_queue ''q'' (newQueue demo_cfg) new_manager"
      "sv_ops S = (\<lambda>_. [])" "sv_hist S = (\<lambda>_. [])" "sv_sent S = [PQueueCreate \<lparr>qp_Config = demo_cfg\<rparr>]"
    using demo_created by blast
  have lk: "Queue_lookup ''q'' (sv_mgr S) = Inr (newQueue demo_cfg)" by (simp add: S lookup_iff put_queue_def)
  obtain q1 m e where r: "Enqueue_reserve 0 ''aa'' [65] 0 0 [] (newQueue demo_cfg) = (q1, EnqAppend m e demo_msg)"
    and m: "m_ID (q_store q1 m) = ''aa''" "m_Body (q_store q1 m) = [65]"
    by (auto simp: Enqueue_reserve_def newQueue_def Let_def demo_msg_def demo_cfg_def unixMilli_def go_div_nonneg)
  obtain q2 msg where f: "finish_op 0 (OpEnqueue m e []) None q1 = (q2, [], [EvEnqueued msg])"
    and msg: "m_ID msg = ''aa''" "m_Body msg = [65]"
    using m by (auto simp: Enqueue_finish_def Let_def)
  let ?k = "length (sy_sent (sv_wal S))"
  have "idle (encodedSize (Marshal demo_msg) + 0) (sv_wal S)" "payload_ok demo_msg"
    using l(2) demo_sizes(2) by (auto simp: idle_def encodedSize_def headerSize_def demo_msg_def in_i64_def intro!: ValidString_ascii)
  from idle_append [OF this, of "sy_done (sv_wal S) @ [(?k, None)]"] obtain W1 l1 fs1 where
    W1: "sends demo_msg (sv_wal S) W1" "run_once no_fault (sy_log W1) (sy_fs W1) = Some (l1, fs1, [(?k, None)])"
      "sy_done W1 = sy_done (sv_wal S)"
    and i1: "idle 0 (W1\<lparr>sy_log := l1, sy_fs := fs1, sy_done := sy_done (sv_wal S) @ [(?k, None)]\<rparr>)" by blast
  let ?W2 = "W1\<lparr>sy_log := l1, sy_fs := fs1, sy_done := sy_done (sv_wal S) @ [(?k, None)]\<rparr>"
  let ?S1 = "S\<lparr>sv_mgr := put_queue ''q'' q1 (sv_mgr S), sv_ops := (sv_ops S)(''q'' := [(OpEnqueue m e [], Reserved demo_msg)])\<rparr>"
  let ?S2 = "?S1\<lparr>sv_wal := W1, sv_sent := sv_sent S @ [demo_msg], sv_ops := (sv_ops ?S1)(''q'' := [(OpEnqueue m e [], Sent ?k)])\<rparr>"
  let ?S3 = "?S2\<lparr>sv_wal := ?W2\<rparr>"
  let ?S4 = "?S3\<lparr>sv_mgr := put_queue ''q'' q2 (sv_mgr ?S3), sv_ops := (sv_ops ?S3)(''q'' := []),
      sv_hist := (sv_hist S)(''q'' := [EvEnqueued msg])\<rparr>"
  have "qcall (newQueue demo_cfg) q1 [(OpEnqueue m e [], Reserved demo_msg)]" using q_enqueue [OF r] by (simp add: newQueue_def)
  then have "server_step S ?S1" using s_call [OF lk] by (simp add: S)
  moreover have "server_step ?S1 ?S2"
    using s_send [of ?S1 "''q''" "[]" "OpEnqueue m e []" demo_msg "[]" W1] W1(1) by simp
  moreover have "server_step ?S2 ?S3" using s_writer [of no_fault ?S2 l1 fs1] W1(2,3) by simp
  moreover have "server_step ?S3 ?S4"
    using s_finish [of ?S3 "''q''" "[]" "OpEnqueue m e []" "Sent ?k" "[]" None q1 0 q2 "[]" "[EvEnqueued msg]"] f
    by (simp add: replied_def lookup_iff put_queue_def S(3))
  ultimately have "server_life (\<lambda>_. []) ?S4" using l(1) server_act by blast
  moreover have "gone_ids (about ''q'' (sv_sent ?S4)) = {}" by (simp add: S demo_msg_def about_def gone_ids_def)
  ultimately show ?thesis using idle_crash [OF i1] msg
    by (intro exI [of _ ?S4] exI [of _ q2] exI [of _ msg]) (simp add: lookup_iff put_queue_def)
qed

section \<open>What the broker guarantees\<close>

text \<open>C4: Refinement. In every reachable state of the broker, over any number of crashes and restarts, each
  registered queue is a queue of the single-queue system: with the same state, the same operations in
  progress and the same answers to its callers in all lives, and with a log whose records were all
  handed to the shared log. What holds of every life of one queue with a log of its own therefore
  holds of every queue of the broker, although the queues share one log and one writer.\<close>

theorem queue_of_broker:
  assumes "server_life H S" "Queue_lookup n (sv_mgr S) = Inr q"
  shows "\<exists>cfg s. c_Name cfg = n \<and> qlife cfg (H n) s \<and> qs_q s = q \<and> qs_hist s = sv_hist S n \<and>
    map fst (qs_ops s) = map fst (sv_ops S n) \<and> set (qs_sent s) \<subseteq> set (sv_sent S) \<and>
    (\<forall>p \<in> set (qs_sent s). payload_queue p = n)"
proof -
  obtain base log where inv: "server_inv H base log S" using server_life_inv [OF assms(1)] by blast
  obtain cfg where c: "c_Name cfg = n" "qlife cfg (H n) (view n base log S q)"
    using server_invD(5) [OF inv, of n q] assms(2) by (auto simp: lookup_iff)
  have "map fst (qs_ops (view n base log S q)) = map fst (sv_ops S n)" by (simp add: comp_def map_prod_def split_beta)
  moreover have "set (about n (base @ log)) \<subseteq> set (sv_sent S)" using server_invD(4) [OF inv] by (auto simp: about_def)
  ultimately show ?thesis
    using c by (intro exI [of _ cfg] exI [of _ "view n base log S q"]) (auto simp: about_def)
qed

theorem queue_of_broker_witness:
  "\<exists>S q s. server_life (\<lambda>_. []) S \<and> Queue_lookup ''q'' (sv_mgr S) = Inr q \<and> qs_q s = q \<and> qlife (q_cfg q) [] s \<and>
     length (qs_hist s) = 1"
proof -
  obtain S q msg where S: "server_life (\<lambda>_. []) S" "Queue_lookup ''q'' (sv_mgr S) = Inr q" "sv_hist S ''q'' = [EvEnqueued msg]"
    using demo_broker by blast
  obtain cfg s where s: "qlife cfg [] s" "qs_q s = q" "qs_hist s = [EvEnqueued msg]"
    using queue_of_broker [OF S(1,2)] S(3) by auto
  have "q_cfg q = cfg" using qlife_inv [OF s(1)] qs_invD(1) s(2) by blast
  then show ?thesis using S s by (intro exI [of _ S] exI [of _ q] exI [of _ s]) simp
qed

lemma wal_part_reopen:
  assumes p: "wal_part base log W" and c: "crash (sy_fs W) fs'"
    and wf: "mlog_wf (base @ log)" "\<forall>p \<in> set (base @ log). payload_ok p" and d: "wo_Dir opts \<noteq> []"
  shows "\<exists>fs'' l info st. Open open_ok opts apply_record fs' (new_manager, []) = (fs'', Inr (l, info, st))"
proof -
  obtain w where w: "wal_inv (map rec_of_payload base) w" "sy_fs w = sy_fs W"
    "map req_rec (sy_sent w) = map rec_of_payload log" using p unfolding wal_part_def by blast
  have "broker_log (map rec_of_payload base @ map req_rec (sy_sent w))" using broker_logI [OF wf] w(3) by simp
  from managing.reopens [OF w(1) _ d this, of fs'] show ?thesis using c w(2) by auto
qed

lemma gone_ids_mono: "set L \<subseteq> set M \<Longrightarrow> gone_ids (about n L) \<subseteq> gone_ids (about n M)"
  by (auto simp: gone_ids_def about_def)

lemma queue_recovers:
  assumes inv: "server_inv H base log S" and j: "committed (sv_wal S) \<le> j"
    and q: "gget (mg_queues (sv_mgr S)) n = Some q"
  shows "\<exists>cfg q' rs. PQueueCreate \<lparr>qp_Config = cfg\<rparr> \<in> set (base @ take j log) \<and> c_Name cfg = n \<and> q_cfg q = cfg \<and>
    fold_err apply_queue (about n (base @ take j log)) (newQueue cfg, []) = Inr (q', rs) \<and> q_cfg q' = cfg \<and>
    (\<forall>msg. EvEnqueued msg \<in> set (H n @ sv_hist S n) \<longrightarrow> m_ID msg \<notin> gone_ids (about n (sv_sent S)) \<longrightarrow>
       (\<exists>r. gget (q_msgs q') (m_ID msg) = Some r \<and> imm (q_store q' r) = imm msg)) \<and>
    (\<forall>i. EvAcked i \<in> set (H n @ sv_hist S n) \<longrightarrow> gget (q_msgs q') i = None)"
proof -
  let ?L = "base @ take j log" and ?v = "view n base log S q"
  obtain cfg where c: "PQueueCreate \<lparr>qp_Config = cfg\<rparr> \<in> set (base @ take (committed (sv_wal S)) log)"
    "c_Name cfg = n" "qlife cfg (H n) ?v" using server_invD(5) [OF inv q] by blast
  have cfg: "q_cfg q = cfg" using qlife_inv [OF c(3)] qs_invD(1) by fastforce
  have split: "about n (base @ log) = about n ?L @ about n (drop j log)"
    by (metis about_simps(2) append.assoc append_take_drop_id)
  then have k: "take (length (about n ?L)) (qs_sent ?v) = about n ?L" "length (about n ?L) \<le> length (qs_sent ?v)"
    by (simp_all only: view_simps) simp_all
  have "qs_committed ?v \<le> length (about n ?L)" using about_mono [OF j] by simp
  from crash_recovers [OF c(3) this k(2)] obtain q' rs where
    f: "fold_err apply_queue (about n ?L) (newQueue cfg, []) = Inr (q', rs)" and
    e: "\<forall>msg. EvEnqueued msg \<in> set (H n @ sv_hist S n) \<longrightarrow> m_ID msg \<notin> gone_ids (about n ?L) \<longrightarrow>
       (\<exists>r. gget (q_msgs q') (m_ID msg) = Some r \<and> imm (q_store q' r) = imm msg)"
    "\<forall>i. EvAcked i \<in> set (H n @ sv_hist S n) \<longrightarrow> gget (q_msgs q') i = None"
    unfolding k by auto
  have "log_wf (about n ?L)" using mlog_wf_about [OF mlog_wf_take [OF server_invD(2) [OF inv], of "length base + j"]] by simp
  then have "q_cfg q' = cfg" using replay_wf [of "about n ?L" cfg "[]"] f by (auto simp: folded_def)
  moreover have "gone_ids (about n ?L) \<subseteq> gone_ids (about n (sv_sent S))"
    by (rule gone_ids_mono) (use server_invD(4) [OF inv] in \<open>auto dest: in_set_takeD\<close>)
  moreover have "PQueueCreate \<lparr>qp_Config = cfg\<rparr> \<in> set ?L"
    using c(1) set_take_subset_set_take [OF j, of log] by auto
  ultimately show ?thesis
    using c(2) cfg f e by (intro exI [of _ cfg] exI [of _ q'] exI [of _ rs]) blast
qed



end
